(* ===== verification/Prelude.thy ===== *)
theory Prelude
  imports Main "HOL-Library.Word" "HOL-Library.Monad_Syntax"
begin

text \<open>
  Shared material: the types that stand for the C++ scalar types of the Win32 (ILP32) build, the
  byte memory the pointers of the program point into, the parts of the C library the program
  calls (\<^verbatim>\<open>isspace\<close>, \<^verbatim>\<open>memcmp\<close>, \<^verbatim>\<open>strlen\<close>, \<^verbatim>\<open>atoi\<close>, decimal printing), and the generic lemmas
  on lists, options and words that the component theories use.

  A failed memory access is the value \<open>None\<close> of the option type: a read or a write outside the
  block a pointer points into, or into a block that has been released. So \<open>f x = Some y\<close> says
  that the operation completes without such an access and gives \<open>y\<close>.
\<close>

section \<open>Scalar types and the collections of lemmas\<close>

text \<open>\<^verbatim>\<open>UINT\<close>, \<^verbatim>\<open>DWORD\<close>, \<^verbatim>\<open>ULONG\<close> and (on Win32) \<^verbatim>\<open>size_t\<close> are 32 bits wide.\<close>

type_synonym u32 = "32 word"
type_synonym size_t = "32 word"

named_theorems mem_simps \<open>reads and writes of the byte memory\<close>
named_theorems view_simps \<open>contents of slices and buffers\<close>

abbreviation NUL :: char where
  "NUL \<equiv> CHR 0x00"

abbreviation CR :: char where
  "CR \<equiv> CHR 0x0D"

abbreviation LF :: char where
  "LF \<equiv> CHR 0x0A"

section \<open>The byte memory\<close>

text \<open>
  Memory is a list of blocks, one per allocation in the order the allocations were made; a block
  that was released is \<open>None\<close>. A pointer is a base and an offset. Two kinds of base are not
  allocations: the null pointer, which designates no byte, and constant character data (a string
  literal or the buffer of a \<^verbatim>\<open>std::string\<close>), which is known by its contents and ends in a NUL.
  The program uses an address only to reach the bytes it designates, so the number of the
  allocation stands for the address.
\<close>

type_synonym mem = "string option list"

datatype base = Null | Heap nat | Lit string

fun block_of :: "mem \<Rightarrow> base \<Rightarrow> string option" where
  "block_of m Null = Some []"
| "block_of m (Heap a) = (if a < length m then m ! a else None)"
| "block_of m (Lit s) = Some (s @ [NUL])"

definition load :: "mem \<Rightarrow> base \<Rightarrow> int \<Rightarrow> char option" where
  "load m bl i = (case block_of m bl of None \<Rightarrow> None
     | Some xs \<Rightarrow> if 0 \<le> i \<and> i < int (length xs) then Some (xs ! nat i) else None)"

text \<open>\<open>n\<close> bytes from an offset on; moving no byte at all touches no memory.\<close>

definition load_n :: "mem \<Rightarrow> base \<Rightarrow> int \<Rightarrow> nat \<Rightarrow> string option" where
  "load_n m bl i n = (if n = 0 then Some [] else
     (case block_of m bl of None \<Rightarrow> None
      | Some xs \<Rightarrow> if 0 \<le> i \<and> i + int n \<le> int (length xs) then Some (take n (drop (nat i) xs))
                   else None))"

definition splice :: "'a list \<Rightarrow> nat \<Rightarrow> 'a list \<Rightarrow> 'a list" where
  "splice xs i ys = take i xs @ ys @ drop (i + length ys) xs"

fun store_n :: "mem \<Rightarrow> base \<Rightarrow> int \<Rightarrow> string \<Rightarrow> mem option" where
  "store_n m bl i [] = Some m"
| "store_n m (Heap a) i ys =
     (case block_of m (Heap a) of None \<Rightarrow> None
      | Some xs \<Rightarrow> if 0 \<le> i \<and> i + int (length ys) \<le> int (length xs)
                   then Some (m[a := Some (splice xs (nat i) ys)]) else None)"
| "store_n m _ i ys = None"

text \<open>
  \<^verbatim>\<open>MoveMemory\<close> reads all its source bytes before it writes; \<^verbatim>\<open>CopyMemory\<close> is used by the program
  on ranges that do not overlap, where it is the same function.
\<close>

definition move_memory :: "mem \<Rightarrow> base \<Rightarrow> int \<Rightarrow> base \<Rightarrow> int \<Rightarrow> nat \<Rightarrow> mem option" where
  "move_memory m dst di src si n = do { bs \<leftarrow> load_n m src si n; store_n m dst di bs }"

subsection \<open>Laws of the memory\<close>

lemma load_eq [mem_simps]:
  "block_of m bl = Some xs \<Longrightarrow> 0 \<le> i \<Longrightarrow> i < int (length xs) \<Longrightarrow> load m bl i = Some (xs ! nat i)"
  by (simp add: load_def)

lemma load_n_eq [mem_simps]:
  "block_of m bl = Some xs \<Longrightarrow> 0 \<le> i \<Longrightarrow> i + int n \<le> int (length xs) \<Longrightarrow>
   load_n m bl i n = Some (take n (drop (nat i) xs))"
  by (simp add: load_n_def)

lemma length_splice [simp]: "i + length ys \<le> length xs \<Longrightarrow> length (splice xs i ys) = length xs"
  by (simp add: splice_def)

lemma splice_Nil [simp]: "splice xs i [] = xs"
  by (simp add: splice_def)

lemma take_splice [simp]: "i \<le> length xs \<Longrightarrow> take (i + length ys) (splice xs i ys) = take i xs @ ys"
  by (simp add: splice_def)

lemma store_n_eq [mem_simps]:
  assumes "block_of m (Heap a) = Some xs" and "0 \<le> i" and "i + int (length ys) \<le> int (length xs)"
  shows "store_n m (Heap a) i ys = Some (m[a := Some (splice xs (nat i) ys)])"
proof (cases ys)
  case Nil
  with assms(1) have "m[a := Some xs] = m"
    by (simp add: list_update_same_conv split: if_splits)
  with Nil show ?thesis by simp
next
  case (Cons y zs)
  with assms show ?thesis by (simp split: if_splits)
qed

lemma block_of_update [simp]:
  "block_of (m[a := v]) bl =
     (if bl = Heap a \<and> a < length m then v else block_of m bl)"
  by (cases bl) auto

lemma block_of_append_new [simp]: "block_of (m @ [v]) (Heap (length m)) = v"
  by simp

lemma block_of_append_old [simp]:
  "block_of m bl = Some xs \<Longrightarrow> block_of (m @ ws) bl = Some xs"
  by (cases bl) (auto simp: nth_append split: if_splits)

lemma block_of_HeapD: "block_of m (Heap a) = Some xs \<Longrightarrow> a < length m \<and> m ! a = Some xs"
  by (auto split: if_splits)

section \<open>The C library\<close>

text \<open>
  \<^verbatim>\<open>isspace\<close> of the \<^verbatim>\<open>C\<close> locale. A byte above 127 is a negative \<^verbatim>\<open>char\<close>, for which the run-time
  library's range test answers \<^emph>\<open>no\<close>.
\<close>

definition isspace :: "char \<Rightarrow> bool" where
  "isspace c \<longleftrightarrow> c \<in> {CHR '' '', CHR 0x09, LF, CHR 0x0B, CHR 0x0C, CR}"

lemma isspace_simps [simp]: "isspace CR" "isspace LF" "isspace (CHR '' '')" "\<not> isspace NUL"
  by (simp_all add: isspace_def)

text \<open>\<^verbatim>\<open>memcmp\<close> on two byte ranges of the same length: bytes compare as unsigned numbers.\<close>

fun memcmp_bytes :: "string \<Rightarrow> string \<Rightarrow> int" where
  "memcmp_bytes (x # xs) (y # ys) =
     (if (of_char x :: nat) < of_char y then -1
      else if (of_char y :: nat) < of_char x then 1 else memcmp_bytes xs ys)"
| "memcmp_bytes _ _ = 0"

definition memcmp :: "mem \<Rightarrow> base \<Rightarrow> int \<Rightarrow> base \<Rightarrow> int \<Rightarrow> nat \<Rightarrow> int option" where
  "memcmp m b1 i1 b2 i2 n = do {
     xs \<leftarrow> load_n m b1 i1 n;
     ys \<leftarrow> load_n m b2 i2 n;
     Some (memcmp_bytes xs ys) }"

lemma of_char_nat_inject: "(of_char x :: nat) = of_char y \<longleftrightarrow> x = y"
  by simp

lemma memcmp_bytes_eq_0: "length xs = length ys \<Longrightarrow> memcmp_bytes xs ys = 0 \<longleftrightarrow> xs = ys"
proof (induction xs ys rule: memcmp_bytes.induct)
  case (1 x xs y ys)
  then show ?case
    using of_char_nat_inject [of x y] by (auto simp del: of_char_eq_iff)
qed auto

text \<open>\<^verbatim>\<open>strlen\<close>: bytes up to the first NUL of the block; without one, the scan leaves the block.\<close>

function strlen_from :: "mem \<Rightarrow> base \<Rightarrow> int \<Rightarrow> nat option" where
  "strlen_from m bl i = (case load m bl i of None \<Rightarrow> None
     | Some c \<Rightarrow> if c = NUL then Some 0 else map_option Suc (strlen_from m bl (i + 1)))"
  by pat_completeness auto
termination
  by (relation "measure (\<lambda>(m, bl, i). case block_of m bl of None \<Rightarrow> 0 | Some xs \<Rightarrow> nat (int (length xs) - i))")
     (auto simp: load_def split: option.splits if_splits)

declare strlen_from.simps [simp del]

text \<open>
  \<^verbatim>\<open>atoi\<close>: leading white space, an optional sign, then decimal digits; the value saturates at the
  bounds of \<^verbatim>\<open>int\<close>, as the run-time library documents.
\<close>

definition is_digit :: "char \<Rightarrow> bool" where
  "is_digit c \<longleftrightarrow> (48::nat) \<le> of_char c \<and> (of_char c :: nat) \<le> 57"

definition digits_value :: "string \<Rightarrow> int" where
  "digits_value ds = foldl (\<lambda>v c. 10 * v + (of_char c - 48)) 0 ds"

definition saturate_int :: "int \<Rightarrow> int" where
  "saturate_int v = max (- (2 ^ 31)) (min (2 ^ 31 - 1) v)"

definition atoi :: "string \<Rightarrow> int" where
  "atoi s = (let t = dropWhile isspace s in
     case t of [] \<Rightarrow> 0
     | c # r \<Rightarrow> saturate_int
         (if c = CHR ''-'' then - digits_value (takeWhile is_digit r)
          else if c = CHR ''+'' then digits_value (takeWhile is_digit r)
          else digits_value (takeWhile is_digit t)))"

lemma saturate_int_bounds: "- (2 ^ 31) \<le> saturate_int v" "saturate_int v < 2 ^ 31"
  by (auto simp: saturate_int_def min_def max_def)

lemma atoi_bounds: "- (2 ^ 31) \<le> atoi s \<and> atoi s < 2 ^ 31"
  using saturate_int_bounds by (simp add: atoi_def Let_def split: list.split)

lemma atoi_Nil [simp]: "atoi [] = 0"
  by (simp add: atoi_def)

text \<open>Decimal output of a stream insertion of an \<^verbatim>\<open>int\<close>.\<close>

fun dec_nat :: "nat \<Rightarrow> string" where
  "dec_nat n = (if n < 10 then [char_of (48 + n)] else dec_nat (n div 10) @ [char_of (48 + n mod 10)])"

declare dec_nat.simps [simp del]

definition dec_int :: "int \<Rightarrow> string" where
  "dec_int i = (if i < 0 then CHR ''-'' # dec_nat (nat (- i)) else dec_nat (nat i))"

section \<open>Lists and words\<close>

lemma length_takeWhile_dropWhile:
  "length (takeWhile P xs) + length (dropWhile P xs) = length xs"
  by (metis length_append takeWhile_dropWhile_id)

lemma drop_length_takeWhile: "drop (length (takeWhile P xs)) xs = dropWhile P xs"
  by (simp add: dropWhile_eq_drop)

lemma take_length_takeWhile: "take (length (takeWhile P xs)) xs = takeWhile P xs"
  by (metis append_eq_conv_conj takeWhile_dropWhile_id)

lemma uint_word_of_int_small: "0 \<le> i \<Longrightarrow> i < 2 ^ 32 \<Longrightarrow> uint (word_of_int i :: u32) = i"
  by (simp add: uint_word_of_int take_bit_eq_mod)

lemma unat_word_of_int_small: "0 \<le> i \<Longrightarrow> i < 2 ^ 32 \<Longrightarrow> unat (word_of_int i :: u32) = nat i"
  by (simp add: uint_word_of_int_small flip: nat_uint_eq)

lemma unat_word_of_int_nat: "n < 2 ^ 32 \<Longrightarrow> unat (word_of_int (int n) :: u32) = n"
  by (subst unat_word_of_int_small) auto

lemma uint_word_of_int_nat: "n < 2 ^ 32 \<Longrightarrow> uint (word_of_int (int n) :: u32) = int n"
  by (rule uint_word_of_int_small) auto

lemma unat_word_of_nat: "n < 2 ^ 32 \<Longrightarrow> unat (word_of_nat n :: u32) = n"
  by (simp add: unsigned_of_nat take_bit_nat_eq_self)

lemma sint_small:
  assumes "unat (w :: u32) < 2 ^ 31"
  shows "sint w = int (unat w)"
proof -
  have u: "uint w = int (unat w)" by (rule uint_nat)
  moreover from assms have "unat w < 2147483648" by simp
  with u have "- 2147483648 \<le> uint w" "uint w < 2147483648" by linarith+
  then have "signed_take_bit 31 (uint w) = uint w"
    by (intro signed_take_bit_int_eq_self) simp_all
  ultimately show ?thesis by (simp add: sint_uint)
qed

lemma uint_less_2_32: "uint (w :: u32) < 2 ^ 32"
  using uint_lt2p [of w] by simp

lemma unat_less_2_32: "unat (w :: u32) < 2 ^ 32"
  using unsigned_less [of w, where 'a = nat] by simp

section \<open>Arrays\<close>

text \<open>An array of a C program is the list of its elements; an access outside it is \<open>None\<close>.\<close>

definition arr_get :: "'a list \<Rightarrow> int \<Rightarrow> 'a option" where
  "arr_get xs i = (if 0 \<le> i \<and> i < int (length xs) then Some (xs ! nat i) else None)"

definition arr_set :: "'a list \<Rightarrow> int \<Rightarrow> 'a \<Rightarrow> 'a list option" where
  "arr_set xs i x = (if 0 \<le> i \<and> i < int (length xs) then Some (xs[nat i := x]) else None)"

text \<open>An \<^verbatim>\<open>fd_set\<close> has bits for the descriptors 0 to 1023; the macros on any other number leave it.\<close>

definition FD_SETSIZE :: int where
  "FD_SETSIZE = 1024"

definition fd_ok :: "int \<Rightarrow> bool" where
  "fd_ok fd \<longleftrightarrow> 0 \<le> fd \<and> fd < FD_SETSIZE"

end
