(* ===== verification/HttpParse.thy ===== *)
theory HttpParse
  imports Prelude
begin

text \<open>
  The two-level state machine of http_parse.cpp (Linux): \<^verbatim>\<open>parse_line\<close> cuts lines in place,
  \<^verbatim>\<open>parse_requestline\<close> and \<^verbatim>\<open>parse_headers\<close> interpret a line, \<^verbatim>\<open>parse_content\<close> drives them over
  the data received so far, and \<^verbatim>\<open>main\<close> receives until a verdict is reached. The buffer is an
  array of characters; a pointer into it is an index, and an access outside the array gives
  \<open>None\<close>. The references passed by the C++ functions are fields of the record \<open>parser\<close>.

  The main result is that the verdict does not depend on how the network cuts the request into
  pieces: stopping on incomplete data and resuming with more is the same as parsing all of it at
  once.
\<close>

section \<open>Types and the C string functions\<close>

datatype CHECK_STATE = CHECK_STATE_REQUESTLINE | CHECK_STATE_HEADER

datatype LINE_STATUS = LINE_OK | LINE_BAD | LINE_OPEN

datatype HTTP_CODE = NO_REQUEST | GET_REQUEST | BAD_REQUEST | FORBIDDEN_REQUEST | INTERNAL_ERROR
  | CLOSED_REQUEST

definition BUFFER_SIZE :: nat where
  "BUFFER_SIZE = 4096"

record parser =
  p_buffer :: string
  checked_index :: nat
  checkstate :: CHECK_STATE
  read_index :: nat
  start_line :: nat

definition rd :: "string \<Rightarrow> nat \<Rightarrow> char option" where
  "rd buf i = (if i < length buf then Some (buf ! i) else None)"

text \<open>The first index from \<open>i\<close> on whose character satisfies \<open>P\<close>; \<open>None\<close> if the search leaves the array.\<close>

function first_pos :: "(char \<Rightarrow> bool) \<Rightarrow> string \<Rightarrow> nat \<Rightarrow> nat option" where
  "first_pos P buf i =
     (if i < length buf then (if P (buf ! i) then Some i else first_pos P buf (Suc i)) else None)"
  by pat_completeness auto
termination
  by (relation "measure (\<lambda>(P, buf, i). length buf - i)") auto

declare first_pos.simps [simp del]

definition blank :: "char \<Rightarrow> bool" where
  "blank c \<longleftrightarrow> c = CHR '' '' \<or> c = CHR 0x09"

text \<open>\<^verbatim>\<open>strpbrk(p, " \t")\<close>, \<^verbatim>\<open>p + strspn(p, " \t")\<close> and \<^verbatim>\<open>strchr(p, c)\<close>; the null pointer is \<open>None\<close> inside.\<close>

definition strpbrk_blank :: "string \<Rightarrow> nat \<Rightarrow> nat option option" where
  "strpbrk_blank buf i = do {
     j \<leftarrow> first_pos (\<lambda>c. c = NUL \<or> blank c) buf i;
     Some (if buf ! j = NUL then None else Some j) }"

definition skip_blank :: "string \<Rightarrow> nat \<Rightarrow> nat option" where
  "skip_blank buf i = first_pos (\<lambda>c. \<not> blank c) buf i"

definition strchr :: "string \<Rightarrow> nat \<Rightarrow> char \<Rightarrow> nat option option" where
  "strchr buf i c = do {
     j \<leftarrow> first_pos (\<lambda>d. d = NUL \<or> d = c) buf i;
     Some (if buf ! j = NUL then None else Some j) }"

definition tolower :: "char \<Rightarrow> char" where
  "tolower c = (if 65 \<le> (of_char c :: nat) \<and> (of_char c :: nat) \<le> 90 then char_of ((of_char c :: nat) + 32) else c)"

text \<open>Comparison without case, character by character, stopping at the first difference.\<close>

fun eq_nocase :: "string \<Rightarrow> nat \<Rightarrow> string \<Rightarrow> bool option" where
  "eq_nocase buf i [] = Some True"
| "eq_nocase buf i (c # cs) = do {
     d \<leftarrow> rd buf i;
     if tolower d = tolower c then eq_nocase buf (Suc i) cs else Some False }"

definition strcasecmp_eq :: "string \<Rightarrow> nat \<Rightarrow> string \<Rightarrow> bool option" where
  "strcasecmp_eq buf i s = eq_nocase buf i (s @ [NUL])"

definition strncasecmp_eq :: "string \<Rightarrow> nat \<Rightarrow> string \<Rightarrow> bool option" where
  "strncasecmp_eq buf i s = eq_nocase buf i s"

section \<open>The parser\<close>

function parse_line :: "string \<Rightarrow> nat \<Rightarrow> nat \<Rightarrow> (LINE_STATUS \<times> string \<times> nat) option" where
  "parse_line buf ci ri =
     (if ci < ri then do {
        temp \<leftarrow> rd buf ci;
        if temp = CR then
          (if ci + 1 = ri then Some (LINE_OPEN, buf, ci)
           else do {
             nx \<leftarrow> rd buf (ci + 1);
             if nx = LF then Some (LINE_OK, buf[ci := NUL, ci + 1 := NUL], ci + 2)
             else Some (LINE_BAD, buf, ci) })
        else if temp = LF then
          (if ci > 1 then do {
             pv \<leftarrow> rd buf (ci - 1);
             if pv = CR then Some (LINE_OK, buf[ci - 1 := NUL, ci := NUL], ci + 1)
             else parse_line buf (ci + 1) ri }
           else parse_line buf (ci + 1) ri)
        else parse_line buf (ci + 1) ri }
      else Some (LINE_OPEN, buf, ci))"
  by pat_completeness auto
termination
  by (relation "measure (\<lambda>(buf, ci, ri). ri - ci)") auto

declare parse_line.simps [simp del]

definition parse_requestline :: "string \<Rightarrow> nat \<Rightarrow> CHECK_STATE \<Rightarrow> (HTTP_CODE \<times> string \<times> CHECK_STATE) option" where
  "parse_requestline buf temp cs = do {
     url \<leftarrow> strpbrk_blank buf temp;
     case url of None \<Rightarrow> Some (BAD_REQUEST, buf, cs)
     | Some url \<Rightarrow> do {
         let buf1 = buf[url := NUL];
         let url = url + 1;
         get \<leftarrow> strcasecmp_eq buf1 temp ''GET'';
         if \<not> get then Some (BAD_REQUEST, buf1, cs)
         else do {
           url \<leftarrow> skip_blank buf1 url;
           version \<leftarrow> strpbrk_blank buf1 url;
           case version of None \<Rightarrow> Some (BAD_REQUEST, buf1, cs)
           | Some version \<Rightarrow> do {
               let buf2 = buf1[version := NUL];
               version \<leftarrow> skip_blank buf2 (version + 1);
               v11 \<leftarrow> strcasecmp_eq buf2 version ''HTTP/1.1'';
               if \<not> v11 then Some (BAD_REQUEST, buf2, cs)
               else do {
                 abs \<leftarrow> strncasecmp_eq buf2 url ''http://'';
                 url \<leftarrow> (if abs then strchr buf2 (url + 7) (CHR ''/'') else Some (Some url));
                 case url of None \<Rightarrow> Some (BAD_REQUEST, buf2, cs)
                 | Some url \<Rightarrow> do {
                     c \<leftarrow> rd buf2 url;
                     if c \<noteq> CHR ''/'' then Some (BAD_REQUEST, buf2, cs)
                     else Some (NO_REQUEST, buf2, CHECK_STATE_HEADER) } } } } } }"

text \<open>The Host branch only prints; it still skips the blanks after the colon.\<close>

definition parse_headers :: "string \<Rightarrow> nat \<Rightarrow> HTTP_CODE option" where
  "parse_headers buf temp = do {
     c \<leftarrow> rd buf temp;
     if c = NUL then Some GET_REQUEST
     else do {
       host \<leftarrow> strncasecmp_eq buf temp ''Host:'';
       if host then do { _ \<leftarrow> skip_blank buf (temp + 5); Some NO_REQUEST }
       else Some NO_REQUEST } }"

lemma parse_line_progress:
  "parse_line buf ci ri = Some (ls, buf', ci') \<Longrightarrow> ci \<le> ri \<Longrightarrow>
     ci \<le> ci' \<and> ci' \<le> ri \<and> length buf' = length buf \<and> (ls = LINE_OK \<longrightarrow> ci < ci')"
proof (induction buf ci ri rule: parse_line.induct)
  case (1 buf ci ri)
  note prem = "1.prems" [unfolded parse_line.simps [of buf ci ri]]
  then show ?case
    using "1.IH" by (fastforce split: if_splits simp: bind_eq_Some_conv)
qed

text \<open>A complete line moves \<^verbatim>\<open>checked_index\<close> on, and it stays below \<^verbatim>\<open>read_index\<close>.\<close>

lemma parse_line_ok_less:
  assumes "parse_line buf ci ri = Some (LINE_OK, buf', ci')"
  shows "ri - ci' < ri - ci"
proof (cases "ci < ri")
  case True
  with parse_line_progress [OF assms] show ?thesis by (auto simp: less_imp_le)
next
  case False
  with assms show ?thesis by (simp add: parse_line.simps)
qed

text \<open>
  The loop of \<^verbatim>\<open>parse_content\<close>: every complete line is interpreted according to the state of the
  main machine. A line that is not complete returns \<open>NO_REQUEST\<close>, with the position kept for the
  next call. The \<^verbatim>\<open>default\<close> branch of the switch cannot be taken: the enumeration has two values.
\<close>

function parse_content :: "parser \<Rightarrow> (HTTP_CODE \<times> parser) option" where
  "parse_content st =
     (case parse_line (p_buffer st) (checked_index st) (read_index st) of
        None \<Rightarrow> None
      | Some (LINE_OPEN, buf, ci) \<Rightarrow> Some (NO_REQUEST, st\<lparr>p_buffer := buf, checked_index := ci\<rparr>)
      | Some (LINE_BAD, buf, ci) \<Rightarrow> Some (BAD_REQUEST, st\<lparr>p_buffer := buf, checked_index := ci\<rparr>)
      | Some (LINE_OK, buf, ci) \<Rightarrow>
          (let temp = start_line st;
               st = st\<lparr>p_buffer := buf, checked_index := ci, start_line := ci\<rparr>
           in case checkstate st of
                CHECK_STATE_REQUESTLINE \<Rightarrow>
                  (case parse_requestline (p_buffer st) temp (checkstate st) of
                     None \<Rightarrow> None
                   | Some (retcode, buf, cs) \<Rightarrow>
                       (let st = st\<lparr>p_buffer := buf, checkstate := cs\<rparr>
                        in if retcode = BAD_REQUEST then Some (BAD_REQUEST, st)
                           else parse_content st))
              | CHECK_STATE_HEADER \<Rightarrow>
                  (case parse_headers (p_buffer st) temp of
                     None \<Rightarrow> None
                   | Some retcode \<Rightarrow>
                       (if retcode = BAD_REQUEST then Some (BAD_REQUEST, st)
                        else if retcode = GET_REQUEST then Some (GET_REQUEST, st)
                        else parse_content st))))"
  by pat_completeness auto

termination
  by (relation "measure (\<lambda>st. read_index st - checked_index st)")
     (auto dest: parse_line_ok_less)

declare parse_content.simps [simp del]

text \<open>One round of the loop, and the induction over the rounds.\<close>

lemma parse_content_open:
  "parse_line (p_buffer st) (checked_index st) (read_index st) = Some (ls, buf, ci) \<Longrightarrow> ls \<noteq> LINE_OK \<Longrightarrow>
   parse_content st = Some (if ls = LINE_OPEN then NO_REQUEST else BAD_REQUEST,
                            st\<lparr>p_buffer := buf, checked_index := ci\<rparr>)"
  by (cases ls) (simp_all add: parse_content.simps [of st])

lemma parse_content_request:
  assumes "parse_line (p_buffer st) (checked_index st) (read_index st) = Some (LINE_OK, buf, ci)"
    and "checkstate st = CHECK_STATE_REQUESTLINE"
  shows "parse_content st = Option.bind (parse_requestline buf (start_line st) CHECK_STATE_REQUESTLINE)
     (\<lambda>(rc, buf', cs). let st' = st\<lparr>p_buffer := buf', checked_index := ci, checkstate := cs, start_line := ci\<rparr>
        in if rc = BAD_REQUEST then Some (BAD_REQUEST, st') else parse_content st')"
  using assms by (subst parse_content.simps, cases st) (auto simp: Let_def split: option.splits bind_splits)

lemma parse_content_header:
  assumes "parse_line (p_buffer st) (checked_index st) (read_index st) = Some (LINE_OK, buf, ci)"
    and "checkstate st = CHECK_STATE_HEADER"
  shows "parse_content st = Option.bind (parse_headers buf (start_line st))
     (\<lambda>rc. let st' = st\<lparr>p_buffer := buf, checked_index := ci, start_line := ci\<rparr>
        in if rc = BAD_REQUEST \<or> rc = GET_REQUEST then Some (rc, st') else parse_content st')"
  using assms by (subst parse_content.simps, cases st) (auto simp: Let_def split: option.splits bind_splits)

lemmas parse_content_round = parse_content_open parse_content_request parse_content_header

lemma parse_content_induct [case_names round]:
  assumes "\<And>st. (\<And>buf ci rc buf' cs.
        parse_line (p_buffer st) (checked_index st) (read_index st) = Some (LINE_OK, buf, ci) \<Longrightarrow>
        parse_requestline buf (start_line st) CHECK_STATE_REQUESTLINE = Some (rc, buf', cs) \<Longrightarrow>
        P (st\<lparr>p_buffer := buf', checked_index := ci, checkstate := cs, start_line := ci\<rparr>)) \<Longrightarrow>
      (\<And>buf ci.
        parse_line (p_buffer st) (checked_index st) (read_index st) = Some (LINE_OK, buf, ci) \<Longrightarrow>
        P (st\<lparr>p_buffer := buf, checked_index := ci, start_line := ci\<rparr>)) \<Longrightarrow> P st"
  shows "P st"
proof (induction "read_index st - checked_index st" arbitrary: st rule: less_induct)
  case less
  show ?case
    by (rule assms) (rule less; simp add: parse_line_ok_less)+
qed

section \<open>Reading beyond the data received so far\<close>

text \<open>
  Each routine that completes on a buffer behaves the same when more characters follow it. As
  failing accesses are values, this one fact carries both the safety and the resumption results.
\<close>

named_theorems more_data \<open>a routine that completes is not affected by characters that follow\<close>

lemma rd_append [more_data]: "rd xs i \<noteq> None \<Longrightarrow> rd (xs @ ys) i = rd xs i"
  by (auto simp: rd_def nth_append split: if_splits)

lemma first_pos_append [more_data]:
  "first_pos P xs i \<noteq> None \<Longrightarrow> first_pos P (xs @ ys) i = first_pos P xs i"
proof (induction P xs i rule: first_pos.induct)
  case (1 P xs i)
  from "1.prems" [unfolded first_pos.simps [of P xs i]] "1.IH" show ?case
    by (simp add: first_pos.simps [of P "xs @ ys" i] first_pos.simps [of P xs i] nth_append
        split: if_splits)
qed

lemma first_pos_bounds: "first_pos P xs i = Some j \<Longrightarrow> i \<le> j \<and> j < length xs \<and> P (xs ! j)"
proof (induction P xs i rule: first_pos.induct)
  case (1 P xs i)
  from "1.prems" [unfolded first_pos.simps [of P xs i]] "1.IH" show ?case
    by (auto split: if_splits)
qed

lemma first_pos_nth_append:
  "first_pos P xs i = Some j \<Longrightarrow> (xs @ ys) ! j = xs ! j"
  by (auto simp: nth_append dest: first_pos_bounds)

lemma eq_nocase_append [more_data]:
  "eq_nocase xs i cs \<noteq> None \<Longrightarrow> eq_nocase (xs @ ys) i cs = eq_nocase xs i cs"
proof (induction cs arbitrary: i)
  case (Cons c cs)
  from Cons.prems obtain d where d: "rd xs i = Some d"
    by (auto simp: bind_eq_None_conv)
  with Cons show ?case by (simp add: more_data split: if_splits)
qed simp

lemma skip_blank_append [more_data]:
  "skip_blank xs i \<noteq> None \<Longrightarrow> skip_blank (xs @ ys) i = skip_blank xs i"
  by (simp add: skip_blank_def more_data)

lemma strpbrk_blank_append [more_data]:
  assumes "strpbrk_blank xs i \<noteq> None"
  shows "strpbrk_blank (xs @ ys) i = strpbrk_blank xs i"
proof -
  from assms obtain j where "first_pos (\<lambda>c. c = NUL \<or> blank c) xs i = Some j"
    by (auto simp: strpbrk_blank_def bind_eq_Some_conv)
  then show ?thesis by (simp add: strpbrk_blank_def more_data first_pos_nth_append)
qed

lemma strchr_append [more_data]:
  assumes "strchr xs i c \<noteq> None"
  shows "strchr (xs @ ys) i c = strchr xs i c"
proof -
  from assms obtain j where "first_pos (\<lambda>d. d = NUL \<or> d = c) xs i = Some j"
    by (auto simp: strchr_def bind_eq_Some_conv)
  then show ?thesis by (simp add: strchr_def more_data first_pos_nth_append)
qed

lemma strpbrk_blank_bound: "strpbrk_blank xs i = Some (Some j) \<Longrightarrow> j < length xs"
  by (auto simp: strpbrk_blank_def bind_eq_Some_conv dest: first_pos_bounds split: if_splits)

lemma strcasecmp_eq_append [more_data]:
  "strcasecmp_eq xs i t \<noteq> None \<Longrightarrow> strcasecmp_eq (xs @ ys) i t = strcasecmp_eq xs i t"
  by (simp add: strcasecmp_eq_def more_data)

lemma strncasecmp_eq_append [more_data]:
  "strncasecmp_eq xs i t \<noteq> None \<Longrightarrow> strncasecmp_eq (xs @ ys) i t = strncasecmp_eq xs i t"
  by (simp add: strncasecmp_eq_def more_data)

lemma option_bind_mono:
  "(\<And>x. m = Some x \<Longrightarrow> m' = Some x) \<Longrightarrow> (\<And>x. m = Some x \<Longrightarrow> k x = Some r \<Longrightarrow> k' x = Some r')
   \<Longrightarrow> Option.bind m k = Some r \<Longrightarrow> Option.bind m' k' = Some r'"
  by (cases m) auto

lemma strpbrk_bind_mono:
  assumes "Option.bind (strpbrk_blank xs i) k = Some r"
    and "k None = Some r \<Longrightarrow> k' None = Some r'"
    and "\<And>j. j < length xs \<Longrightarrow> k (Some j) = Some r \<Longrightarrow> k' (Some j) = Some r'"
  shows "Option.bind (strpbrk_blank (xs @ ys) i) k' = Some r'"
proof -
  from assms(1) obtain x where x: "strpbrk_blank xs i = Some x" "k x = Some r"
    by (auto simp: bind_eq_Some_conv)
  then have "strpbrk_blank (xs @ ys) i = Some x" by (simp add: more_data)
  with x assms(2,3) show ?thesis by (cases x) (auto dest: strpbrk_blank_bound)
qed

lemma parse_requestline_append:
  assumes "parse_requestline xs temp cs = Some (rc, xs', cs')"
  shows "parse_requestline (xs @ ys) temp cs = Some (rc, xs' @ ys, cs')"
  using assms unfolding parse_requestline_def Let_def
  apply -
  apply ((erule strpbrk_bind_mono, simp)
      | (erule option_bind_mono [rotated 2], simp add: more_data list_update_append1 split: if_splits)
      | (simp add: list_update_append1 split: if_splits option.splits)
      | (auto simp add: list_update_append1; fail))+
  done

lemma parse_headers_append:
  assumes "parse_headers xs temp = Some rc"
  shows "parse_headers (xs @ ys) temp = Some rc"
  using assms unfolding parse_headers_def
  by ((elim option_bind_mono [rotated 2], simp add: more_data)
      | simp split: if_splits)+

lemma parse_requestline_length:
  "parse_requestline buf temp cs = Some (rc, buf', cs') \<Longrightarrow> length buf' = length buf"
  by (auto simp: parse_requestline_def bind_eq_Some_conv Let_def split: option.splits if_splits)

text \<open>
  A line that ended, well or badly, ends in the same way when more data is there; a line that is
  still open is continued from the place where the scan stopped.
\<close>

lemma parse_line_append:
  assumes "parse_line xs ci ri = Some (ls, xs', ci')" and "ri \<le> length xs" and "ri \<le> rj"
  shows "if ls = LINE_OPEN then xs' = xs \<and> parse_line (xs @ ys) ci' rj = parse_line (xs @ ys) ci rj
         else parse_line (xs @ ys) ci rj = Some (ls, xs' @ ys, ci')"
  using assms
proof (induction xs ci ri rule: parse_line.induct)
  case (1 xs ci ri)
  note prem = "1.prems"(1) [unfolded parse_line.simps [of xs ci ri]]
  note step = parse_line.simps [of "xs @ ys" ci rj]
  show ?case
  proof (cases "ci < ri")
    case False
    with prem show ?thesis by simp
  next
    case True
    with "1.prems"(2,3) have ci: "ci < length xs" "ci < rj" by auto
    have eq: "xs ! ci \<noteq> CR \<Longrightarrow> xs ! ci \<noteq> LF \<Longrightarrow> parse_line (xs @ ys) ci rj = parse_line (xs @ ys) (ci + 1) rj"
      "xs ! ci = LF \<Longrightarrow> \<not> (ci > 1 \<and> xs ! (ci - 1) = CR) \<Longrightarrow> parse_line (xs @ ys) ci rj = parse_line (xs @ ys) (ci + 1) rj"
      using ci by (auto simp: step rd_def nth_append)
    consider (cr) "xs ! ci = CR" | (lf) "xs ! ci = LF" "ci > 1" "xs ! (ci - 1) = CR"
      | (go) "xs ! ci \<noteq> CR" "\<not> (xs ! ci = LF \<and> ci > 1 \<and> xs ! (ci - 1) = CR)" by blast
    then show ?thesis
    proof cases
      case cr
      show ?thesis
      proof (cases "ci + 1 = ri")
        case True
        with cr prem ci \<open>ci < ri\<close> show ?thesis by (simp add: rd_def)
      next
        case False
        with \<open>ci < ri\<close> "1.prems"(2,3) have "ci + 1 < length xs" "ci + 1 < rj" by auto
        with False cr prem ci \<open>ci < ri\<close> show ?thesis
          by (auto simp: step rd_def nth_append list_update_append1 split: if_splits)
      qed
    next
      case lf
      with prem ci \<open>ci < ri\<close> show ?thesis
        by (auto simp: step rd_def nth_append list_update_append1)
    next
      case go
      with prem ci \<open>ci < ri\<close> have rec: "parse_line xs (ci + 1) ri = Some (ls, xs', ci')"
        by (auto simp: rd_def split: if_splits)
      from go eq have "parse_line (xs @ ys) ci rj = parse_line (xs @ ys) (ci + 1) rj" by blast
      moreover have "if ls = LINE_OPEN then xs' = xs \<and> parse_line (xs @ ys) ci' rj = parse_line (xs @ ys) (ci + 1) rj
         else parse_line (xs @ ys) (ci + 1) rj = Some (ls, xs' @ ys, ci')"
      proof (cases "xs ! ci = LF \<and> ci > 1")
        case True
        with go ci \<open>ci < ri\<close> show ?thesis
          by (intro "1.IH"(1) rec "1.prems"(2,3)) (auto simp: rd_def)
      next
        case False
        with go ci \<open>ci < ri\<close> show ?thesis
          by (cases "xs ! ci = LF")
             (rule "1.IH"(2) [OF _ _ _ _ _ rec "1.prems"(2,3)] "1.IH"(3) [OF _ _ _ _ rec "1.prems"(2,3)];
              auto simp: rd_def)+
      qed
      ultimately show ?thesis by (simp split: if_splits)
    qed
  qed
qed

section \<open>Memory safety\<close>

text \<open>
  Every access of the parser stays inside the line it was given: the line ends in the NUL that
  \<open>parse_line\<close> wrote over the line end.
\<close>

definition ends_by :: "string \<Rightarrow> nat \<Rightarrow> bool" where
  "ends_by buf e \<longleftrightarrow> e < length buf \<and> buf ! e = NUL"

lemma ends_by_update [simp]: "ends_by buf e \<Longrightarrow> ends_by (buf[i := NUL]) e"
  by (cases "i = e") (auto simp: ends_by_def)

lemma first_pos_total:
  assumes "i \<le> e" and "e < length xs" and "P (xs ! e)"
  shows "\<exists>j. first_pos P xs i = Some j \<and> i \<le> j \<and> j \<le> e"
  using assms
proof (induction P xs i rule: first_pos.induct)
  case (1 P xs i)
  show ?case
  proof (cases "P (xs ! i)")
    case True
    with "1.prems" show ?thesis by (simp add: first_pos.simps [of P xs i])
  next
    case False
    with "1.prems" have "i \<noteq> e" by auto
    with "1.prems" "1.IH" False obtain j where "first_pos P xs (Suc i) = Some j" "Suc i \<le> j" "j \<le> e"
      by fastforce
    with False "1.prems" show ?thesis by (simp add: first_pos.simps [of P xs i])
  qed
qed

lemma tolower_NUL [simp]: "tolower NUL = NUL"
  by (simp add: tolower_def)

lemma tolower_eq_NUL [simp]: "tolower c = NUL \<longleftrightarrow> c = NUL"
proof -
  have "char_of ((of_char c :: nat) + 32) \<noteq> NUL" if "(of_char c :: nat) \<le> 90"
  proof
    assume "char_of ((of_char c :: nat) + 32) = NUL"
    then have "(of_char (char_of ((of_char c :: nat) + 32)) :: nat) = 0" by simp
    with that show False by simp
  qed
  then show ?thesis by (auto simp: tolower_def)
qed

lemma eq_nocase_total:
  assumes "ends_by xs e" and "i \<le> e" and "NUL \<notin> set (butlast cs)"
  shows "\<exists>b. eq_nocase xs i cs = Some b"
  using assms(2,3)
proof (induction cs arbitrary: i)
  case (Cons c cs)
  with assms(1) have d: "rd xs i = Some (xs ! i)" by (simp add: rd_def ends_by_def)
  show ?case
  proof (cases "i = e")
    case True
    with assms(1) d Cons.prems show ?thesis
      by (cases cs) (auto simp: ends_by_def eq_commute [of NUL])
  next
    case False
    with Cons.prems have "Suc i \<le> e" "NUL \<notin> set (butlast cs)" by (auto split: if_splits)
    with Cons.IH d show ?thesis by (auto split: if_splits)
  qed
qed auto

lemma eq_nocase_inside:
  assumes "ends_by xs e" and "i \<le> e" and "NUL \<notin> set cs" and "eq_nocase xs i cs = Some True"
  shows "i + length cs \<le> e"
  using assms(2-)
proof (induction cs arbitrary: i)
  case (Cons c cs)
  then have c: "rd xs i = Some (xs ! i)" "tolower (xs ! i) = tolower c" "eq_nocase xs (Suc i) cs = Some True"
    by (auto simp: bind_eq_Some_conv rd_def split: if_splits)
  with Cons.prems have "xs ! i \<noteq> NUL" by auto (metis tolower_NUL tolower_eq_NUL)
  with assms(1) Cons.prems have "Suc i \<le> e" by (cases "i = e") (auto simp: ends_by_def)
  with Cons.IH Cons.prems c show ?case by fastforce
qed simp

lemma strpbrk_blank_total:
  assumes "ends_by xs e" and "i \<le> e"
  shows "\<exists>r. strpbrk_blank xs i = Some r \<and> (\<forall>j. r = Some j \<longrightarrow> i \<le> j \<and> j < e)"
proof -
  obtain j where j: "first_pos (\<lambda>c. c = NUL \<or> blank c) xs i = Some j" "i \<le> j" "j \<le> e"
    using first_pos_total [OF assms(2), of xs "\<lambda>c. c = NUL \<or> blank c"] assms(1)
    by (auto simp: ends_by_def)
  with assms(1) have "xs ! j \<noteq> NUL \<longrightarrow> j < e" by (cases "j = e") (auto simp: ends_by_def)
  with j show ?thesis by (auto simp: strpbrk_blank_def)
qed

lemma skip_blank_total:
  assumes "ends_by xs e" and "i \<le> e"
  shows "\<exists>j. skip_blank xs i = Some j \<and> i \<le> j \<and> j \<le> e"
  using first_pos_total [OF assms(2), of xs "\<lambda>c. \<not> blank c"] assms(1)
  by (auto simp: skip_blank_def ends_by_def blank_def)

lemma strchr_total:
  assumes "ends_by xs e" and "i \<le> e"
  shows "\<exists>r. strchr xs i c = Some r \<and> (\<forall>j. r = Some j \<longrightarrow> j \<le> e)"
proof -
  obtain j where "first_pos (\<lambda>d. d = NUL \<or> d = c) xs i = Some j" "i \<le> j" "j \<le> e"
    using first_pos_total [OF assms(2), of xs "\<lambda>d. d = NUL \<or> d = c"] assms(1)
    by (auto simp: ends_by_def)
  then show ?thesis by (auto simp: strchr_def)
qed

lemma rd_total: "ends_by xs e \<Longrightarrow> i \<le> e \<Longrightarrow> \<exists>c. rd xs i = Some c"
  by (simp add: rd_def ends_by_def)

lemma strcasecmp_eq_total:
  "ends_by xs e \<Longrightarrow> i \<le> e \<Longrightarrow> NUL \<notin> set t \<Longrightarrow> \<exists>b. strcasecmp_eq xs i t = Some b"
  by (simp add: strcasecmp_eq_def eq_nocase_total)

lemma strncasecmp_eq_total:
  assumes "ends_by xs e" and "i \<le> e" and "NUL \<notin> set t"
  shows "\<exists>b. strncasecmp_eq xs i t = Some b \<and> (b \<longrightarrow> i + length t \<le> e)"
proof -
  have "NUL \<notin> set (butlast t)" using assms(3) by (auto dest: in_set_butlastD)
  then show ?thesis
    using eq_nocase_total [OF assms(1,2)] eq_nocase_inside [OF assms]
    by (fastforce simp: strncasecmp_eq_def)
qed

lemma bind_total:
  "\<exists>x. m = Some x \<and> Q x \<Longrightarrow> (\<And>x. Q x \<Longrightarrow> \<exists>r. k x = Some r) \<Longrightarrow> \<exists>r. Option.bind m k = Some r"
  by auto

lemma parse_requestline_total:
  assumes "ends_by buf e" and "temp \<le> e"
  shows "\<exists>r. parse_requestline buf temp cs = Some r"
proof -
  obtain url where url: "strpbrk_blank buf temp = Some url" "\<And>j. url = Some j \<Longrightarrow> temp \<le> j \<and> j < e"
    using strpbrk_blank_total [OF assms] by blast
  show ?thesis
  proof (cases url)
    case None
    with url show ?thesis by (simp add: parse_requestline_def)
  next
    case (Some j)
    define b1 where "b1 = buf[j := NUL]"
    from Some url assms have j: "temp \<le> j" "j < e" and b1: "ends_by b1 e"
      by (auto simp: b1_def)
    obtain g where g: "strcasecmp_eq b1 temp ''GET'' = Some g"
      using strcasecmp_eq_total [OF b1 assms(2), of "''GET''"] by auto
    obtain u where u: "skip_blank b1 (j + 1) = Some u" "u \<le> e"
      using skip_blank_total [OF b1, of "j + 1"] j by auto
    obtain v where v: "strpbrk_blank b1 u = Some v" "\<And>k. v = Some k \<Longrightarrow> u \<le> k \<and> k < e"
      using strpbrk_blank_total [OF b1 u(2)] by blast
    note first = Some url(1) g u(1) v(1)
    show ?thesis
    proof (cases v)
      case None
      with first show ?thesis by (simp add: parse_requestline_def b1_def Let_def)
    next
      case (Some k)
      define b2 where "b2 = b1[k := NUL]"
      from Some v b1 have k: "u \<le> k" "k < e" and b2: "ends_by b2 e"
        by (auto simp: b2_def)
      have b2k: "ends_by b2 k" using b1 k by (simp add: b2_def ends_by_def)
      obtain w where w: "skip_blank b2 (k + 1) = Some w" "w \<le> e"
        using skip_blank_total [OF b2, of "k + 1"] k by auto
      obtain h where h: "strcasecmp_eq b2 w ''HTTP/1.1'' = Some h"
        using strcasecmp_eq_total [OF b2 w(2), of "''HTTP/1.1''"] by auto
      obtain a where a: "strncasecmp_eq b2 u ''http://'' = Some a" "a \<longrightarrow> u + 7 \<le> k"
        using strncasecmp_eq_total [OF b2k k(1), of "''http://''"] by auto
      obtain q where q: "(if a then strchr b2 (u + 7) (CHR ''/'') else Some (Some u)) = Some q"
        and qk: "\<forall>i. q = Some i \<longrightarrow> i \<le> k"
        using strchr_total [OF b2k, of "u + 7" "CHR ''/''"] a k by (cases a) auto
      have "\<forall>i. q = Some i \<longrightarrow> (\<exists>c. rd b2 i = Some c)"
        using rd_total [OF b2k] qk by blast
      with first Some w(1) h a(1) q show ?thesis
        by (cases q) (auto simp: parse_requestline_def Let_def b1_def [symmetric] b2_def [symmetric])
    qed
  qed
qed

lemma parse_headers_total:
  assumes "ends_by buf e" and "temp \<le> e"
  shows "\<exists>r. parse_headers buf temp = Some r"
proof -
  obtain c where c: "rd buf temp = Some c" using rd_total [OF assms] by blast
  obtain h where h: "strncasecmp_eq buf temp ''Host:'' = Some h" "h \<longrightarrow> temp + 5 \<le> e"
    using strncasecmp_eq_total [OF assms, of "''Host:''"] by auto
  have "h \<longrightarrow> (\<exists>j. skip_blank buf (temp + 5) = Some j)"
    using h skip_blank_total [OF assms(1), of "temp + 5"] by blast
  with c h show ?thesis by (auto simp: parse_headers_def)
qed

lemma parse_line_total:
  "ri \<le> length buf \<Longrightarrow> \<exists>r. parse_line buf ci ri = Some r"
proof (induction buf ci ri rule: parse_line.induct)
  case (1 buf ci ri)
  show ?case
  proof (cases "ci < ri")
    case False
    then show ?thesis by (simp add: parse_line.simps)
  next
    case True
    with "1.prems" have rd: "rd buf ci = Some (buf ! ci)" "rd buf (ci - 1) = Some (buf ! (ci - 1))"
      by (auto simp: rd_def)
    with True "1.IH" "1.prems" show ?thesis
      by (cases "buf ! ci = CR"; cases "buf ! ci = LF"; cases "1 < ci"; cases "buf ! (ci - 1) = CR")
         (simp_all add: parse_line.simps [of buf ci ri] rd_def)
  qed
qed

lemma parse_line_ends:
  assumes "parse_line buf ci ri = Some (LINE_OK, buf', ci')" and "ri \<le> length buf"
  shows "ends_by buf' (ci' - 1)"
  using assms
proof (induction buf ci ri rule: parse_line.induct)
  case (1 buf ci ri)
  note prem = "1.prems"(1) [unfolded parse_line.simps [of buf ci ri]]
  with "1.prems"(2) "1.IH" show ?case
    by (fastforce simp: rd_def ends_by_def nth_list_update bind_eq_Some_conv split: if_splits)
qed

text \<open>The invariant of the parser: the three positions are ordered and stay inside the buffer.\<close>

definition parser_ok :: "parser \<Rightarrow> bool" where
  "parser_ok st \<longleftrightarrow> start_line st \<le> checked_index st \<and> checked_index st \<le> read_index st
     \<and> read_index st \<le> length (p_buffer st)"

lemma parse_content_safe:
  assumes "parser_ok st"
  shows "\<exists>rc st'. parse_content st = Some (rc, st') \<and> parser_ok st' \<and> read_index st' = read_index st
           \<and> length (p_buffer st') = length (p_buffer st) \<and> rc \<in> {NO_REQUEST, GET_REQUEST, BAD_REQUEST}"
  using assms
proof (induction st rule: parse_content.induct)
  case (1 st)
  from "1.prems" have ok: "start_line st \<le> checked_index st" "checked_index st \<le> read_index st"
    "read_index st \<le> length (p_buffer st)" by (simp_all add: parser_ok_def)
  obtain ls buf ci where pl: "parse_line (p_buffer st) (checked_index st) (read_index st) = Some (ls, buf, ci)"
    using parse_line_total [OF ok(3)] by (metis prod_cases3)
  note prog = parse_line_progress [OF pl ok(2)]
  show ?case
  proof (cases ls)
    case LINE_OK
    with pl ok have ends: "ends_by buf (ci - 1)" by (blast intro: parse_line_ends)
    from LINE_OK prog ok have le: "start_line st \<le> ci - 1" by auto
    let ?st = "st\<lparr>p_buffer := buf, checked_index := ci, start_line := ci\<rparr>"
    show ?thesis
    proof (cases "checkstate st")
      case CHECK_STATE_REQUESTLINE
      obtain rc buf' cs where prl: "parse_requestline buf (start_line st) (checkstate st) = Some (rc, buf', cs)"
        using parse_requestline_total [OF ends le] by (metis prod_cases3)
      have "parser_ok (?st\<lparr>p_buffer := buf', checkstate := cs\<rparr>)" "length buf' = length (p_buffer st)"
        using prog ok parse_requestline_length [OF prl] by (simp_all add: parser_ok_def)
      with "1.IH"(1) [OF pl refl LINE_OK refl refl refl] pl prl LINE_OK CHECK_STATE_REQUESTLINE show ?thesis
        by (auto simp: parse_content.simps [of st] Let_def)
    next
      case CHECK_STATE_HEADER
      obtain rc where ph: "parse_headers buf (start_line st) = Some rc"
        using parse_headers_total [OF ends le] by blast
      have "parser_ok ?st" "length buf = length (p_buffer st)"
        using prog ok by (simp_all add: parser_ok_def)
      with "1.IH"(2) [OF pl refl LINE_OK refl refl refl] pl ph LINE_OK CHECK_STATE_HEADER show ?thesis
        by (auto simp: parse_content.simps [of st] Let_def)
    qed
  next
    case LINE_BAD
    with pl prog ok show ?thesis by (simp add: parse_content.simps [of st] parser_ok_def)
  next
    case LINE_OPEN
    with pl prog ok show ?thesis by (simp add: parse_content.simps [of st] parser_ok_def)
  qed
qed

section \<open>Resuming after incomplete data\<close>

lemma parse_line_length: "parse_line buf ci ri = Some (ls, buf', ci') \<Longrightarrow> length buf' = length buf"
  using parse_line_progress [of buf ci ri ls buf' ci'] by (cases "ci \<le> ri") (auto simp: parse_line.simps)

lemma parse_content_again:
  "parse_line (p_buffer st) ci (read_index st) = parse_line (p_buffer st) (checked_index st) (read_index st)
   \<Longrightarrow> parse_content (st\<lparr>checked_index := ci\<rparr>) = parse_content st"
  by (subst (1 2) parse_content.simps, cases st) (auto simp: Let_def split: option.splits LINE_STATUS.splits)

text \<open>The state after more characters have arrived behind the ones there are.\<close>

definition widen :: "string \<Rightarrow> nat \<Rightarrow> parser \<Rightarrow> parser" where
  "widen ys rj st = st\<lparr>p_buffer := p_buffer st @ ys, read_index := rj\<rparr>"

lemma widen_sel [simp]:
  "p_buffer (widen ys rj st) = p_buffer st @ ys" "read_index (widen ys rj st) = rj"
  "checked_index (widen ys rj st) = checked_index st" "start_line (widen ys rj st) = start_line st"
  "checkstate (widen ys rj st) = checkstate st"
  by (simp_all add: widen_def)

lemma widen_update:
  "(widen ys rj st)\<lparr>p_buffer := b @ ys\<rparr> = widen ys rj (st\<lparr>p_buffer := b\<rparr>)"
  "(widen ys rj st)\<lparr>checked_index := c\<rparr> = widen ys rj (st\<lparr>checked_index := c\<rparr>)"
  "(widen ys rj st)\<lparr>checkstate := s\<rparr> = widen ys rj (st\<lparr>checkstate := s\<rparr>)"
  "(widen ys rj st)\<lparr>start_line := l\<rparr> = widen ys rj (st\<lparr>start_line := l\<rparr>)"
  by (cases st; simp add: widen_def)+

lemma parse_content_widen:
  assumes "parse_content st = Some (rc, st')" and "read_index st \<le> length (p_buffer st)" and "read_index st \<le> rj"
  shows "parse_content (widen ys rj st) =
     (if rc = NO_REQUEST then parse_content (widen ys rj st') else Some (rc, widen ys rj st'))"
  using assms
proof (induction st rule: parse_content_induct)
  case (round st)
  obtain ls buf ci where pl: "parse_line (p_buffer st) (checked_index st) (read_index st) = Some (ls, buf, ci)"
    using parse_line_total [OF round.prems(2)] by (metis prod_cases3)
  note more = parse_line_append [OF pl round.prems(2,3), of ys]
  have len: "length buf = length (p_buffer st)" by (rule parse_line_length [OF pl])
  show ?case
  proof (cases "ls = LINE_OK")
    case False
    with parse_content_open [OF pl] round.prems(1) more show ?thesis
      using parse_content_again [of "widen ys rj st" ci]
      by (cases "ls = LINE_OPEN") (auto simp: parse_content_open widen_update)
  next
    case True
    note pl' = pl [unfolded True]
    have pw: "parse_line (p_buffer (widen ys rj st)) (checked_index (widen ys rj st)) (read_index (widen ys rj st))
      = Some (LINE_OK, buf @ ys, ci)" using more True by simp
    show ?thesis
    proof (cases "checkstate st")
      case CHECK_STATE_REQUESTLINE
      with round.prems(1) obtain r buf' cs where
        prl: "parse_requestline buf (start_line st) CHECK_STATE_REQUESTLINE = Some (r, buf', cs)"
        by (auto simp: parse_content_request [OF pl'] bind_eq_Some_conv)
      from round.prems round.IH(1) [OF pl' prl] CHECK_STATE_REQUESTLINE len prl
        parse_requestline_append [OF prl, of ys] parse_requestline_length [OF prl]
      show ?thesis
        by (auto simp: parse_content_request [OF pl'] parse_content_request [OF pw] Let_def widen_update split: if_splits)
    next
      case CHECK_STATE_HEADER
      with round.prems(1) obtain r where ph: "parse_headers buf (start_line st) = Some r"
        by (auto simp: parse_content_header [OF pl'] bind_eq_Some_conv)
      from round.prems round.IH(2) [OF pl'] CHECK_STATE_HEADER len ph parse_headers_append [OF ph, of ys]
      show ?thesis
        by (auto simp: parse_content_header [OF pl'] parse_content_header [OF pw] Let_def widen_update split: if_splits)
    qed
  qed
qed

text \<open>Where an incomplete parse has stopped: at the end of the data or at a final carriage return.\<close>

definition stopped :: "string \<Rightarrow> nat \<Rightarrow> nat \<Rightarrow> bool" where
  "stopped buf ci ri \<longleftrightarrow> ri \<le> ci \<or> (ci + 1 = ri \<and> ci < length buf \<and> buf ! ci = CR)"

lemma parse_line_stopped: "stopped buf ci ri \<Longrightarrow> parse_line buf ci ri = Some (LINE_OPEN, buf, ci)"
  by (auto simp: stopped_def parse_line.simps [of buf ci ri] rd_def)

lemma parse_line_stops:
  "parse_line buf ci ri = Some (LINE_OPEN, buf', ci') \<Longrightarrow> buf' = buf \<and> stopped buf ci' ri"
proof (induction buf ci ri rule: parse_line.induct)
  case (1 buf ci ri)
  note prem = "1.prems" [unfolded parse_line.simps [of buf ci ri]]
  show ?case
  proof (cases "ci < ri")
    case False
    with prem show ?thesis by (simp add: stopped_def)
  next
    case True
    with prem have rd: "rd buf ci = Some (buf ! ci)" "ci < length buf" by (auto simp: rd_def split: if_splits)
    show ?thesis
    proof (cases "buf ! ci = CR")
      case True
      with prem rd \<open>ci < ri\<close> show ?thesis by (auto simp: stopped_def bind_eq_Some_conv split: if_splits)
    next
      case False
      with prem rd \<open>ci < ri\<close> have "parse_line buf (ci + 1) ri = Some (LINE_OPEN, buf', ci')"
        by (auto simp: bind_eq_Some_conv split: if_splits)
      moreover have "\<not> (buf ! ci = LF \<and> ci > 1 \<and> buf ! (ci - 1) = CR)"
        using prem rd False \<open>ci < ri\<close> by (auto simp: rd_def split: if_splits)
      moreover have "rd buf (ci - 1) = Some (buf ! (ci - 1))" using rd by (simp add: rd_def)
      ultimately show ?thesis using False rd \<open>ci < ri\<close>
        "1.IH"(1) [OF \<open>ci < ri\<close> rd(1)] "1.IH"(2,3) [OF \<open>ci < ri\<close> rd(1)]
        by (cases "buf ! ci = LF"; cases "ci > 1") auto
    qed
  qed
qed

lemma parse_content_stops:
  "parse_content st = Some (rc, st') \<Longrightarrow>
     read_index st' = read_index st \<and>
     (rc = NO_REQUEST \<longrightarrow> stopped (p_buffer st') (checked_index st') (read_index st'))"
proof (induction st rule: parse_content_induct)
  case (round st)
  from round.prems obtain ls buf ci where
    pl: "parse_line (p_buffer st) (checked_index st) (read_index st) = Some (ls, buf, ci)"
    by (auto simp: parse_content.simps [of st] split: option.splits)
  show ?case
  proof (cases "ls = LINE_OK")
    case False
    with pl round.prems parse_line_stops [of "p_buffer st" "checked_index st" "read_index st"] show ?thesis
      by (cases "ls = LINE_OPEN") (auto simp: parse_content_open)
  next
    case True
    note pl' = pl [unfolded True]
    from round.prems round.IH [OF pl'] show ?thesis
      by (cases "checkstate st")
         (auto simp: parse_content_request [OF pl'] parse_content_header [OF pl'] bind_eq_Some_conv Let_def
          split: if_splits)
  qed
qed

lemma parse_content_stopped:
  "stopped (p_buffer st) (checked_index st) (read_index st) \<Longrightarrow> parse_content st = Some (NO_REQUEST, st)"
  by (simp add: parse_content.simps [of st] parse_line_stopped)

text \<open>What lies behind the data received so far does not matter.\<close>

lemma parse_content_behind:
  assumes "parse_content st = Some (rc, st')" and "read_index st \<le> length (p_buffer st)"
  shows "parse_content (st\<lparr>p_buffer := p_buffer st @ ys\<rparr>) = Some (rc, st'\<lparr>p_buffer := p_buffer st' @ ys\<rparr>)"
proof -
  have eq: "widen ys (read_index st) st = st\<lparr>p_buffer := p_buffer st @ ys\<rparr>" by (simp add: widen_def)
  have w: "parse_content (widen ys (read_index st) st) =
     (if rc = NO_REQUEST then parse_content (widen ys (read_index st) st') else Some (rc, widen ys (read_index st) st'))"
    by (rule parse_content_widen [OF assms]) simp
  have ri: "read_index st' = read_index st" using assms(1) by (simp add: parse_content_stops)
  show ?thesis
  proof (cases "rc = NO_REQUEST")
    case True
    with assms(1) parse_content_stops have "stopped (p_buffer st') (checked_index st') (read_index st')" by blast
    then have "stopped (p_buffer st' @ ys) (checked_index st') (read_index st')"
      by (auto simp: stopped_def nth_append)
    with True w ri show ?thesis using parse_content_stopped [of "widen ys (read_index st) st'"]
      unfolding eq [symmetric] by (simp add: widen_def)
  next
    case False
    with w ri show ?thesis unfolding eq [symmetric] by (simp add: widen_def)
  qed
qed

section \<open>The receiving loop\<close>

text \<open>
  The connection delivers events: characters, or a failure of \<^verbatim>\<open>recv\<close>; after the last event the
  peer has closed. \<^verbatim>\<open>recv\<close> returns at most as many characters as there is room for and leaves
  the rest for the next call; it returns 0 for a closed connection or an empty room.
\<close>

datatype recv_event = Chunk string | Recv_error

fun recv :: "nat \<Rightarrow> recv_event list \<Rightarrow> string option \<times> recv_event list" where
  "recv n [] = (Some [], [])"
| "recv 0 es = (Some [], es)"
| "recv n (Recv_error # es) = (None, es)"
| "recv n (Chunk c # es) = (Some (take n c), if length c \<le> n then es else Chunk (drop n c) # es)"

definition szret :: "string list" where
  "szret = [''I get a correct result'' @ [LF], ''Something wrong'' @ [LF]]"

datatype served = Reading_failed | Remote_closed | Replied string

definition recv_into :: "string \<Rightarrow> parser \<Rightarrow> parser option" where
  "recv_into d st = (if read_index st + length d \<le> length (p_buffer st)
     then Some (st\<lparr>p_buffer := splice (p_buffer st) (read_index st) d, read_index := read_index st + length d\<rparr>)
     else None)"

definition parser_init :: parser where
  "parser_init = \<lparr>p_buffer = replicate BUFFER_SIZE NUL, checked_index = 0,
     checkstate = CHECK_STATE_REQUESTLINE, read_index = 0, start_line = 0\<rparr>"

lemma recv_length: "recv n es = (Some d, es') \<Longrightarrow> length d \<le> n"
  by (cases "(n, es)" rule: recv.cases) auto

function serve :: "recv_event list \<Rightarrow> parser \<Rightarrow> served option" where
  "serve es st =
     (case recv (BUFFER_SIZE - read_index st) es of
        (None, es) \<Rightarrow> Some Reading_failed
      | (Some data, es) \<Rightarrow>
          (if data = [] then Some Remote_closed
           else case recv_into data st of None \<Rightarrow> None
           | Some st \<Rightarrow>
               (case parse_content st of None \<Rightarrow> None
                | Some (result, st) \<Rightarrow>
                    (if result = NO_REQUEST then serve es st
                     else if result = GET_REQUEST then Some (Replied (szret ! 0))
                     else Some (Replied (szret ! 1))))))"
  by pat_completeness auto

termination
proof (relation "measure (\<lambda>(es, st). BUFFER_SIZE - read_index st)", goal_cases)
  case (2 es st x y d st1 x2a result st2)
  then have "length d \<le> BUFFER_SIZE - read_index st" using recv_length [of "BUFFER_SIZE - read_index st" es d y] by simp
  moreover from 2 have "read_index st2 = read_index st + length d"
    using parse_content_stops [of st1 result st2] by (auto simp: recv_into_def split: if_splits)
  ultimately show ?case using 2 by (cases d) auto
qed simp

declare serve.simps [simp del]

text \<open>
  \<^verbatim>\<open>main\<close>. The results of \<^verbatim>\<open>socket\<close>, \<^verbatim>\<open>bind\<close>, \<^verbatim>\<open>listen\<close> and \<^verbatim>\<open>accept\<close> are arguments; a failed \<^verbatim>\<open>assert\<close>
  aborts. The calls on the two descriptors are recorded in their order.
\<close>

datatype fd_call = Sent string | Closed_fd | Closed_listenfd

datatype exit_status = Exit int | Aborted

definition http_main :: "nat \<Rightarrow> int \<Rightarrow> int \<Rightarrow> int \<Rightarrow> int \<Rightarrow> recv_event list \<Rightarrow> (exit_status \<times> fd_call list) option" where
  "http_main argc listenfd bind_ret listen_ret fd es =
     (if argc \<le> 2 then Some (Exit 1, [])
      else if \<not> listenfd \<ge> 0 then Some (Aborted, [])
      else if bind_ret = -1 then Some (Aborted, [])
      else if listen_ret = -1 then Some (Aborted, [])
      else if fd < 0 then Some (Exit 0, [Closed_listenfd])
      else do {
        r \<leftarrow> serve es parser_init;
        let sent = (case r of Replied s \<Rightarrow> [Sent s] | _ \<Rightarrow> []);
        Some (Exit 0, sent @ [Closed_fd, Closed_listenfd]) })"

section \<open>How the data is cut does not matter\<close>

definition feed :: "string \<Rightarrow> parser \<Rightarrow> parser" where
  "feed d st = st\<lparr>p_buffer := splice (p_buffer st) (read_index st) d, read_index := read_index st + length d\<rparr>"

abbreviation room :: "parser \<Rightarrow> nat" where
  "room st \<equiv> length (p_buffer st) - read_index st"

lemma feed_sel [simp]:
  "read_index (feed d st) = read_index st + length d" "checked_index (feed d st) = checked_index st"
  "start_line (feed d st) = start_line st" "checkstate (feed d st) = checkstate st"
  "p_buffer (feed d st) = splice (p_buffer st) (read_index st) d"
  by (simp_all add: feed_def)

lemma parser_ok_le: "parser_ok st \<Longrightarrow> length d \<le> room st \<Longrightarrow> read_index st + length d \<le> length (p_buffer st)"
  by (auto simp: parser_ok_def)

lemma feed_ok:
  assumes "parser_ok st" and "length d \<le> room st"
  shows "parser_ok (feed d st)" and "recv_into d st = Some (feed d st)"
    and "length (p_buffer (feed d st)) = length (p_buffer st)"
  using assms parser_ok_le [OF assms] by (auto simp: parser_ok_def recv_into_def feed_def)

lemma splice_splice:
  "i + length a + length b \<le> length xs \<Longrightarrow> splice (splice xs i a) (i + length a) b = splice xs i (a @ b)"
  by (simp add: splice_def ac_simps)

lemma feed_append:
  "parser_ok st \<Longrightarrow> length a + length b \<le> room st \<Longrightarrow> feed b (feed a st) = feed (a @ b) st"
  using splice_splice [of "read_index st" a b "p_buffer st"]
  by (cases st) (auto simp: feed_def parser_ok_def)

lemma feed_Nil [simp]: "feed [] st = st"
  by (simp add: feed_def)

text \<open>A state is its received data with the rest of the buffer behind it.\<close>

lemma feed_widen:
  assumes "parser_ok st" and "length d \<le> room st"
  shows "feed d st = widen (d @ drop (read_index st + length d) (p_buffer st)) (read_index st + length d)
           (st\<lparr>p_buffer := take (read_index st) (p_buffer st)\<rparr>)"
  by (simp add: feed_def widen_def splice_def)

lemma parse_content_trim:
  assumes "parser_ok st" and "parse_content st = Some (rc, st')"
  shows "parse_content (st\<lparr>p_buffer := take (read_index st) (p_buffer st)\<rparr>)
           = Some (rc, st'\<lparr>p_buffer := take (read_index st) (p_buffer st')\<rparr>)"
    and "drop (read_index st) (p_buffer st') = drop (read_index st) (p_buffer st)"
proof -
  let ?t = "st\<lparr>p_buffer := take (read_index st) (p_buffer st)\<rparr>"
  have "parser_ok ?t" and len: "length (p_buffer ?t) = read_index st"
    using assms(1) by (simp_all add: parser_ok_def)
  then obtain rc0 t' where t: "parse_content ?t = Some (rc0, t')" "length (p_buffer t') = read_index st"
    using parse_content_safe by fastforce
  have "parse_content st = Some (rc0, t'\<lparr>p_buffer := p_buffer t' @ drop (read_index st) (p_buffer st)\<rparr>)"
    using parse_content_behind [OF t(1), of "drop (read_index st) (p_buffer st)"] len by simp
  with assms(2) t show "parse_content ?t = Some (rc, st'\<lparr>p_buffer := take (read_index st) (p_buffer st')\<rparr>)"
    and "drop (read_index st) (p_buffer st') = drop (read_index st) (p_buffer st)"
    by auto
qed

lemma parse_content_feed:
  assumes "parser_ok st" and "parse_content st = Some (rc, st')" and "length d \<le> room st"
  shows "parse_content (feed d st) = (if rc = NO_REQUEST then parse_content (feed d st') else Some (rc, feed d st'))"
proof -
  let ?r = "read_index st"
  have st': "parser_ok st'" "read_index st' = ?r" "length (p_buffer st') = length (p_buffer st)"
    using parse_content_safe [OF assms(1)] assms(2) by auto
  note trim = parse_content_trim [OF assms(1,2)]
  have drop_eq: "drop (?r + length d) (p_buffer st') = drop (?r + length d) (p_buffer st)"
    using arg_cong [OF trim(2), of "drop (length d)"] by (simp add: add.commute)
  have "parse_content (feed d st) = (if rc = NO_REQUEST
     then parse_content (widen (d @ drop (?r + length d) (p_buffer st)) (?r + length d) (st'\<lparr>p_buffer := take ?r (p_buffer st')\<rparr>))
     else Some (rc, widen (d @ drop (?r + length d) (p_buffer st)) (?r + length d) (st'\<lparr>p_buffer := take ?r (p_buffer st')\<rparr>)))"
    unfolding feed_widen [OF assms(1,3)]
    by (rule parse_content_widen [OF trim(1)]) (use assms(1) in \<open>simp_all add: parser_ok_def\<close>)
  then show ?thesis using feed_widen [OF st'(1), of d] st'(2,3) assms(3) drop_eq by simp
qed

text \<open>
  What the server answers to the data \<open>D\<close> when it parses all of it at once: if the request is
  still incomplete then, the loop ends with the connection, or with the buffer.
\<close>

definition answer :: "bool \<Rightarrow> string \<Rightarrow> parser \<Rightarrow> served" where
  "answer err D st = (case parse_content (feed D st) of
       None \<Rightarrow> Remote_closed
     | Some (rc, _) \<Rightarrow>
         if rc = NO_REQUEST then (if err \<and> length D < room st then Reading_failed else Remote_closed)
         else Replied (if rc = GET_REQUEST then szret ! 0 else szret ! 1))"

abbreviation last_event :: "bool \<Rightarrow> recv_event list" where
  "last_event err \<equiv> if err then [Recv_error] else []"

definition ready :: "parser \<Rightarrow> bool" where
  "ready st \<longleftrightarrow> parser_ok st \<and> length (p_buffer st) = BUFFER_SIZE \<and> parse_content st = Some (NO_REQUEST, st)"

lemma ready_next:
  assumes "ready st" and "length d \<le> room st" and "parse_content (feed d st) = Some (NO_REQUEST, st')"
  shows "ready st'" and "read_index st' = read_index st + length d"
proof -
  from assms(1,2) have ok: "parser_ok (feed d st)" and len: "length (p_buffer (feed d st)) = BUFFER_SIZE"
    by (auto simp: ready_def feed_ok simp del: feed_sel(5))
  note safe = parse_content_safe [OF ok]
  with assms(3) have "parser_ok st'" "length (p_buffer st') = BUFFER_SIZE" and ri: "read_index st' = read_index (feed d st)"
    using len by auto
  moreover have "parse_content st' = Some (NO_REQUEST, st')"
    using parse_content_stops [OF assms(3)] by (blast intro: parse_content_stopped)
  ultimately show "ready st'" by (simp add: ready_def)
  from ri show "read_index st' = read_index st + length d" by simp
qed

lemma answer_split:
  assumes "ready st" and "length d + length D \<le> room st" and "parse_content (feed d st) = Some (rc, st')"
  shows "answer err (d @ D) st = (if rc = NO_REQUEST then answer err D st'
     else Replied (if rc = GET_REQUEST then szret ! 0 else szret ! 1))"
proof -
  from assms(1,2) have ok: "parser_ok (feed d st)" "parser_ok st" and len: "length (p_buffer (feed d st)) = length (p_buffer st)"
    by (auto simp: ready_def feed_ok simp del: feed_sel(5))
  from assms(2) len have D: "length D \<le> room (feed d st)" by (simp del: feed_sel(5))
  have "parse_content (feed (d @ D) st) = (if rc = NO_REQUEST then parse_content (feed D st') else Some (rc, feed D st'))"
    using parse_content_feed [OF ok(1) assms(3) D] feed_append [OF ok(2) assms(2)] by simp
  moreover have "rc = NO_REQUEST \<Longrightarrow> length d \<le> room st \<Longrightarrow> room st' = room st - length d"
    using ready_next [of st d st'] assms by (auto simp: ready_def)
  ultimately show ?thesis using assms(2)
    by (auto simp: answer_def split: option.splits)
qed

lemma serve_answer:
  assumes "ready st" and "[] \<notin> set cs"
  shows "serve (map Chunk cs @ last_event err) st = Some (answer err (take (room st) (concat cs)) st)"
  using assms
proof (induction "room st" arbitrary: st cs rule: less_induct)
  case less
  let ?es = "map Chunk cs @ last_event err"
  from less.prems have rd: "parser_ok st" "length (p_buffer st) = BUFFER_SIZE" "parse_content st = Some (NO_REQUEST, st)"
    by (auto simp: ready_def)
  show ?case
  proof (cases "room st = 0 \<or> cs = []")
    case True
    with rd show ?thesis
      by (cases "BUFFER_SIZE - read_index st"; cases err; cases cs)
         (auto simp: serve.simps [of _ st] answer_def)
  next
    case False
    then obtain c cs' where cs: "cs = c # cs'" and n: "0 < room st" by (cases cs) auto
    define d where "d = take (room st) c"
    define ds where "ds = (if length c \<le> room st then cs' else drop (room st) c # cs')"
    from n have rcv: "recv (BUFFER_SIZE - read_index st) ?es = (Some d, map Chunk ds @ last_event err)"
      using rd(2) by (cases "BUFFER_SIZE - read_index st") (auto simp: cs d_def ds_def)
    from less.prems(2) n have d: "d \<noteq> []" "length d \<le> room st" and ds: "[] \<notin> set ds"
      by (auto simp: cs d_def ds_def)
    have D: "take (room st) (concat cs) = d @ take (room st - length d) (concat ds)"
      by (auto simp: cs d_def ds_def)
    obtain rc st' where pc: "parse_content (feed d st) = Some (rc, st')"
      using parse_content_safe [OF feed_ok(1) [OF rd(1) d(2)]] by blast
    have unf: "serve ?es st = (if rc = NO_REQUEST then serve (map Chunk ds @ last_event err) st'
        else Some (Replied (if rc = GET_REQUEST then szret ! 0 else szret ! 1)))"
      using d feed_ok(2) [OF rd(1) d(2)] by (subst serve.simps) (simp add: rcv pc)
    show ?thesis
    proof (cases "rc = NO_REQUEST")
      case True
      with ready_next [OF less.prems(1) d(2)] pc have st': "ready st'" "read_index st' = read_index st + length d" by auto
      then have "room st' = room st - length d" using rd(2) by (simp add: ready_def)
      moreover from this d n have "room st' < room st" by (cases d) auto
      ultimately have "serve (map Chunk ds @ last_event err) st' = Some (answer err (take (room st - length d) (concat ds)) st')"
        using less.hyps [OF _ st'(1) ds] by simp
      with unf True answer_split [OF less.prems(1) _ pc, of "take (room st - length d) (concat ds)"] d(2) D
      show ?thesis by simp
    next
      case False
      with unf answer_split [OF less.prems(1) _ pc, of "take (room st - length d) (concat ds)"] d(2) D
      show ?thesis by simp
    qed
  qed
qed

lemma ready_init: "ready parser_init"
proof -
  have "parser_ok parser_init" by (simp add: parser_ok_def parser_init_def)
  moreover have "parse_content parser_init = Some (NO_REQUEST, parser_init)"
    by (simp add: parser_init_def parse_content_stopped stopped_def)
  ultimately show ?thesis by (simp add: ready_def parser_init_def)
qed

lemma serve_init:
  assumes "[] \<notin> set cs"
  shows "serve (map Chunk cs @ last_event err) parser_init
           = Some (answer err (take BUFFER_SIZE (concat cs)) parser_init)"
  using serve_answer [OF ready_init assms] by (simp add: parser_init_def)

text \<open>
  C11. From any state whose positions are ordered, \<^verbatim>\<open>parse_content\<close> returns (its loop ends and no
  access leaves the buffer), keeps the positions ordered and the buffer's length, and its result
  is one of the three codes \<open>NO_REQUEST\<close>, \<open>GET_REQUEST\<close> and \<open>BAD_REQUEST\<close>.
\<close>

theorem parse_content_never_faults:
  assumes "parser_ok st"
  shows "\<exists>rc st'. parse_content st = Some (rc, st') \<and> parser_ok st' \<and> read_index st' = read_index st
           \<and> length (p_buffer st') = length (p_buffer st) \<and> rc \<in> {NO_REQUEST, GET_REQUEST, BAD_REQUEST}"
  using assms by (rule parse_content_safe)

theorem parse_content_never_faults_witness:
  "\<exists>rc st'. parse_content parser_init = Some (rc, st') \<and> parser_ok st' \<and> read_index st' = read_index parser_init
     \<and> length (p_buffer st') = length (p_buffer parser_init) \<and> rc \<in> {NO_REQUEST, GET_REQUEST, BAD_REQUEST}"
  by (rule parse_content_never_faults) (simp add: parser_ok_def parser_init_def)

text \<open>
  C9. Stopping and resuming: if \<^verbatim>\<open>parse_content\<close> asked for more data, then parsing again after more
  characters have arrived is the same as parsing them all from the state before; if it reached a
  verdict, the verdict is the one that all the data gives, whatever arrives later.
\<close>

theorem parse_content_resumes:
  assumes "parser_ok st" and "parse_content st = Some (rc, st')" and "recv_into d st = Some st1"
  shows "\<exists>st1'. recv_into d st' = Some st1' \<and>
     (if rc = NO_REQUEST then parse_content st1 = parse_content st1' else parse_content st1 = Some (rc, st1'))"
proof -
  from assms(3) have d: "length d \<le> room st" and st1: "st1 = feed d st"
    by (auto simp: recv_into_def feed_def split: if_splits)
  have "parser_ok st'" "read_index st' = read_index st" "length (p_buffer st') = length (p_buffer st)"
    using parse_content_safe [OF assms(1)] assms(2) by auto
  with d have "recv_into d st' = Some (feed d st')" by (simp add: feed_ok)
  with st1 parse_content_feed [OF assms(1,2) d] show ?thesis by simp
qed

theorem parse_content_resumes_witness:
  "let st = \<lparr>p_buffer = ''GET / HTTP/1.1'' @ [CR, NUL, NUL, NUL], checked_index = 3,
             checkstate = CHECK_STATE_REQUESTLINE, read_index = 15, start_line = 0\<rparr>;
       st' = st\<lparr>checked_index := 14\<rparr>
   in parse_content st = Some (NO_REQUEST, st')
      \<and> (\<exists>st1 st1'. recv_into [LF, CR] st = Some st1 \<and> recv_into [LF, CR] st' = Some st1'
            \<and> parse_content st1 = parse_content st1')"
proof -
  define st where "st = \<lparr>p_buffer = ''GET / HTTP/1.1'' @ [CR, NUL, NUL, NUL], checked_index = 3,
             checkstate = CHECK_STATE_REQUESTLINE, read_index = 15, start_line = 0\<rparr>"
  have pc: "parse_content st = Some (NO_REQUEST, st\<lparr>checked_index := 14\<rparr>)"
    unfolding st_def by code_simp
  have ok: "parser_ok st" unfolding st_def by code_simp
  have r: "recv_into [LF, CR] st = Some (feed [LF, CR] st)" unfolding st_def by code_simp
  from parse_content_resumes [OF ok pc r] pc r show ?thesis
    unfolding st_def [symmetric] Let_def by simp
qed

text \<open>
  C7. How the network cuts the request does not matter: however the data arrives in non-empty
  pieces, and whether the connection then closes or fails, the program sends the same reply, makes
  the same calls and exits in the same way as if all the data had arrived at once.
\<close>

theorem chunks_do_not_matter:
  assumes "[] \<notin> set cs" and "cs \<noteq> []"
  shows "http_main argc listenfd bind_ret listen_ret fd (map Chunk cs @ last_event err)
       = http_main argc listenfd bind_ret listen_ret fd (Chunk (concat cs) # last_event err)"
proof -
  have "concat cs \<noteq> []" using assms by (cases cs) auto
  with assms(1) have "serve (map Chunk cs @ last_event err) parser_init = serve (map Chunk [concat cs] @ last_event err) parser_init"
    using serve_init [of cs] serve_init [of "[concat cs]"] by simp
  then show ?thesis by (simp add: http_main_def)
qed

theorem chunks_do_not_matter_witness:
  "http_main 3 3 0 0 4 (map Chunk [''GET /'', ''a HTTP/1.1'' @ [CR], [LF, CR], [LF]] @ last_event True)
   = http_main 3 3 0 0 4 (Chunk (''GET /a HTTP/1.1'' @ [CR, LF, CR, LF]) # last_event True)"
  using chunks_do_not_matter [of "[''GET /'', ''a HTTP/1.1'' @ [CR], [LF, CR], [LF]]" 3 3 0 0 4 True] by simp

section \<open>Well-formed requests\<close>

lemma parse_line_skip:
  assumes "ci < ri" "ci < length b" "b ! ci \<noteq> CR" "b ! ci = LF \<Longrightarrow> ci > 1 \<Longrightarrow> b ! (ci - 1) \<noteq> CR"
  shows "parse_line b ci ri = parse_line b (ci + 1) ri"
  using assms by (auto simp: parse_line.simps [of b ci] rd_def)

lemma parse_line_at:
  assumes "CR \<notin> set line" and "pre = [] \<or> last pre \<noteq> CR" and "length pre + length line + 2 \<le> ri"
  shows "parse_line (pre @ line @ CR # LF # post) (length pre) ri
     = Some (LINE_OK, pre @ line @ NUL # NUL # post, length pre + length line + 2)"
  using assms
proof (induction line arbitrary: pre)
  case Nil
  then show ?case by (simp add: parse_line.simps [of _ "length pre"] rd_def nth_append list_update_append)
next
  case (Cons c line)
  let ?b = "pre @ (c # line) @ CR # LF # post"
  have prev: "?b ! (length pre - 1) \<noteq> CR" if "length pre > 1"
    using that Cons.prems(2) by (cases pre rule: rev_cases) (auto simp: nth_append)
  have "parse_line ?b (length pre) ri = parse_line ?b (length pre + 1) ri"
    using Cons.prems prev by (intro parse_line_skip) auto
  also have "\<dots> = parse_line ((pre @ [c]) @ line @ CR # LF # post) (length (pre @ [c])) ri" by simp
  also have "\<dots> = Some (LINE_OK, (pre @ [c]) @ line @ NUL # NUL # post, length (pre @ [c]) + length line + 2)"
    using Cons.prems by (intro Cons.IH) auto
  finally show ?case by simp
qed

lemma first_pos_at:
  assumes "\<And>y. y \<in> set ys \<Longrightarrow> \<not> P y" and "P c"
  shows "first_pos P (pre @ ys @ c # post) (length pre) = Some (length pre + length ys)"
  using assms(1)
proof (induction ys arbitrary: pre)
  case Nil
  with assms(2) show ?case by (simp add: first_pos.simps)
next
  case (Cons y ys)
  from Cons.prems have "\<not> P y" by simp
  then have "first_pos P (pre @ (y # ys) @ c # post) (length pre)
    = first_pos P ((pre @ [y]) @ ys @ c # post) (length (pre @ [y]))"
    by (simp add: first_pos.simps [of P "pre @ y # ys @ c # post" "length pre"])
  also have "\<dots> = Some (length (pre @ [y]) + length ys)"
    using Cons.prems by (intro Cons.IH) auto
  finally show ?case by simp
qed

lemma eq_nocase_match:
  "map tolower s = map tolower t \<Longrightarrow> eq_nocase (pre @ s @ post) (length pre) t = Some True"
proof (induction t arbitrary: s pre)
  case (Cons c t)
  then obtain d s' where s: "s = d # s'" "tolower d = tolower c" "map tolower s' = map tolower t"
    by (cases s) auto
  from Cons.IH [OF s(3), of "pre @ [d]"] s(1,2) show ?case by (simp add: rd_def)
qed simp

definition blanks :: "string \<Rightarrow> bool" where
  "blanks b \<longleftrightarrow> b \<noteq> [] \<and> (\<forall>c \<in> set b. blank c)"

lemma request_line_accepted:
  assumes m: "map tolower m = ''get''" and b1: "blanks b1" and b2: "blanks b2"
    and v: "map tolower v = ''http/1.1''"
    and url: "url \<noteq> []" "hd url = CHR ''/''" "\<And>c. c \<in> set url \<Longrightarrow> \<not> blank c \<and> c \<noteq> NUL"
  shows "\<exists>buf'. parse_requestline (m @ b1 @ url @ b2 @ v @ NUL # post) 0 cs = Some (NO_REQUEST, buf', CHECK_STATE_HEADER)
     \<and> drop (length (m @ b1 @ url @ b2 @ v)) buf' = NUL # post
     \<and> length buf' = length (m @ b1 @ url @ b2 @ v @ NUL # post)"
proof -
  obtain x1 t1 where x1: "b1 = x1 # t1" "blank x1" "\<forall>c\<in>set t1. blank c" using b1 by (cases b1) (auto simp: blanks_def)
  obtain x2 t2 where x2: "b2 = x2 # t2" "blank x2" "\<forall>c\<in>set t2. blank c" using b2 by (cases b2) (auto simp: blanks_def)
  obtain u' where u': "url = CHR ''/'' # u'" using url(1,2) by (cases url) auto
  have nb: "\<not> blank c" "c \<noteq> NUL" if "tolower c \<in> set ''gethttp/1.1''" for c
  proof -
    show "c \<noteq> NUL" using that by auto
    have "tolower (CHR '' '') = CHR '' ''" "tolower (CHR 0x09) = CHR 0x09" by (simp_all add: tolower_def)
    then show "\<not> blank c" using that by (auto simp: blank_def)
  qed
  have mset: "tolower c \<in> set ''get''" if "c \<in> set m" for c using that m by (metis list.set_map image_eqI)
  have vset: "tolower c \<in> set ''http/1.1''" if "c \<in> set v" for c using that v by (metis list.set_map image_eqI)
  let ?b0 = "m @ b1 @ url @ b2 @ v @ NUL # post"
  let ?c1 = "m @ NUL # t1 @ url @ b2 @ v @ NUL # post"
  let ?c2 = "m @ NUL # t1 @ url @ NUL # t2 @ v @ NUL # post"
  let ?u = "length m + 1 + length t1"
  let ?v = "?u + length url"
  let ?P = "\<lambda>c. c = NUL \<or> blank c"
  have xnz: "x1 \<noteq> NUL" "x2 \<noteq> NUL" using x1 x2 by (auto simp: blank_def)
  have m_nb: "\<not> ?P c" if "c \<in> set m" for c using that mset nb by fastforce
  have lower: "map tolower ''GET'' = ''get''" "map tolower ''HTTP/1.1'' = ''http/1.1''" by code_simp+
  have s1: "strpbrk_blank ?b0 0 = Some (Some (length m))"
    using first_pos_at [of m ?P x1 "[]" "t1 @ url @ b2 @ v @ NUL # post"] m_nb x1 xnz
    by (simp add: strpbrk_blank_def nth_append)
  have e1: "?b0[length m := NUL] = ?c1" by (simp add: x1 list_update_append)
  have s2: "strcasecmp_eq ?c1 0 ''GET'' = Some True"
    using eq_nocase_match [of "m @ [NUL]" "''GET'' @ [NUL]" "[]" "t1 @ url @ b2 @ v @ NUL # post"] m lower(1)
    by (simp add: strcasecmp_eq_def del: eq_nocase.simps)
  have s3: "skip_blank ?c1 (length m + 1) = Some ?u"
    using first_pos_at [of t1 "\<lambda>c. \<not> blank c" "CHR ''/''" "m @ [NUL]"] x1
    by (simp add: skip_blank_def u' blank_def)
  have s4: "strpbrk_blank ?c1 ?u = Some (Some ?v)"
    using first_pos_at [of url ?P x2 "m @ NUL # t1" "t2 @ v @ NUL # post"] url(3) x2 xnz
    by (auto simp: strpbrk_blank_def nth_append)
  have e2: "?c1[?v := NUL] = ?c2" by (simp add: x2 list_update_append)
  obtain vh vt where vv: "v = vh # vt" using v by (cases v) auto
  have s5: "skip_blank ?c2 (?v + 1) = Some (?v + 1 + length t2)"
    using first_pos_at [of t2 "\<lambda>c. \<not> blank c" vh "m @ NUL # t1 @ url @ [NUL]"] x2 vset [of vh] nb [of vh]
    by (simp add: skip_blank_def vv add.assoc)
  have s6: "strcasecmp_eq ?c2 (?v + 1 + length t2) ''HTTP/1.1'' = Some True"
    using eq_nocase_match [of "v @ [NUL]" "''HTTP/1.1'' @ [NUL]" "m @ NUL # t1 @ url @ NUL # t2" post] v lower(2)
    by (simp add: strcasecmp_eq_def add.assoc del: eq_nocase.simps)
  have rd_u: "rd ?c2 ?u = Some (CHR ''/'')" by (simp add: rd_def u' nth_append)
  then have s7: "strncasecmp_eq ?c2 ?u ''http://'' = Some False"
    by (simp add: strncasecmp_eq_def tolower_def)
  have "parse_requestline ?b0 0 cs = Some (NO_REQUEST, ?c2, CHECK_STATE_HEADER)"
    unfolding parse_requestline_def Let_def
    by (simp only: s1 e1 s2 s3 s4 e2 s5 s6 s7 rd_u bind.bind_lunit option.case if_False if_True not_True_eq_False not_False_eq_True) simp
  then show ?thesis by (simp add: x1 x2)
qed

lemma header_line_skipped:
  assumes "h \<noteq> []" and "hd h \<noteq> NUL"
  shows "parse_headers (pre @ h @ NUL # post) (length pre) = Some NO_REQUEST"
proof -
  have e: "ends_by (pre @ h @ NUL # post) (length pre + length h)"
    by (simp add: ends_by_def nth_append)
  obtain r where r: "parse_headers (pre @ h @ NUL # post) (length pre) = Some r"
    using parse_headers_total [OF e, of "length pre"] by auto
  have "rd (pre @ h @ NUL # post) (length pre) = Some (hd h)"
    using assms(1) by (cases h) (simp_all add: rd_def nth_append)
  with r assms(2) have "r = NO_REQUEST"
    by (simp add: parse_headers_def bind_eq_Some_conv del: eq_nocase.simps)
       (auto simp: bind_eq_Some_conv split: if_splits)
  with r show ?thesis by simp
qed

definition crlf_lines :: "string list \<Rightarrow> string" where
  "crlf_lines hs = concat (map (\<lambda>h. h @ [CR, LF]) hs)"

lemma headers_accepted:
  assumes "\<forall>h \<in> set hs. h \<noteq> [] \<and> hd h \<noteq> NUL \<and> CR \<notin> set h"
    and "p_buffer st = pre @ crlf_lines hs @ CR # LF # post" and "pre = [] \<or> last pre \<noteq> CR"
    and "checked_index st = length pre" and "start_line st = length pre" and "checkstate st = CHECK_STATE_HEADER"
    and "length pre + length (crlf_lines hs) + 2 \<le> read_index st"
  shows "\<exists>st'. parse_content st = Some (GET_REQUEST, st')"
  using assms
proof (induction hs arbitrary: pre st)
  case Nil
  then have "parse_line (p_buffer st) (checked_index st) (read_index st) = Some (LINE_OK, pre @ NUL # NUL # post, length pre + 2)"
    using parse_line_at [of "[]" pre "read_index st" post] by (simp add: crlf_lines_def)
  with Nil show ?case by (simp add: parse_content_header parse_headers_def rd_def)
next
  case (Cons h hs)
  let ?rest = "crlf_lines hs @ CR # LF # post"
  let ?st = "st\<lparr>p_buffer := pre @ h @ NUL # NUL # ?rest, checked_index := length pre + length h + 2,
    start_line := length pre + length h + 2\<rparr>"
  have "parse_line (p_buffer st) (checked_index st) (read_index st)
      = Some (LINE_OK, pre @ h @ NUL # NUL # ?rest, length pre + length h + 2)"
    using parse_line_at [of h pre "read_index st" ?rest] Cons.prems by (simp add: crlf_lines_def)
  with Cons.prems have "parse_content st = parse_content ?st"
    by (simp add: parse_content_header header_line_skipped Let_def)
  moreover have "\<exists>st'. parse_content ?st = Some (GET_REQUEST, st')"
    using Cons.prems by (intro Cons.IH [of _ "pre @ h @ [NUL, NUL]"]) (auto simp: crlf_lines_def)
  ultimately show ?case by simp
qed

lemma request_accepted:
  assumes m: "map tolower m = ''get''" and b: "blanks b1" "blanks b2" and v: "map tolower v = ''http/1.1''"
    and url: "url \<noteq> []" "hd url = CHR ''/''" "\<And>c. c \<in> set url \<Longrightarrow> \<not> blank c \<and> c \<noteq> NUL \<and> c \<noteq> CR"
    and hs: "\<forall>h \<in> set hs. h \<noteq> [] \<and> hd h \<noteq> NUL \<and> CR \<notin> set h"
    and st: "p_buffer st = (m @ b1 @ url @ b2 @ v) @ CR # LF # crlf_lines hs @ CR # LF # post"
      "checked_index st = 0" "start_line st = 0" "checkstate st = CHECK_STATE_REQUESTLINE"
      "length (m @ b1 @ url @ b2 @ v) + 2 + length (crlf_lines hs) + 2 \<le> read_index st"
  shows "\<exists>st'. parse_content st = Some (GET_REQUEST, st')"
proof -
  let ?l = "m @ b1 @ url @ b2 @ v" and ?rest = "crlf_lines hs @ CR # LF # post"
  have nocr: "CR \<notin> set ?l"
  proof -
    have "tolower CR = CR" by (simp add: tolower_def)
    then have "tolower CR \<notin> set (map tolower m)" "tolower CR \<notin> set (map tolower v)"
      unfolding m v by simp_all
    then have "CR \<notin> set m" "CR \<notin> set v" by (auto simp only: list.set_map dest: imageI [of CR _ tolower])
    moreover have "\<not> blank CR" by (simp add: blank_def)
    then have "CR \<notin> set b1" "CR \<notin> set b2" using b by (auto simp: blanks_def)
    moreover have "CR \<notin> set url" using url(3) by blast
    ultimately show ?thesis by simp
  qed
  have pl: "parse_line (p_buffer st) (checked_index st) (read_index st)
      = Some (LINE_OK, ?l @ NUL # NUL # ?rest, length ?l + 2)"
    using parse_line_at [OF nocr, of "[]" "read_index st" ?rest] st by simp
  obtain buf' where prl: "parse_requestline (?l @ NUL # NUL # ?rest) 0 CHECK_STATE_REQUESTLINE = Some (NO_REQUEST, buf', CHECK_STATE_HEADER)"
    "drop (length ?l) buf' = NUL # NUL # ?rest" "length buf' = length (?l @ NUL # NUL # ?rest)"
    using request_line_accepted [OF m b v url(1,2), of "NUL # ?rest"] url(3) by auto
  let ?st = "st\<lparr>p_buffer := buf', checked_index := length ?l + 2, checkstate := CHECK_STATE_HEADER, start_line := length ?l + 2\<rparr>"
  have "parse_content st = parse_content ?st"
    using st prl(1) by (simp add: parse_content_request [OF pl])
  moreover have buf': "buf' = (take (length ?l) buf' @ [NUL, NUL]) @ ?rest"
    using append_take_drop_id [of "length ?l" buf', symmetric] unfolding prl(2) by simp
  have "length (take (length ?l) buf' @ [NUL, NUL]) = length ?l + 2"
    using prl(3) by simp
  then have "\<exists>st'. parse_content ?st = Some (GET_REQUEST, st')"
    using st(5) buf' headers_accepted [OF hs, of ?st "take (length ?l) buf' @ [NUL, NUL]" post]
    by (simp only: parser.simps parser.surjective parser.update_convs) (simp add: nocr)
  ultimately show ?thesis by simp
qed

text \<open>
  C10. A well-formed request is answered with the first reply: a request line with the method GET
  (in any case), a path without blanks and the version HTTP/1.1 (in any case), separated by blanks,
  then any number of header lines and an empty line. The request may arrive in any pieces and any
  data may follow it; it has to fit into the buffer.
\<close>

theorem well_formed_request_is_answered:
  assumes m: "map tolower m = ''get''" and b: "blanks b1" "blanks b2" and v: "map tolower v = ''http/1.1''"
    and url: "url \<noteq> []" "hd url = CHR ''/''" "\<And>c. c \<in> set url \<Longrightarrow> \<not> blank c \<and> c \<noteq> NUL \<and> c \<noteq> CR"
    and hs: "\<forall>h \<in> set hs. h \<noteq> [] \<and> hd h \<noteq> NUL \<and> CR \<notin> set h"
    and req: "req = (m @ b1 @ url @ b2 @ v) @ CR # LF # crlf_lines hs @ [CR, LF]" "length req \<le> BUFFER_SIZE"
    and cs: "concat cs = req @ tail" "[] \<notin> set cs"
    and os: "2 < argc" "0 \<le> listenfd" "bind_ret \<noteq> -1" "listen_ret \<noteq> -1" "0 \<le> fd"
  shows "http_main argc listenfd bind_ret listen_ret fd (map Chunk cs @ last_event err)
       = Some (Exit 0, [Sent (szret ! 0), Closed_fd, Closed_listenfd])"
proof -
  define D where "D = take BUFFER_SIZE (concat cs)"
  have D: "D = req @ take (BUFFER_SIZE - length req) tail" using req(2) by (simp add: D_def cs(1))
  then have len: "length D \<le> BUFFER_SIZE" "length req \<le> length D" using req(2) by simp_all
  have "p_buffer (feed D parser_init) = D @ replicate (BUFFER_SIZE - length D) NUL"
    using len(1) by (simp add: parser_init_def splice_def)
  then have "p_buffer (feed D parser_init) = (m @ b1 @ url @ b2 @ v) @ CR # LF # crlf_lines hs @ CR # LF
      # (take (BUFFER_SIZE - length req) tail @ replicate (BUFFER_SIZE - length D) NUL)"
    by (simp add: D req(1))
  moreover have "length (m @ b1 @ url @ b2 @ v) + 2 + length (crlf_lines hs) + 2 \<le> read_index (feed D parser_init)"
    using len(2) by (simp add: req(1) parser_init_def)
  ultimately obtain st' where "parse_content (feed D parser_init) = Some (GET_REQUEST, st')"
    using request_accepted [OF m b v url hs, of "feed D parser_init"] by (auto simp: parser_init_def)
  then have "answer err D parser_init = Replied (szret ! 0)" by (simp add: answer_def)
  with serve_init [OF cs(2), of err] os show ?thesis by (simp add: http_main_def D_def)
qed

theorem well_formed_request_is_answered_witness:
  "http_main 3 3 0 0 4 (map Chunk [''get  /index.html HTTP/1.1'' @ [CR], LF # ''Host: x'' @ [CR, LF], [CR, LF] @ ''tail''] @ last_event False)
   = Some (Exit 0, [Sent (''I get a correct result'' @ [LF]), Closed_fd, Closed_listenfd])"
proof -
  have low: "map tolower ''get'' = ''get''" "map tolower ''HTTP/1.1'' = ''http/1.1''"
    "blanks ''  ''" "blanks '' ''" by code_simp+
  have c: "c \<in> set ''/index.html'' \<Longrightarrow> \<not> blank c \<and> c \<noteq> NUL \<and> c \<noteq> CR" for c
    by (auto simp: blank_def)
  show ?thesis
    using well_formed_request_is_answered [OF low(1,3,4,2), of "''/index.html''" "[''Host: x'']"
        "''get  /index.html HTTP/1.1'' @ [CR, LF] @ ''Host: x'' @ [CR, LF, CR, LF]"
        "[''get  /index.html HTTP/1.1'' @ [CR], LF # ''Host: x'' @ [CR, LF], [CR, LF] @ ''tail'']" "''tail''"
        3 3 0 0 4 False] c
    by (simp add: crlf_lines_def BUFFER_SIZE_def szret_def)
qed

end
