(* ===== verification/Slice.thy ===== *)
theory Slice
  imports Prelude
begin

text \<open>
  The class \<^verbatim>\<open>Slice\<close> (Slice.h, Slice.cpp): a pair of pointers into memory that the slice does not
  own, from which the HTTP decoder eats lines and words. Both pointers of a slice point into one
  object (pointer comparison and difference have a meaning only then), so a slice is a base and
  two offsets. Operations that read through the pointers take the memory and return an option;
  those that change the slice return it beside their result.

  The second half gives each operation's effect on the characters the slice covers, for every
  well-formed slice, and states the interface of slices as the locale \<open>char_view\<close>, in which the
  lemmas on word and line reading that the decoder needs are proved.
\<close>

section \<open>The class\<close>

record Slice =
  m_base :: base
  m_pb :: int
  m_pe :: int

subsection \<open>Constructors\<close>

definition Slice_default :: Slice where
  "Slice_default = \<lparr>m_base = Lit [], m_pb = 0, m_pe = 0\<rparr>"

definition Slice_be :: "base \<Rightarrow> int \<Rightarrow> int \<Rightarrow> Slice" where
  "Slice_be bl b e = \<lparr>m_base = bl, m_pb = b, m_pe = e\<rparr>"

definition Slice_dn :: "base \<Rightarrow> int \<Rightarrow> size_t \<Rightarrow> Slice" where
  "Slice_dn bl d n = \<lparr>m_base = bl, m_pb = d, m_pe = d + uint n\<rparr>"

definition Slice_string :: "string \<Rightarrow> Slice" where
  "Slice_string s = \<lparr>m_base = Lit s, m_pb = 0, m_pe = int (length s)\<rparr>"

definition Slice_cstr :: "mem \<Rightarrow> base \<Rightarrow> int \<Rightarrow> Slice option" where
  "Slice_cstr m bl s = do {
     n \<leftarrow> strlen_from m bl s;
     Some \<lparr>m_base = bl, m_pb = s, m_pe = s + int n\<rparr> }"

subsection \<open>Observers\<close>

definition Slice_data :: "Slice \<Rightarrow> base \<times> int" where
  "Slice_data s = (m_base s, m_pb s)"

definition Slice_begin :: "Slice \<Rightarrow> base \<times> int" where
  "Slice_begin s = (m_base s, m_pb s)"

definition Slice_end :: "Slice \<Rightarrow> base \<times> int" where
  "Slice_end s = (m_base s, m_pe s)"

definition Slice_front :: "mem \<Rightarrow> Slice \<Rightarrow> char option" where
  "Slice_front m s = load m (m_base s) (m_pb s)"

definition Slice_back :: "mem \<Rightarrow> Slice \<Rightarrow> char option" where
  "Slice_back m s = load m (m_base s) (m_pe s - 1)"

definition Slice_size :: "Slice \<Rightarrow> size_t" where
  "Slice_size s = word_of_int (m_pe s - m_pb s)"

definition Slice_empty :: "Slice \<Rightarrow> bool" where
  "Slice_empty s \<longleftrightarrow> m_pe s = m_pb s"

definition Slice_index :: "mem \<Rightarrow> Slice \<Rightarrow> size_t \<Rightarrow> char option" where
  "Slice_index m s n = load m (m_base s) (m_pb s + uint n)"

text \<open>\<^verbatim>\<open>std::string(m_pb, m_pe)\<close>; a negative length makes the constructor throw.\<close>

definition Slice_toString :: "mem \<Rightarrow> Slice \<Rightarrow> string option" where
  "Slice_toString m s =
     (if m_pe s < m_pb s then None else load_n m (m_base s) (m_pb s) (nat (m_pe s - m_pb s)))"

subsection \<open>Mutators\<close>

definition Slice_resize :: "size_t \<Rightarrow> Slice \<Rightarrow> Slice" where
  "Slice_resize sz s = s\<lparr>m_pe := m_pb s + uint sz\<rparr>"

definition Slice_clear :: "Slice \<Rightarrow> Slice" where
  "Slice_clear s = s\<lparr>m_base := Lit [], m_pe := 0, m_pb := 0\<rparr>"

text \<open>The loop \<^verbatim>\<open>while (b < e && P(*b)) ++b;\<close> and its mirror image from the end.\<close>

function scan :: "(char \<Rightarrow> bool) \<Rightarrow> mem \<Rightarrow> base \<Rightarrow> int \<Rightarrow> int \<Rightarrow> int option" where
  "scan P m bl b e =
     (if b < e then
        (case load m bl b of None \<Rightarrow> None
         | Some c \<Rightarrow> if P c then scan P m bl (b + 1) e else Some b)
      else Some b)"
  by pat_completeness auto
termination
  by (relation "measure (\<lambda>(P, m, bl, b, e). nat (e - b))") auto

function scan_back :: "(char \<Rightarrow> bool) \<Rightarrow> mem \<Rightarrow> base \<Rightarrow> int \<Rightarrow> int \<Rightarrow> int option" where
  "scan_back P m bl b e =
     (if b < e then
        (case load m bl (e - 1) of None \<Rightarrow> None
         | Some c \<Rightarrow> if P c then scan_back P m bl b (e - 1) else Some e)
      else Some e)"
  by pat_completeness auto
termination
  by (relation "measure (\<lambda>(P, m, bl, b, e). nat (e - b))") auto

declare scan.simps [simp del] scan_back.simps [simp del]

definition Slice_eatWord :: "mem \<Rightarrow> Slice \<Rightarrow> (Slice \<times> Slice) option" where
  "Slice_eatWord m s = do {
     b \<leftarrow> scan isspace m (m_base s) (m_pb s) (m_pe s);
     e \<leftarrow> scan (\<lambda>c. \<not> isspace c) m (m_base s) b (m_pe s);
     Some (Slice_be (m_base s) b e, s\<lparr>m_pb := e\<rparr>) }"

definition Slice_eatLine :: "mem \<Rightarrow> Slice \<Rightarrow> (Slice \<times> Slice) option" where
  "Slice_eatLine m s = do {
     let p = m_pb s;
     pb \<leftarrow> scan (\<lambda>c. c \<noteq> CR \<and> c \<noteq> LF) m (m_base s) p (m_pe s);
     Some (Slice_dn (m_base s) p (word_of_int (pb - p)), s\<lparr>m_pb := pb\<rparr>) }"

definition Slice_eat :: "size_t \<Rightarrow> Slice \<Rightarrow> Slice \<times> Slice" where
  "Slice_eat sz s =
     (let sz = (if sz > Slice_size s then Slice_size s else sz)
      in (Slice_dn (m_base s) (m_pb s) sz, s\<lparr>m_pb := m_pb s + uint sz\<rparr>))"

definition Slice_sub :: "int \<Rightarrow> int \<Rightarrow> Slice \<Rightarrow> Slice" where
  "Slice_sub boff eoff s = s\<lparr>m_pb := m_pb s + boff, m_pe := m_pe s + eoff\<rparr>"

definition Slice_trimSpace :: "mem \<Rightarrow> Slice \<Rightarrow> Slice option" where
  "Slice_trimSpace m s = do {
     pb \<leftarrow> scan isspace m (m_base s) (m_pb s) (m_pe s);
     pe \<leftarrow> scan_back isspace m (m_base s) pb (m_pe s);
     Some (s\<lparr>m_pb := pb, m_pe := pe\<rparr>) }"

subsection \<open>Comparison and splitting\<close>

definition Slice_compare :: "mem \<Rightarrow> Slice \<Rightarrow> Slice \<Rightarrow> int option" where
  "Slice_compare m s b = do {
     let sz = Slice_size s;
     let bsz = Slice_size b;
     let min_len = (if sz < bsz then sz else bsz);
     r \<leftarrow> memcmp m (m_base s) (m_pb s) (m_base b) (m_pb b) (unat min_len);
     Some (if r = 0 then (if sz < bsz then -1 else if sz > bsz then 1 else r) else r) }"

definition Slice_starts_with :: "mem \<Rightarrow> Slice \<Rightarrow> Slice \<Rightarrow> bool option" where
  "Slice_starts_with m s x =
     (if Slice_size s \<ge> Slice_size x
      then do {
        r \<leftarrow> memcmp m (m_base s) (m_pb s) (m_base x) (m_pb x) (unat (Slice_size x));
        Some (r = 0) }
      else Some False)"

definition Slice_end_with :: "mem \<Rightarrow> Slice \<Rightarrow> Slice \<Rightarrow> bool option" where
  "Slice_end_with m s x =
     (if Slice_size s \<ge> Slice_size x
      then do {
        r \<leftarrow> memcmp m (m_base s) (m_pe s - uint (Slice_size x)) (m_base x) (m_pb x)
               (unat (Slice_size x));
        Some (r = 0) }
      else Some False)"

text \<open>The \<^verbatim>\<open>for\<close> loop of \<^verbatim>\<open>split\<close>: \<open>pb\<close> is where the current piece starts, \<open>p\<close> the loop variable.\<close>

function split_loop :: "mem \<Rightarrow> base \<Rightarrow> char \<Rightarrow> int \<Rightarrow> int \<Rightarrow> int \<Rightarrow> Slice list
                        \<Rightarrow> (Slice list \<times> int) option" where
  "split_loop m bl ch pb p e r =
     (if p < e then
        (case load m bl p of None \<Rightarrow> None
         | Some c \<Rightarrow> if c = ch then split_loop m bl ch (p + 1) (p + 1) e (r @ [Slice_be bl pb p])
                     else split_loop m bl ch pb (p + 1) e r)
      else Some (r, pb))"
  by pat_completeness auto
termination
  by (relation "measure (\<lambda>(m, bl, ch, pb, p, e, r). nat (e - p))") auto

declare split_loop.simps [simp del]

definition Slice_split :: "mem \<Rightarrow> char \<Rightarrow> Slice \<Rightarrow> Slice list option" where
  "Slice_split m ch s = do {
     (r, pb) \<leftarrow> split_loop m (m_base s) ch (m_pb s) (m_pb s) (m_pe s) [];
     Some (if m_pe s \<noteq> m_pb s then r @ [Slice_be (m_base s) pb (m_pe s)] else r) }"

definition Slice_less :: "mem \<Rightarrow> Slice \<Rightarrow> Slice \<Rightarrow> bool option" where
  "Slice_less m x y = do { r \<leftarrow> Slice_compare m x y; Some (r < 0) }"

definition Slice_eq :: "mem \<Rightarrow> Slice \<Rightarrow> Slice \<Rightarrow> bool option" where
  "Slice_eq m x y =
     (if Slice_size x = Slice_size y
      then do {
        r \<leftarrow> memcmp m (m_base x) (m_pb x) (m_base y) (m_pb y) (unat (Slice_size x));
        Some (r = 0) }
      else Some False)"

definition Slice_neq :: "mem \<Rightarrow> Slice \<Rightarrow> Slice \<Rightarrow> bool option" where
  "Slice_neq m x y = map_option Not (Slice_eq m x y)"

section \<open>Well-formed slices and the characters they cover\<close>

text \<open>
  A slice is well formed when it covers a range of one live block. A Win32 process has less than
  two gigabytes of user address space, which bounds the block.
\<close>

definition Slice_wf :: "mem \<Rightarrow> Slice \<Rightarrow> bool" where
  "Slice_wf m s = (case block_of m (m_base s) of None \<Rightarrow> False
     | Some xs \<Rightarrow> 0 \<le> m_pb s \<and> m_pb s \<le> m_pe s \<and> m_pe s \<le> int (length xs) \<and> length xs < 2 ^ 31)"

definition window :: "'a list \<Rightarrow> int \<Rightarrow> int \<Rightarrow> 'a list" where
  "window xs b e = take (nat (e - b)) (drop (nat b) xs)"

definition Slice_str :: "mem \<Rightarrow> Slice \<Rightarrow> string" where
  "Slice_str m s = (case block_of m (m_base s) of None \<Rightarrow> [] | Some xs \<Rightarrow> window xs (m_pb s) (m_pe s))"

subsection \<open>Windows of a list\<close>

lemma length_window: "0 \<le> b \<Longrightarrow> b \<le> e \<Longrightarrow> e \<le> int (length xs) \<Longrightarrow> length (window xs b e) = nat (e - b)"
  by (simp add: window_def)

lemma window_Cons:
  assumes "0 \<le> b" and "b < e" and "e \<le> int (length xs)"
  shows "window xs b e = xs ! nat b # window xs (b + 1) e"
proof -
  have "nat (e - b) = Suc (nat (e - (b + 1)))" and "nat (b + 1) = Suc (nat b)"
    using assms by simp_all
  moreover have "drop (nat b) xs = xs ! nat b # drop (Suc (nat b)) xs"
    using assms by (intro Cons_nth_drop_Suc [symmetric]) simp
  ultimately show ?thesis by (simp add: window_def)
qed

lemma window_snoc:
  assumes "0 \<le> b" and "b < e" and "e \<le> int (length xs)"
  shows "window xs b e = window xs b (e - 1) @ [xs ! nat (e - 1)]"
proof -
  have n: "nat (e - b) = Suc (nat (e - 1 - b))" and "nat b + nat (e - 1 - b) = nat (e - 1)"
    using assms by simp_all
  moreover from this have "nat (e - 1 - b) < length (drop (nat b) xs)" using assms by simp
  ultimately show ?thesis using assms
    by (simp add: window_def take_Suc_conv_app_nth)
qed

lemma window_empty [simp]: "window xs b b = []"
  by (simp add: window_def)

lemma window_drop: "0 \<le> b \<Longrightarrow> drop n (window xs b e) = window xs (b + int n) e"
proof -
  assume "0 \<le> b"
  then have "nat (e - b) - n = nat (e - (b + int n))" and "nat b + n = nat (b + int n)" by linarith+
  then show ?thesis by (simp add: window_def drop_take add.commute)
qed

lemma window_take:
  assumes "0 \<le> b" and "b + int n \<le> e"
  shows "take n (window xs b e) = window xs b (b + int n)"
proof -
  have "n \<le> nat (e - b)" using assms by linarith
  then show ?thesis by (simp add: window_def min_absorb1)
qed

lemma length_takeWhile_window:
  "0 \<le> b \<Longrightarrow> b \<le> e \<Longrightarrow> e \<le> int (length xs) \<Longrightarrow>
   b + int (length (takeWhile P (window xs b e))) \<le> e"
  using length_takeWhile_le [of P "window xs b e"] by (simp add: length_window)

subsection \<open>The scanning loops\<close>

lemma scan_eq:
  assumes "block_of m bl = Some xs" and "0 \<le> b" and "b \<le> e" and "e \<le> int (length xs)"
  shows "scan P m bl b e = Some (b + int (length (takeWhile P (window xs b e))))"
  using assms
proof (induction P m bl b e rule: scan.induct)
  case (1 P m bl b e)
  show ?case
  proof (cases "b < e")
    case True
    have "load m bl b = Some (xs ! nat b)"
      using 1 True by (simp add: mem_simps)
    then show ?thesis
      using 1 True by (simp add: scan.simps [of P m bl b e] window_Cons)
  next
    case False
    with 1 show ?thesis by (simp add: scan.simps)
  qed
qed

lemma scan_back_eq:
  assumes "block_of m bl = Some xs" and "0 \<le> b" and "b \<le> e" and "e \<le> int (length xs)"
  shows "scan_back P m bl b e = Some (e - int (length (takeWhile P (rev (window xs b e)))))"
  using assms
proof (induction P m bl b e rule: scan_back.induct)
  case (1 P m bl b e)
  show ?case
  proof (cases "b < e")
    case True
    have "load m bl (e - 1) = Some (xs ! nat (e - 1))"
      using 1 True by (simp add: mem_simps)
    then show ?thesis
      using 1 True by (simp add: scan_back.simps [of P m bl b e] window_snoc)
  next
    case False
    with 1 show ?thesis by (simp add: scan_back.simps)
  qed
qed

subsection \<open>Parts of a well-formed slice\<close>

lemma Slice_wfE:
  assumes "Slice_wf m s"
  obtains xs where "block_of m (m_base s) = Some xs" "0 \<le> m_pb s" "m_pb s \<le> m_pe s"
    "m_pe s \<le> int (length xs)" "length xs < 2 ^ 31" "Slice_str m s = window xs (m_pb s) (m_pe s)"
  using assms by (auto simp: Slice_wf_def Slice_str_def split: option.splits)

lemma Slice_length:
  assumes "Slice_wf m s"
  shows "int (length (Slice_str m s)) = m_pe s - m_pb s" and "length (Slice_str m s) < 2 ^ 31"
  using assms by (auto elim!: Slice_wfE simp: length_window)

lemma Slice_size_eq [view_simps]: "Slice_wf m s \<Longrightarrow> unat (Slice_size s) = length (Slice_str m s)"
proof -
  assume wf: "Slice_wf m s"
  note len = Slice_length [OF wf]
  have "Slice_size s = word_of_int (int (length (Slice_str m s)))"
    by (simp only: Slice_size_def len(1))
  moreover have "length (Slice_str m s) < 2 ^ 32" using len(2) by simp
  ultimately show ?thesis by (simp only: unat_word_of_int_nat)
qed

lemma Slice_size_word: "Slice_wf m s \<Longrightarrow> Slice_size s = word_of_nat (length (Slice_str m s))"
  by (simp flip: Slice_size_eq)

lemma Slice_empty_eq [view_simps]: "Slice_wf m s \<Longrightarrow> Slice_empty s \<longleftrightarrow> Slice_str m s = []"
  using Slice_length [of m s] by (auto simp: Slice_empty_def)

text \<open>A part of a well-formed slice is well formed and covers the corresponding characters.\<close>

lemma Slice_part:
  assumes "Slice_wf m s" and "i + n \<le> length (Slice_str m s)"
  shows "Slice_wf m (Slice_be (m_base s) (m_pb s + int i) (m_pb s + int i + int n))"
    and "Slice_str m (Slice_be (m_base s) (m_pb s + int i) (m_pb s + int i + int n))
         = take n (drop i (Slice_str m s))"
proof -
  obtain xs where xs: "block_of m (m_base s) = Some xs" "0 \<le> m_pb s" "m_pb s \<le> m_pe s"
    "m_pe s \<le> int (length xs)" "length xs < 2 ^ 31" "Slice_str m s = window xs (m_pb s) (m_pe s)"
    using assms(1) by (rule Slice_wfE)
  have le: "m_pb s + int i + int n \<le> m_pe s"
    using assms Slice_length [of m s] by linarith
  then show "Slice_wf m (Slice_be (m_base s) (m_pb s + int i) (m_pb s + int i + int n))"
    using xs by (simp add: Slice_wf_def Slice_be_def)
  show "Slice_str m (Slice_be (m_base s) (m_pb s + int i) (m_pb s + int i + int n))
         = take n (drop i (Slice_str m s))"
    using xs le by (simp add: Slice_str_def Slice_be_def window_drop window_take)
qed

lemma Slice_be_self: "Slice_be (m_base s) (m_pb s) (m_pe s) = (s :: Slice)"
  by (simp add: Slice_be_def)

lemma Slice_set_pb: "s\<lparr>m_pb := b\<rparr> = Slice_be (m_base s) b (m_pe (s :: Slice))"
  by (simp add: Slice_be_def)

text \<open>What is left of a slice when its first \<open>i\<close> characters are eaten.\<close>

lemma Slice_rest:
  assumes "Slice_wf m s" and "i \<le> length (Slice_str m s)"
  shows "Slice_wf m (s\<lparr>m_pb := m_pb s + int i\<rparr>)"
    and "Slice_str m (s\<lparr>m_pb := m_pb s + int i\<rparr>) = drop i (Slice_str m s)"
proof -
  let ?n = "length (Slice_str m s) - i"
  have "m_pb s + int i + int ?n = m_pe s"
    using assms Slice_length(1) [of m s] by linarith
  then have eq: "s\<lparr>m_pb := m_pb s + int i\<rparr>
      = Slice_be (m_base s) (m_pb s + int i) (m_pb s + int i + int ?n)"
    by (simp add: Slice_be_def)
  show "Slice_wf m (s\<lparr>m_pb := m_pb s + int i\<rparr>)"
    and "Slice_str m (s\<lparr>m_pb := m_pb s + int i\<rparr>) = drop i (Slice_str m s)"
    unfolding eq using assms Slice_part [of m s i ?n] by simp_all
qed

section \<open>What each operation does to the characters\<close>

definition word_of :: "string \<Rightarrow> string" where
  "word_of w = takeWhile (\<lambda>c. \<not> isspace c) (dropWhile isspace w)"

definition after_word :: "string \<Rightarrow> string" where
  "after_word w = dropWhile (\<lambda>c. \<not> isspace c) (dropWhile isspace w)"

definition line_of :: "string \<Rightarrow> string" where
  "line_of w = takeWhile (\<lambda>c. c \<noteq> CR \<and> c \<noteq> LF) w"

definition after_line :: "string \<Rightarrow> string" where
  "after_line w = dropWhile (\<lambda>c. c \<noteq> CR \<and> c \<noteq> LF) w"

lemma line_of_after_line: "line_of w @ after_line w = w"
  by (simp add: line_of_def after_line_def)

lemma length_line_of: "length (line_of w) \<le> length w"
  by (simp add: line_of_def length_takeWhile_le)

lemma drop_line_of: "drop (length (line_of w)) w = after_line w"
  by (simp add: line_of_def after_line_def drop_length_takeWhile)

lemma take_line_of: "take (length (line_of w)) w = line_of w"
  by (simp add: line_of_def take_length_takeWhile)

lemma Slice_scan:
  assumes "Slice_wf m s" and "i \<le> length (Slice_str m s)"
  shows "scan P m (m_base s) (m_pb s + int i) (m_pe s)
         = Some (m_pb s + int (i + length (takeWhile P (drop i (Slice_str m s)))))"
proof -
  obtain xs where xs: "block_of m (m_base s) = Some xs" "0 \<le> m_pb s" "m_pb s \<le> m_pe s"
    "m_pe s \<le> int (length xs)" "Slice_str m s = window xs (m_pb s) (m_pe s)"
    using assms(1) by (rule Slice_wfE)
  have "m_pb s + int i \<le> m_pe s"
    using assms Slice_length(1) [of m s] by linarith
  with xs show ?thesis by (simp add: scan_eq window_drop)
qed

lemma Slice_eatWord_ok:
  assumes "Slice_wf m s"
  shows "\<exists>r s'. Slice_eatWord m s = Some (r, s') \<and> Slice_wf m r \<and> Slice_wf m s'
           \<and> Slice_str m r = word_of (Slice_str m s)
           \<and> Slice_str m s' = after_word (Slice_str m s)"
proof -
  let ?w = "Slice_str m s"
  let ?i = "length (takeWhile isspace ?w)"
  let ?n = "length (takeWhile (\<lambda>c. \<not> isspace c) (dropWhile isspace ?w))"
  have le: "?i + ?n \<le> length ?w"
    using length_takeWhile_dropWhile [of isspace ?w]
      length_takeWhile_le [of "\<lambda>c. \<not> isspace c" "dropWhile isspace ?w"] by linarith
  have "Slice_eatWord m s
      = Some (Slice_be (m_base s) (m_pb s + int ?i) (m_pb s + int ?i + int ?n),
              s\<lparr>m_pb := m_pb s + int (?i + ?n)\<rparr>)"
    using Slice_scan [OF assms, of 0 isspace] Slice_scan [OF assms, of ?i "\<lambda>c. \<not> isspace c"] le
    by (simp add: Slice_eatWord_def drop_length_takeWhile add.assoc)
  moreover have "drop (?i + ?n) ?w = after_word ?w" and "take ?n (drop ?i ?w) = word_of ?w"
    by (simp_all add: after_word_def word_of_def drop_length_takeWhile take_length_takeWhile
        add.commute [of ?i] flip: drop_drop)
  ultimately show ?thesis
    using Slice_part [OF assms le] Slice_rest [OF assms le] by auto
qed

lemma Slice_eatLine_ok:
  assumes "Slice_wf m s"
  shows "\<exists>r s'. Slice_eatLine m s = Some (r, s') \<and> Slice_wf m r \<and> Slice_wf m s'
           \<and> Slice_str m r = line_of (Slice_str m s)
           \<and> Slice_str m s' = after_line (Slice_str m s)"
proof -
  let ?w = "Slice_str m s"
  let ?n = "length (line_of ?w)"
  have le: "0 + ?n \<le> length ?w" and n: "?n \<le> length ?w"
    using length_line_of by simp_all
  have "uint (word_of_int (int ?n) :: u32) = int ?n"
    using n Slice_length(2) [OF assms] by (intro uint_word_of_int_nat) simp
  then have "Slice_eatLine m s
      = Some (Slice_be (m_base s) (m_pb s + int 0) (m_pb s + int 0 + int ?n),
              s\<lparr>m_pb := m_pb s + int ?n\<rparr>)"
    using Slice_scan [OF assms, of 0 "\<lambda>c. c \<noteq> CR \<and> c \<noteq> LF"]
    by (simp add: Slice_eatLine_def Slice_dn_def Slice_be_def line_of_def Let_def)
  then show ?thesis
    using Slice_part [OF assms le] Slice_rest [OF assms n]
    by (simp add: drop_line_of take_line_of)
qed

lemma Slice_eat_ok:
  assumes "Slice_wf m s"
  shows "\<exists>r s'. Slice_eat n s = (r, s') \<and> Slice_wf m r \<and> Slice_wf m s'
           \<and> Slice_str m r = take (unat n) (Slice_str m s)
           \<and> Slice_str m s' = drop (unat n) (Slice_str m s)"
proof -
  let ?w = "Slice_str m s"
  let ?sz = "if n > Slice_size s then Slice_size s else n"
  let ?k = "unat ?sz"
  have k: "?k = min (unat n) (length ?w)"
    using Slice_size_eq [OF assms] by (simp add: word_less_nat_alt min_def)
  then have le: "0 + ?k \<le> length ?w" and n: "?k \<le> length ?w" by simp_all
  have "Slice_eat n s = (Slice_be (m_base s) (m_pb s + int 0) (m_pb s + int 0 + int ?k),
              s\<lparr>m_pb := m_pb s + int ?k\<rparr>)"
    by (simp add: Slice_eat_def Slice_dn_def Slice_be_def Let_def)
  then show ?thesis
    using Slice_part [OF assms le] Slice_rest [OF assms n] by (simp add: k min_def)
qed

lemma Slice_sub_ok:
  assumes "Slice_wf m s" and "Slice_str m s \<noteq> []"
  shows "Slice_wf m (Slice_sub 0 (-1) s)" and "Slice_str m (Slice_sub 0 (-1) s) = butlast (Slice_str m s)"
proof -
  let ?n = "length (Slice_str m s) - 1"
  have n: "0 + ?n \<le> length (Slice_str m s)" by simp
  have "int ?n = m_pe s - m_pb s - 1"
    using assms Slice_length(1) [of m s] by (cases "Slice_str m s") auto
  then have "Slice_sub 0 (-1) s = Slice_be (m_base s) (m_pb s + int 0) (m_pb s + int 0 + int ?n)"
    by (simp add: Slice_sub_def Slice_be_def)
  then show "Slice_wf m (Slice_sub 0 (-1) s)"
    and "Slice_str m (Slice_sub 0 (-1) s) = butlast (Slice_str m s)"
    using Slice_part [OF assms(1) n] by (simp_all add: butlast_conv_take)
qed

lemma Slice_back_ok:
  assumes "Slice_wf m s" and "Slice_str m s \<noteq> []"
  shows "Slice_back m s = Some (last (Slice_str m s))"
proof -
  obtain xs where xs: "block_of m (m_base s) = Some xs" "0 \<le> m_pb s" "m_pb s \<le> m_pe s"
    "m_pe s \<le> int (length xs)" "Slice_str m s = window xs (m_pb s) (m_pe s)"
    using assms(1) by (rule Slice_wfE)
  with assms(2) have "m_pb s < m_pe s" by (cases "m_pb s = m_pe s") auto
  with xs show ?thesis by (simp add: Slice_back_def mem_simps window_snoc)
qed

lemma Slice_load_n:
  assumes "Slice_wf m s" and "i + n \<le> length (Slice_str m s)"
  shows "load_n m (m_base s) (m_pb s + int i) n = Some (take n (drop i (Slice_str m s)))"
proof -
  obtain xs where xs: "block_of m (m_base s) = Some xs" "0 \<le> m_pb s" "m_pb s \<le> m_pe s"
    "m_pe s \<le> int (length xs)" "Slice_str m s = window xs (m_pb s) (m_pe s)"
    using assms(1) by (rule Slice_wfE)
  have le: "m_pb s + int i + int n \<le> m_pe s"
    using assms Slice_length(1) [of m s] by linarith
  have "take n (drop i (Slice_str m s)) = window xs (m_pb s + int i) (m_pb s + int i + int n)"
    using xs le by (simp add: window_drop window_take)
  with xs le show ?thesis by (simp add: load_n_eq window_def)
qed

lemma Slice_toString_ok:
  assumes "Slice_wf m s"
  shows "Slice_toString m s = Some (Slice_str m s)"
proof -
  have "nat (m_pe s - m_pb s) = length (Slice_str m s)" and "\<not> m_pe s < m_pb s"
    using Slice_length(1) [OF assms] by linarith+
  with Slice_load_n [OF assms, of 0 "length (Slice_str m s)"] show ?thesis
    by (simp add: Slice_toString_def)
qed

lemma Slice_index_ok:
  assumes "Slice_wf m s" and "unat i < length (Slice_str m s)"
  shows "Slice_index m s i = Some (Slice_str m s ! unat i)"
proof -
  obtain xs where xs: "block_of m (m_base s) = Some xs" "0 \<le> m_pb s" "m_pb s \<le> m_pe s"
    "m_pe s \<le> int (length xs)" "Slice_str m s = window xs (m_pb s) (m_pe s)"
    using assms(1) by (rule Slice_wfE)
  have i: "m_pb s + uint i < m_pe s"
    using assms(2) Slice_length(1) [OF assms(1)] uint_nat [of i] by linarith
  then have "window xs (m_pb s) (m_pe s) ! unat i = xs ! (nat (m_pb s) + unat i)"
    using xs assms(2) by (simp add: window_def)
  moreover have "nat (m_pb s + uint i) = nat (m_pb s) + unat i"
    using xs(2) by (simp add: nat_add_distrib)
  ultimately show ?thesis
    using xs i by (simp add: Slice_index_def mem_simps)
qed

lemma Slice_trimSpace_ok:
  assumes "Slice_wf m s"
  shows "\<exists>s'. Slice_trimSpace m s = Some s' \<and> Slice_wf m s'
           \<and> Slice_str m s' = rev (dropWhile isspace (rev (dropWhile isspace (Slice_str m s))))"
proof -
  let ?w = "Slice_str m s"
  let ?i = "length (takeWhile isspace ?w)"
  let ?v = "dropWhile isspace ?w"
  let ?n = "length (dropWhile isspace (rev ?v))"
  obtain xs where xs: "block_of m (m_base s) = Some xs" "0 \<le> m_pb s" "m_pb s \<le> m_pe s"
    "m_pe s \<le> int (length xs)" "Slice_str m s = window xs (m_pb s) (m_pe s)"
    using assms by (rule Slice_wfE)
  have v: "?i + length ?v = length ?w" by (rule length_takeWhile_dropWhile)
  have n: "length (takeWhile isspace (rev ?v)) + ?n = length ?v"
    using length_takeWhile_dropWhile [of isspace "rev ?v"] by simp
  have pe: "m_pe s = m_pb s + int (length ?w)" using Slice_length(1) [OF assms] by simp
  have win: "window xs (m_pb s + int ?i) (m_pe s) = ?v"
    using xs(2) by (simp only: drop_length_takeWhile xs(5) [symmetric] window_drop [symmetric])
  have "scan_back isspace m (m_base s) (m_pb s + int ?i) (m_pe s)
      = Some (m_pe s - int (length (takeWhile isspace (rev ?v))))"
    using scan_back_eq [OF xs(1), of "m_pb s + int ?i" "m_pe s" isspace, unfolded win] xs(2,4) v pe
    by linarith
  moreover have "m_pe s - int (length (takeWhile isspace (rev ?v))) = m_pb s + int ?i + int ?n"
    using v n pe by linarith
  ultimately have "Slice_trimSpace m s
      = Some (Slice_be (m_base s) (m_pb s + int ?i) (m_pb s + int ?i + int ?n))"
    using Slice_scan [OF assms, of 0 isspace] by (simp add: Slice_trimSpace_def Slice_be_def)
  moreover have "take ?n ?v = rev (dropWhile isspace (rev ?v))"
    by (metis append_eq_conv_conj length_rev rev_append rev_rev_ident takeWhile_dropWhile_id)
  ultimately show ?thesis
    using Slice_part [OF assms, of ?i ?n] v n by (simp add: drop_length_takeWhile)
qed

subsection \<open>Comparison\<close>

definition byte_less :: "(char \<times> char) set" where
  "byte_less = {(x, y). (of_char x :: nat) < of_char y}"

lemma byte_less_cases: "(x, y) \<in> byte_less \<or> x = y \<or> (y, x) \<in> byte_less"
  unfolding byte_less_def using of_char_nat_inject [of x y]
  by (auto simp del: of_char_eq_iff)

text \<open>The three-way result on the characters: common prefix first, then the lengths.\<close>

definition compare3 :: "string \<Rightarrow> string \<Rightarrow> int" where
  "compare3 xs ys = (let k = min (length xs) (length ys);
                         r = memcmp_bytes (take k xs) (take k ys)
     in if r = 0 then (if length xs < length ys then -1 else if length xs > length ys then 1 else r)
        else r)"

lemma compare3_Cons:
  "compare3 (x # xs) (y # ys) =
     (if (x, y) \<in> byte_less then -1 else if (y, x) \<in> byte_less then 1 else compare3 xs ys)"
  by (simp add: compare3_def byte_less_def Let_def)

lemma compare3_Nil [simp]: "compare3 [] ys = (if ys = [] then 0 else -1)" "compare3 (x # xs) [] = 1"
  by (auto simp: compare3_def Let_def)

lemma compare3_sound:
  "(compare3 xs ys = 0 \<longleftrightarrow> xs = ys) \<and> (compare3 xs ys < 0 \<longleftrightarrow> (xs, ys) \<in> lexord byte_less)"
proof (induction xs arbitrary: ys)
  case Nil
  show ?case by (cases ys) auto
next
  case (Cons x xs)
  show ?case
  proof (cases ys)
    case Nil
    then show ?thesis by simp
  next
    case (Cons y ys')
    then show ?thesis
      using Cons.IH [of ys'] byte_less_cases [of x y]
      by (auto simp: compare3_Cons byte_less_def)
  qed
qed

lemma Slice_memcmp_ok:
  assumes "Slice_wf m s" and "Slice_wf m t" and "n \<le> length (Slice_str m s)" and "n \<le> length (Slice_str m t)"
  shows "memcmp m (m_base s) (m_pb s) (m_base t) (m_pb t) n
         = Some (memcmp_bytes (take n (Slice_str m s)) (take n (Slice_str m t)))"
  using Slice_load_n [OF assms(1), of 0 n] Slice_load_n [OF assms(2), of 0 n] assms(3,4)
  by (simp add: memcmp_def)

lemma Slice_compare_ok:
  assumes "Slice_wf m s" and "Slice_wf m t"
  shows "Slice_compare m s t = Some (compare3 (Slice_str m s) (Slice_str m t))"
proof -
  note sz = Slice_size_eq [OF assms(1)] Slice_size_eq [OF assms(2)]
  have "unat (if Slice_size s < Slice_size t then Slice_size s else Slice_size t)
      = min (length (Slice_str m s)) (length (Slice_str m t))"
    using sz by (simp add: word_less_nat_alt min_def)
  then show ?thesis
    using sz by (simp add: Slice_compare_def compare3_def Slice_memcmp_ok assms word_less_nat_alt Let_def)
qed

lemma Slice_eq_ok:
  assumes "Slice_wf m s" and "Slice_wf m t"
  shows "Slice_eq m s t = Some (Slice_str m s = Slice_str m t)"
proof -
  have "Slice_size s = Slice_size t \<longleftrightarrow> length (Slice_str m s) = length (Slice_str m t)"
    using Slice_size_eq [OF assms(1)] Slice_size_eq [OF assms(2)] by (simp add: word_unat_eq_iff)
  then show ?thesis
    by (auto simp: Slice_eq_def Slice_memcmp_ok assms Slice_size_eq [OF assms(2)] memcmp_bytes_eq_0)
qed

lemma Slice_starts_with_ok:
  assumes "Slice_wf m s" and "Slice_wf m x"
  shows "Slice_starts_with m s x
         = Some (take (length (Slice_str m x)) (Slice_str m s) = Slice_str m x)"
proof -
  have le: "Slice_size x \<le> Slice_size s \<longleftrightarrow> length (Slice_str m x) \<le> length (Slice_str m s)"
    using Slice_size_eq [OF assms(1)] Slice_size_eq [OF assms(2)] by (simp add: word_le_nat_alt)
  show ?thesis
  proof (cases "length (Slice_str m x) \<le> length (Slice_str m s)")
    case True
    then show ?thesis
      by (simp add: Slice_starts_with_def le Slice_memcmp_ok assms Slice_size_eq [OF assms(2)]
          memcmp_bytes_eq_0)
  next
    case False
    then show ?thesis by (auto simp: Slice_starts_with_def le)
  qed
qed

lemma Slice_end_with_ok:
  assumes "Slice_wf m s" and "Slice_wf m x"
  shows "Slice_end_with m s x
         = Some (\<exists>pre. Slice_str m s = pre @ Slice_str m x)"
proof -
  let ?n = "length (Slice_str m x)" and ?l = "length (Slice_str m s)"
  have le: "Slice_size x \<le> Slice_size s \<longleftrightarrow> ?n \<le> ?l"
    using Slice_size_eq [OF assms(1)] Slice_size_eq [OF assms(2)] by (simp add: word_le_nat_alt)
  show ?thesis
  proof (cases "?n \<le> ?l")
    case True
    have "m_pe s - uint (Slice_size x) = m_pb s + int (?l - ?n)"
      using Slice_length(1) [OF assms(1)] True uint_nat [of "Slice_size x"] Slice_size_eq [OF assms(2)]
      by linarith
    then have "memcmp m (m_base s) (m_pe s - uint (Slice_size x)) (m_base x) (m_pb x) ?n
        = Some (memcmp_bytes (drop (?l - ?n) (Slice_str m s)) (Slice_str m x))"
      using Slice_load_n [OF assms(1), of "?l - ?n" ?n] Slice_load_n [OF assms(2), of 0 ?n] True
      by (simp add: memcmp_def)
    moreover have "drop (?l - ?n) (Slice_str m s) = Slice_str m x
        \<longleftrightarrow> (\<exists>pre. Slice_str m s = pre @ Slice_str m x)"
      by (metis append_eq_conv_conj append_take_drop_id diff_add_inverse2 length_append)
    ultimately show ?thesis
      using True by (simp add: Slice_end_with_def le Slice_size_eq [OF assms(2)] memcmp_bytes_eq_0)
  next
    case False
    then show ?thesis by (auto simp: Slice_end_with_def le)
  qed
qed

subsection \<open>Splitting\<close>

fun split_on :: "char \<Rightarrow> string \<Rightarrow> string list" where
  "split_on ch [] = [[]]"
| "split_on ch (c # cs) =
     (if c = ch then [] # split_on ch cs
      else (c # hd (split_on ch cs)) # tl (split_on ch cs))"

lemma split_on_neq_Nil [simp]: "split_on ch w \<noteq> []"
  by (cases w) auto

lemma hd_tl_split_on [simp]: "hd (split_on ch w) # tl (split_on ch w) = split_on ch w"
  by simp

text \<open>No piece contains the separator, and joining the pieces with it gives the text back.\<close>

fun join_with :: "char \<Rightarrow> string list \<Rightarrow> string" where
  "join_with ch [] = []"
| "join_with ch [p] = p"
| "join_with ch (p # ps) = p @ ch # join_with ch ps"

lemma join_with_Cons: "ps \<noteq> [] \<Longrightarrow> join_with ch (p # ps) = p @ ch # join_with ch ps"
  by (cases ps) auto

lemma join_with_hd: "ps \<noteq> [] \<Longrightarrow> join_with ch ((c # hd ps) # tl ps) = c # join_with ch ps"
  by (cases ps; cases "tl ps") auto

lemma join_split_on: "join_with ch (split_on ch w) = w"
  by (induction w) (auto simp: join_with_Cons join_with_hd)

lemma split_on_free: "p \<in> set (split_on ch w) \<Longrightarrow> ch \<notin> set p"
proof (induction w arbitrary: p)
  case (Cons c w)
  show ?case
  proof (cases "c = ch")
    case False
    with Cons.prems consider "p = c # hd (split_on ch w)" | "p \<in> set (tl (split_on ch w))"
      by auto
    then show ?thesis
      using Cons.IH False hd_in_set [OF split_on_neq_Nil]
      by cases (auto dest: list.set_sel(2) [OF split_on_neq_Nil])
  qed (use Cons in auto)
qed simp

definition pieces :: "mem \<Rightarrow> Slice list \<Rightarrow> string list" where
  "pieces m r = map (Slice_str m) r"

lemma split_loop_ok:
  assumes "block_of m bl = Some xs" and "length xs < 2 ^ 31" and "0 \<le> pb" and "pb \<le> p" and "p \<le> e"
    and "e \<le> int (length xs)"
  shows "\<exists>rs pb'. split_loop m bl ch pb p e r = Some (r @ rs, pb') \<and> pb \<le> pb' \<and> pb' \<le> e
     \<and> list_all (Slice_wf m) rs
     \<and> pieces m rs @ [window xs pb' e]
       = (window xs pb p @ hd (split_on ch (window xs p e))) # tl (split_on ch (window xs p e))"
  using assms
proof (induction m bl ch pb p e r rule: split_loop.induct)
  case (1 m bl ch pb p e r)
  show ?case
  proof (cases "p < e")
    case False
    with "1.prems" show ?thesis
      by (auto simp: split_loop.simps pieces_def)
  next
    case True
    let ?c = "xs ! nat p"
    have ld: "load m bl p = Some ?c" and win: "window xs p e = ?c # window xs (p + 1) e"
      using "1.prems" True by (simp_all add: mem_simps window_Cons)
    have snoc: "window xs pb (p + 1) = window xs pb p @ [?c]"
      using "1.prems" True window_snoc [of pb "p + 1" xs] by simp
    show ?thesis
    proof (cases "?c = ch")
      case eq: True
      let ?s = "Slice_be bl pb p"
      have s: "Slice_wf m ?s" "Slice_str m ?s = window xs pb p"
        using "1.prems" by (simp_all add: Slice_wf_def Slice_str_def Slice_be_def)
      obtain rs pb' where rs: "split_loop m bl ch (p + 1) (p + 1) e (r @ [?s]) = Some ((r @ [?s]) @ rs, pb')"
        "p + 1 \<le> pb'" "pb' \<le> e" "list_all (Slice_wf m) rs"
        "pieces m rs @ [window xs pb' e] = split_on ch (window xs (p + 1) e)"
        using "1.IH"(1) [OF True ld eq] "1.prems" True by auto
      have "split_loop m bl ch pb p e r = Some (r @ (?s # rs), pb')"
        using rs(1) True ld eq by (simp add: split_loop.simps [of m bl ch pb p e r])
      moreover have "pieces m (?s # rs) @ [window xs pb' e] = window xs pb p # split_on ch (window xs (p + 1) e)"
        using rs(5) s(2) by (simp add: pieces_def)
      ultimately show ?thesis
        using rs(2-4) s(1) "1.prems" eq
        by (intro exI [of _ "?s # rs"] exI [of _ pb']) (simp add: win)
    next
      case neq: False
      obtain rs pb' where rs: "split_loop m bl ch pb (p + 1) e r = Some (r @ rs, pb')"
        "pb \<le> pb'" "pb' \<le> e" "list_all (Slice_wf m) rs"
        "pieces m rs @ [window xs pb' e]
         = (window xs pb (p + 1) @ hd (split_on ch (window xs (p + 1) e))) # tl (split_on ch (window xs (p + 1) e))"
        using "1.IH"(2) [OF True ld neq] "1.prems" True by auto
      have "split_loop m bl ch pb p e r = Some (r @ rs, pb')"
        using rs(1) True ld neq by (simp add: split_loop.simps [of m bl ch pb p e r])
      then show ?thesis
        using rs(2-5) neq by (simp add: win snoc)
    qed
  qed
qed

lemma Slice_split_ok:
  assumes "Slice_wf m s"
  shows "\<exists>r. Slice_split m ch s = Some r \<and> list_all (Slice_wf m) r
         \<and> pieces m r = (if Slice_str m s = [] then [] else split_on ch (Slice_str m s))"
proof -
  obtain xs where xs: "block_of m (m_base s) = Some xs" "0 \<le> m_pb s" "m_pb s \<le> m_pe s"
    "m_pe s \<le> int (length xs)" "length xs < 2 ^ 31" "Slice_str m s = window xs (m_pb s) (m_pe s)"
    using assms by (rule Slice_wfE)
  obtain rs pb' where rs: "split_loop m (m_base s) ch (m_pb s) (m_pb s) (m_pe s) [] = Some (rs, pb')"
    "m_pb s \<le> pb'" "pb' \<le> m_pe s" "list_all (Slice_wf m) rs"
    "pieces m rs @ [window xs pb' (m_pe s)] = split_on ch (Slice_str m s)"
    using split_loop_ok [OF xs(1,5,2) order_refl xs(3,4), of ch "[]"] xs(6) by auto
  let ?l = "Slice_be (m_base s) pb' (m_pe s)"
  have l: "Slice_wf m ?l" "Slice_str m ?l = window xs pb' (m_pe s)"
    using xs rs by (simp_all add: Slice_wf_def Slice_str_def Slice_be_def)
  show ?thesis
  proof (cases "Slice_str m s = []")
    case True
    then have "m_pe s = m_pb s" using Slice_length(1) [OF assms] by simp
    moreover from rs(5) True have "rs = []" by (cases rs) (auto simp: pieces_def)
    ultimately show ?thesis using rs(1) True by (simp add: Slice_split_def pieces_def)
  next
    case False
    then have "m_pe s \<noteq> m_pb s" using Slice_length(1) [OF assms] by auto
    then show ?thesis using rs(1,4,5) l False by (simp add: Slice_split_def pieces_def)
  qed
qed

section \<open>The interface the decoder relies on\<close>

text \<open>
  A view of characters in some memory \<open>'m\<close>, from which words, lines and a fixed number of
  characters are eaten. The laws are what a decoder may rely on: operations on a well-formed view
  complete, leave well-formed views, and act on the characters as the list functions say.
\<close>

locale char_view =
  fixes wf :: "'m \<Rightarrow> 's \<Rightarrow> bool"
    and str :: "'m \<Rightarrow> 's \<Rightarrow> string"
    and eatWord :: "'m \<Rightarrow> 's \<Rightarrow> ('s \<times> 's) option"
    and eatLine :: "'m \<Rightarrow> 's \<Rightarrow> ('s \<times> 's) option"
    and eat :: "size_t \<Rightarrow> 's \<Rightarrow> 's \<times> 's"
    and chop :: "'s \<Rightarrow> 's"
    and final :: "'m \<Rightarrow> 's \<Rightarrow> char option"
    and toString :: "'m \<Rightarrow> 's \<Rightarrow> string option"
    and empty :: "'s \<Rightarrow> bool"
  assumes eatWord_law: "wf m s \<Longrightarrow> \<exists>r s'. eatWord m s = Some (r, s') \<and> wf m r \<and> wf m s'
      \<and> str m r = word_of (str m s) \<and> str m s' = after_word (str m s)"
    and eatLine_law: "wf m s \<Longrightarrow> \<exists>r s'. eatLine m s = Some (r, s') \<and> wf m r \<and> wf m s'
      \<and> str m r = line_of (str m s) \<and> str m s' = after_line (str m s)"
    and eat_law: "wf m s \<Longrightarrow> \<exists>r s'. eat n s = (r, s') \<and> wf m r \<and> wf m s'
      \<and> str m r = take (unat n) (str m s) \<and> str m s' = drop (unat n) (str m s)"
    and chop_law: "wf m s \<Longrightarrow> str m s \<noteq> [] \<Longrightarrow> wf m (chop s) \<and> str m (chop s) = butlast (str m s)"
    and final_law: "wf m s \<Longrightarrow> str m s \<noteq> [] \<Longrightarrow> final m s = Some (last (str m s))"
    and toString_law: "wf m s \<Longrightarrow> toString m s = Some (str m s)"
    and empty_law: "wf m s \<Longrightarrow> empty s \<longleftrightarrow> str m s = []"
begin

lemma two_words:
  assumes "wf m s"
  shows "\<exists>k s1 v s2. eatWord m s = Some (k, s1) \<and> eatWord m s1 = Some (v, s2)
    \<and> wf m k \<and> wf m v \<and> wf m s2
    \<and> str m k = word_of (str m s) \<and> str m v = word_of (after_word (str m s))
    \<and> str m s2 = after_word (after_word (str m s))"
  using eatWord_law [OF assms] eatWord_law [of m] by metis

lemma three_words:
  assumes "wf m s"
  shows "\<exists>a s1 b s2 c s3. eatWord m s = Some (a, s1) \<and> eatWord m s1 = Some (b, s2)
    \<and> eatWord m s2 = Some (c, s3) \<and> wf m a \<and> wf m b \<and> wf m c
    \<and> str m a = word_of (str m s) \<and> str m b = word_of (after_word (str m s))
    \<and> str m c = word_of (after_word (after_word (str m s)))"
proof -
  obtain a s1 b s2 where "eatWord m s = Some (a, s1)" "eatWord m s1 = Some (b, s2)"
    "wf m a" "wf m b" "wf m s2"
    "str m a = word_of (str m s)" "str m b = word_of (after_word (str m s))"
    "str m s2 = after_word (after_word (str m s))"
    using two_words [OF assms] by blast
  moreover from this obtain c s3 where "eatWord m s2 = Some (c, s3)" "wf m c"
    "str m c = word_of (after_word (after_word (str m s)))"
    using eatWord_law [of m s2] by auto
  ultimately show ?thesis by blast
qed

text \<open>The line after an end of line of two characters.\<close>

lemma skip_then_line:
  assumes "wf m s"
  shows "\<exists>e s1 l s2. eat 2 s = (e, s1) \<and> eatLine m s1 = Some (l, s2) \<and> wf m l \<and> wf m s2
    \<and> str m l = line_of (drop 2 (str m s)) \<and> str m s2 = after_line (drop 2 (str m s))"
proof -
  obtain e s1 where e: "eat 2 s = (e, s1)" "wf m s1" "str m s1 = drop 2 (str m s)"
    using eat_law [OF assms, of 2] by auto
  obtain l s2 where "eatLine m s1 = Some (l, s2)" "wf m l" "wf m s2"
    "str m l = line_of (str m s1)" "str m s2 = after_line (str m s1)"
    using eatLine_law [OF e(2)] by blast
  with e show ?thesis by auto
qed

end

interpretation slice_view: char_view Slice_wf Slice_str Slice_eatWord Slice_eatLine Slice_eat
  "Slice_sub 0 (-1)" Slice_back Slice_toString Slice_empty
  by unfold_locales
     (simp_all only: Slice_eatWord_ok Slice_eatLine_ok Slice_eat_ok Slice_sub_ok Slice_back_ok
       Slice_toString_ok Slice_empty_eq simp_thms)

section \<open>Properties\<close>

text \<open>
  \<^verbatim>\<open>eatWord\<close> on a well-formed slice reads no byte outside it and cuts the text into white space
  (skipped), a word without white space (returned) and the rest (kept in the slice), where the rest
  is empty or starts with white space; no word is returned only if nothing is left.
\<close>

theorem eatWord_cuts_word:
  assumes "Slice_wf m s"
  shows "\<exists>r s' sp. Slice_eatWord m s = Some (r, s') \<and> Slice_wf m r \<and> Slice_wf m s'
     \<and> Slice_str m s = sp @ Slice_str m r @ Slice_str m s'
     \<and> list_all isspace sp \<and> list_all (\<lambda>c. \<not> isspace c) (Slice_str m r)
     \<and> (Slice_str m s' = [] \<or> isspace (hd (Slice_str m s')))
     \<and> (Slice_str m r = [] \<longrightarrow> Slice_str m s' = [])"
proof -
  let ?w = "Slice_str m s"
  obtain r s' where 1: "Slice_eatWord m s = Some (r, s')" "Slice_wf m r" "Slice_wf m s'"
    "Slice_str m r = word_of ?w" "Slice_str m s' = after_word ?w"
    using Slice_eatWord_ok [OF assms] by blast
  have "?w = takeWhile isspace ?w @ word_of ?w @ after_word ?w"
    by (simp add: word_of_def after_word_def)
  moreover have "list_all isspace (takeWhile isspace ?w)" "list_all (\<lambda>c. \<not> isspace c) (word_of ?w)"
    by (auto simp: list_all_iff word_of_def dest: set_takeWhileD)
  moreover have "after_word ?w = [] \<or> isspace (hd (after_word ?w))"
    using hd_dropWhile [of "\<lambda>c. \<not> isspace c"] by (auto simp: after_word_def)
  moreover have "word_of ?w = [] \<longrightarrow> after_word ?w = []"
    using hd_dropWhile [of isspace ?w] unfolding word_of_def after_word_def
    by (metis dropWhile.simps(1) takeWhile_eq_Nil_iff)
  ultimately show ?thesis using 1 by metis
qed

theorem eatWord_cuts_word_witness:
  "\<exists>r s' sp. Slice_eatWord [Some ''  GET /x''] \<lparr>m_base = Heap 0, m_pb = 0, m_pe = 8\<rparr> = Some (r, s')
     \<and> ''  GET /x'' = sp @ Slice_str [Some ''  GET /x''] r @ Slice_str [Some ''  GET /x''] s'
     \<and> list_all isspace sp \<and> list_all (\<lambda>c. \<not> isspace c) (Slice_str [Some ''  GET /x''] r)"
  using eatWord_cuts_word [of "[Some ''  GET /x'']" "\<lparr>m_base = Heap 0, m_pb = 0, m_pe = 8\<rparr>"]
  by (auto simp: Slice_wf_def Slice_str_def window_def)

text \<open>
  \<^verbatim>\<open>eatLine\<close> on a well-formed slice returns the longest prefix without CR and LF and leaves the
  rest, which is empty or starts with CR or LF; nothing is lost and nothing outside is read.
\<close>

theorem eatLine_cuts_line:
  assumes "Slice_wf m s"
  shows "\<exists>r s'. Slice_eatLine m s = Some (r, s') \<and> Slice_wf m r \<and> Slice_wf m s'
     \<and> Slice_str m s = Slice_str m r @ Slice_str m s'
     \<and> CR \<notin> set (Slice_str m r) \<and> LF \<notin> set (Slice_str m r)
     \<and> (Slice_str m s' = [] \<or> hd (Slice_str m s') \<in> {CR, LF})"
proof -
  let ?w = "Slice_str m s"
  obtain r s' where 1: "Slice_eatLine m s = Some (r, s')" "Slice_wf m r" "Slice_wf m s'"
    "Slice_str m r = line_of ?w" "Slice_str m s' = after_line ?w"
    using Slice_eatLine_ok [OF assms] by blast
  moreover have "CR \<notin> set (line_of ?w)" "LF \<notin> set (line_of ?w)"
    by (auto simp: line_of_def dest: set_takeWhileD)
  moreover have "after_line ?w = [] \<or> hd (after_line ?w) \<in> {CR, LF}"
    using hd_dropWhile [of "\<lambda>c. c \<noteq> CR \<and> c \<noteq> LF" ?w] by (auto simp: after_line_def)
  ultimately show ?thesis using line_of_after_line [of ?w] by auto
qed

theorem eatLine_cuts_line_witness:
  "\<exists>r s'. Slice_eatLine [Some [CHR ''a'', CR, LF]] \<lparr>m_base = Heap 0, m_pb = 0, m_pe = 3\<rparr> = Some (r, s')
     \<and> [CHR ''a'', CR, LF] = Slice_str [Some [CHR ''a'', CR, LF]] r @ Slice_str [Some [CHR ''a'', CR, LF]] s'
     \<and> CR \<notin> set (Slice_str [Some [CHR ''a'', CR, LF]] r)"
  using eatLine_cuts_line [of "[Some [CHR ''a'', CR, LF]]" "\<lparr>m_base = Heap 0, m_pb = 0, m_pe = 3\<rparr>"]
  by (auto simp: Slice_wf_def Slice_str_def window_def)

text \<open>
  C23. Comparing slices. On any two slices that lie in memory, \<^verbatim>\<open>compare\<close> reads only their own bytes and returns; its
  result is 0 exactly when the two texts are equal, and negative exactly when the first comes before the second in the
  lexicographic order by unsigned bytes, a proper prefix coming first. \<^verbatim>\<open>operator<\<close>, \<^verbatim>\<open>operator==\<close> and \<^verbatim>\<open>operator!=\<close>
  agree with it.
\<close>

theorem compare_is_lexicographic:
  assumes "Slice_wf m s" and "Slice_wf m t"
  shows "\<exists>r. Slice_compare m s t = Some r
     \<and> (r = 0 \<longleftrightarrow> Slice_str m s = Slice_str m t)
     \<and> (r < 0 \<longleftrightarrow> (Slice_str m s, Slice_str m t) \<in> lexord {(x, y). (of_char x :: nat) < of_char y})
     \<and> Slice_less m s t = Some (r < 0) \<and> Slice_eq m s t = Some (r = 0) \<and> Slice_neq m s t = Some (r \<noteq> 0)"
  using assms compare3_sound [of "Slice_str m s" "Slice_str m t"]
  by (simp add: Slice_compare_ok Slice_less_def Slice_eq_ok Slice_neq_def byte_less_def)

theorem compare_is_lexicographic_witness:
  "\<exists>r. Slice_compare [] (Slice_string ''Host'') (Slice_string ''Hosts'') = Some r \<and> r < 0"
proof -
  have wf: "Slice_wf [] (Slice_string ''Host'')" "Slice_wf [] (Slice_string ''Hosts'')"
    by (simp_all add: Slice_wf_def Slice_string_def)
  have "(Slice_str [] (Slice_string ''Host''), Slice_str [] (Slice_string ''Hosts''))
      \<in> lexord {(x, y). (of_char x :: nat) < of_char y}"
    by (simp add: Slice_str_def Slice_string_def window_def)
  with compare_is_lexicographic [OF wf] show ?thesis by auto
qed

text \<open>
  C30. \<^verbatim>\<open>split\<close> on a well-formed slice gives well-formed slices whose texts do not contain the
  separator and, joined with it, are the text that was split; an empty slice gives no piece.
\<close>

theorem split_roundtrip:
  assumes "Slice_wf m s"
  shows "\<exists>r. Slice_split m ch s = Some r \<and> list_all (Slice_wf m) r
     \<and> join_with ch (map (Slice_str m) r) = Slice_str m s
     \<and> list_all (\<lambda>p. ch \<notin> set (Slice_str m p)) r \<and> (r = [] \<longleftrightarrow> Slice_str m s = [])"
proof -
  obtain r where r: "Slice_split m ch s = Some r" "list_all (Slice_wf m) r"
    "pieces m r = (if Slice_str m s = [] then [] else split_on ch (Slice_str m s))"
    using Slice_split_ok [OF assms] by blast
  have "list_all (\<lambda>p. ch \<notin> set (Slice_str m p)) r"
    using r(3) split_on_free [of _ ch "Slice_str m s"]
    by (auto simp: pieces_def list_all_iff split: if_splits) (metis imageI image_set)
  then show ?thesis
    using r join_split_on [of ch "Slice_str m s"] by (auto simp: pieces_def split: if_splits)
qed

theorem split_roundtrip_witness:
  "\<exists>r. Slice_split [] (CHR ''/'') (Slice_string ''a/b'') = Some r
     \<and> join_with (CHR ''/'') (map (Slice_str []) r) = ''a/b''"
  using split_roundtrip [of "[]" "Slice_string ''a/b''" "CHR ''/''"]
  by (auto simp: Slice_wf_def Slice_string_def Slice_str_def window_def)

end
