(* ===== verification/Buffer.thy ===== *)
theory Buffer
  imports Slice
begin

text \<open>
  The class \<^verbatim>\<open>Buffer\<close> (Buffer.h, Buffer.cpp): a growing byte buffer in memory obtained from
  \<^verbatim>\<open>VirtualAlloc\<close>. \<^verbatim>\<open>m_pBegin\<close> always points at the start of the region, so it is a base; \<^verbatim>\<open>m_pEnd\<close>
  is kept as its distance from \<^verbatim>\<open>m_pBegin\<close>. Every operation takes the memory and the buffer and
  returns both.

  The operating system's allocator is not part of the program. Which requests it grants is the
  parameter \<open>va\<close> (request number and size); what the program relies on is that a granted region
  is new and zero-filled, that a refused request gives the null pointer, and, as the hypothesis
  \<open>alloc_ok\<close>, that requests of zero bytes are refused and requests that fit the two-gigabyte user
  address space of a Win32 process are granted.
\<close>

section \<open>The class\<close>

record Buffer =
  m_pBegin :: base
  m_pEnd :: int
  m_nSize :: u32

type_synonym allocator = "nat \<Rightarrow> u32 \<Rightarrow> bool"

definition alloc_ok :: "allocator \<Rightarrow> bool" where
  "alloc_ok va \<longleftrightarrow> (\<forall>k n. va k n \<longleftrightarrow> 0 < unat n \<and> unat n < 2 ^ 31)"

definition virtual_alloc :: "allocator \<Rightarrow> mem \<Rightarrow> u32 \<Rightarrow> base \<times> mem" where
  "virtual_alloc va m n =
     (if va (length m) n then (Heap (length m), m @ [Some (replicate (unat n) NUL)]) else (Null, m))"

fun virtual_free :: "mem \<Rightarrow> base \<Rightarrow> mem" where
  "virtual_free m (Heap a) = m[a := None]"
| "virtual_free m _ = m"

definition Buffer_ctor :: Buffer where
  "Buffer_ctor = \<lparr>m_pBegin = Null, m_pEnd = 0, m_nSize = 0\<rparr>"

definition Buffer_dtor :: "mem \<Rightarrow> Buffer \<Rightarrow> mem" where
  "Buffer_dtor m b = (if m_pBegin b \<noteq> Null then virtual_free m (m_pBegin b) else m)"

definition Buffer_getBufferLen :: "Buffer \<Rightarrow> u32" where
  "Buffer_getBufferLen b = (if m_pBegin b = Null then 0 else word_of_int (m_pEnd b))"

definition Buffer_getMemSize :: "Buffer \<Rightarrow> u32" where
  "Buffer_getMemSize b = m_nSize b"

definition Buffer_getBuffer :: "Buffer \<Rightarrow> u32 \<Rightarrow> base \<times> int" where
  "Buffer_getBuffer b nPos = (m_pBegin b, uint nPos)"

definition Buffer_toSlice :: "Buffer \<Rightarrow> Slice" where
  "Buffer_toSlice b = Slice_dn (m_pBegin b) 0 (Buffer_getBufferLen b)"

text \<open>\<^verbatim>\<open>(UINT)ceil(nSize / 1024.0) * 1024\<close>: the quotient is exact in double precision, the product wraps.\<close>

definition round_1024 :: "u32 \<Rightarrow> u32" where
  "round_1024 n = word_of_nat ((unat n + 1023) div 1024) * 1024"

text \<open>The common tail of \<^verbatim>\<open>reallocateBuffer\<close> and \<^verbatim>\<open>deallocateBuffer\<close>: move to a region of the new size.\<close>

definition Buffer_move :: "allocator \<Rightarrow> mem \<Rightarrow> Buffer \<Rightarrow> u32 \<Rightarrow> (u32 \<times> Buffer \<times> mem) option" where
  "Buffer_move va m b nNewSize = do {
     let (pNewBuffer, m1) = virtual_alloc va m nNewSize;
     let nBufferLen = Buffer_getBufferLen b;
     m2 \<leftarrow> move_memory m1 pNewBuffer 0 (m_pBegin b) 0 (unat nBufferLen);
     let m3 = (if m_pBegin b \<noteq> Null then virtual_free m2 (m_pBegin b) else m2);
     Some (nNewSize, b\<lparr>m_pBegin := pNewBuffer, m_pEnd := uint nBufferLen, m_nSize := nNewSize\<rparr>, m3) }"

definition Buffer_reallocateBuffer :: "allocator \<Rightarrow> mem \<Rightarrow> Buffer \<Rightarrow> u32 \<Rightarrow> (u32 \<times> Buffer \<times> mem) option" where
  "Buffer_reallocateBuffer va m b nSize =
     (if nSize < Buffer_getMemSize b then Some (0, b, m)
      else Buffer_move va m b (round_1024 nSize))"

definition Buffer_deallocateBuffer :: "allocator \<Rightarrow> mem \<Rightarrow> Buffer \<Rightarrow> u32 \<Rightarrow> (u32 \<times> Buffer \<times> mem) option" where
  "Buffer_deallocateBuffer va m b nSize =
     (if nSize < Buffer_getBufferLen b then Some (0, b, m)
      else let nNewSize = round_1024 nSize in
        if nNewSize < Buffer_getMemSize b then Some (0, b, m)
        else Buffer_move va m b nNewSize)"

definition Buffer_clear :: "allocator \<Rightarrow> mem \<Rightarrow> Buffer \<Rightarrow> (Buffer \<times> mem) option" where
  "Buffer_clear va m b = do {
     (_, b1, m1) \<leftarrow> Buffer_deallocateBuffer va m (b\<lparr>m_pEnd := 0\<rparr>) 1024;
     Some (b1, m1) }"

definition Buffer_remove :: "allocator \<Rightarrow> mem \<Rightarrow> Buffer \<Rightarrow> u32 \<Rightarrow> (u32 \<times> Buffer \<times> mem) option" where
  "Buffer_remove va m b nSize =
     (if nSize > Buffer_getMemSize b then Some (0, b, m)
      else do {
        let nSize = (if nSize > Buffer_getBufferLen b then Buffer_getBufferLen b else nSize);
        (b1, m1) \<leftarrow> (if nSize \<noteq> 0 then do {
            m1 \<leftarrow> move_memory m (m_pBegin b) 0 (m_pBegin b) (uint nSize)
                    (unat (Buffer_getMemSize b - nSize));
            Some (b\<lparr>m_pEnd := m_pEnd b - uint nSize\<rparr>, m1) }
          else Some (b, m));
        (_, b2, m2) \<leftarrow> Buffer_deallocateBuffer va m1 b1 (Buffer_getBufferLen b1);
        Some (nSize, b2, m2) })"

text \<open>\<^verbatim>\<open>read\<close> also copies the bytes out; they are the first component of the result.\<close>

definition Buffer_read :: "allocator \<Rightarrow> mem \<Rightarrow> Buffer \<Rightarrow> u32 \<Rightarrow> (string \<times> u32 \<times> Buffer \<times> mem) option" where
  "Buffer_read va m b nSize =
     (if nSize > Buffer_getMemSize b then Some ([], 0, b, m)
      else do {
        let nSize = (if nSize > Buffer_getBufferLen b then Buffer_getBufferLen b else nSize);
        (pData, b1, m1) \<leftarrow> (if nSize \<noteq> 0 then do {
            pData \<leftarrow> load_n m (m_pBegin b) 0 (unat nSize);
            m1 \<leftarrow> move_memory m (m_pBegin b) 0 (m_pBegin b) (uint nSize)
                    (unat (Buffer_getMemSize b - nSize));
            Some (pData, b\<lparr>m_pEnd := m_pEnd b - uint nSize\<rparr>, m1) }
          else Some ([], b, m));
        (_, b2, m2) \<leftarrow> Buffer_deallocateBuffer va m1 b1 (Buffer_getBufferLen b1);
        Some (pData, nSize, b2, m2) })"

text \<open>\<^verbatim>\<open>pData\<close> is the pointer \<open>(src, si)\<close>; the \<^verbatim>\<open>BOOL\<close> returned is the size.\<close>

definition Buffer_write :: "allocator \<Rightarrow> mem \<Rightarrow> Buffer \<Rightarrow> base \<Rightarrow> int \<Rightarrow> u32 \<Rightarrow> (u32 \<times> Buffer \<times> mem) option" where
  "Buffer_write va m b src si nSize = do {
     (_, b1, m1) \<leftarrow> Buffer_reallocateBuffer va m b (nSize + Buffer_getBufferLen b);
     m2 \<leftarrow> move_memory m1 (m_pBegin b1) (m_pEnd b1) src si (unat nSize);
     Some (nSize, b1\<lparr>m_pEnd := m_pEnd b1 + uint nSize\<rparr>, m2) }"

definition Buffer_write_string :: "allocator \<Rightarrow> mem \<Rightarrow> Buffer \<Rightarrow> string \<Rightarrow> (u32 \<times> Buffer \<times> mem) option" where
  "Buffer_write_string va m b s = Buffer_write va m b (Lit s) 0 (word_of_nat (length s))"

definition Buffer_insert :: "allocator \<Rightarrow> mem \<Rightarrow> Buffer \<Rightarrow> base \<Rightarrow> int \<Rightarrow> u32 \<Rightarrow> (u32 \<times> Buffer \<times> mem) option" where
  "Buffer_insert va m b src si nSize = do {
     (_, b1, m1) \<leftarrow> Buffer_reallocateBuffer va m b (nSize + Buffer_getBufferLen b);
     m2 \<leftarrow> move_memory m1 (m_pBegin b1) (uint nSize) (m_pBegin b1) 0
             (unat (Buffer_getMemSize b1 - nSize));
     m3 \<leftarrow> move_memory m2 (m_pBegin b1) 0 src si (unat nSize);
     Some (nSize, b1\<lparr>m_pEnd := m_pEnd b1 + uint nSize\<rparr>, m3) }"

definition Buffer_insert_string :: "allocator \<Rightarrow> mem \<Rightarrow> Buffer \<Rightarrow> string \<Rightarrow> (u32 \<times> Buffer \<times> mem) option" where
  "Buffer_insert_string va m b s = Buffer_insert va m b (Lit s) 0 (word_of_nat (length s))"

definition Buffer_copy :: "allocator \<Rightarrow> mem \<Rightarrow> Buffer \<Rightarrow> Buffer \<Rightarrow> (Buffer \<times> mem) option" where
  "Buffer_copy va m b buf = do {
     let nReSize = Buffer_getMemSize buf;
     let nSize = Buffer_getBufferLen buf;
     (b1, m1) \<leftarrow> Buffer_clear va m b;
     (_, b2, m2) \<leftarrow> Buffer_reallocateBuffer va m1 b1 nReSize;
     let b3 = b2\<lparr>m_pEnd := uint nSize\<rparr>;
     m3 \<leftarrow> move_memory m2 (m_pBegin b3) 0 (m_pBegin buf) 0 (unat (Buffer_getBufferLen buf));
     Some (b3, m3) }"

text \<open>
  \<^verbatim>\<open>strstr\<close> on C strings: at each position the needle is compared byte by byte, and the search ends at
  the NUL of the haystack. It may run past the end of the data, and past the region.
\<close>

fun match_at :: "mem \<Rightarrow> base \<Rightarrow> int \<Rightarrow> string \<Rightarrow> bool option" where
  "match_at m bl i [] = Some True"
| "match_at m bl i (c # cs) = (case load m bl i of None \<Rightarrow> None
     | Some d \<Rightarrow> if d = c then match_at m bl (i + 1) cs else Some False)"

function strstr_from :: "mem \<Rightarrow> base \<Rightarrow> int \<Rightarrow> string \<Rightarrow> int option option" where
  "strstr_from m bl i needle = (case match_at m bl i needle of None \<Rightarrow> None
     | Some True \<Rightarrow> Some (Some i)
     | Some False \<Rightarrow> (case load m bl i of None \<Rightarrow> None
         | Some c \<Rightarrow> if c = NUL then Some None else strstr_from m bl (i + 1) needle))"
  by pat_completeness auto
termination
  by (relation "measure (\<lambda>(m, bl, i, needle). case block_of m bl of None \<Rightarrow> 0
        | Some xs \<Rightarrow> nat (int (length xs) - i))")
     (auto simp: load_def split: option.splits if_splits)

declare strstr_from.simps [simp del]

definition Buffer_scan :: "mem \<Rightarrow> Buffer \<Rightarrow> string \<Rightarrow> u32 \<Rightarrow> int option" where
  "Buffer_scan m b pScan nPos =
     (if nPos > Buffer_getBufferLen b then Some (-1)
      else do {
        pStr \<leftarrow> strstr_from m (m_pBegin b) (uint nPos) pScan;
        Some (case pStr of None \<Rightarrow> 0 | Some p \<Rightarrow> p + int (length pScan)) })"

section \<open>Well-formed buffers\<close>

text \<open>\<open>Buffer_rep m b xs k\<close>: the region of \<open>b\<close> holds \<open>xs\<close>, of which the first \<open>k\<close> bytes are data.\<close>

definition Buffer_rep :: "mem \<Rightarrow> Buffer \<Rightarrow> string \<Rightarrow> nat \<Rightarrow> bool" where
  "Buffer_rep m b xs k \<longleftrightarrow>
     (case m_pBegin b of Lit _ \<Rightarrow> False | _ \<Rightarrow> block_of m (m_pBegin b) = Some xs)
     \<and> m_pEnd b = int k \<and> k \<le> length xs \<and> unat (m_nSize b) = length xs \<and> length xs < 2 ^ 31"

definition Buffer_wf :: "mem \<Rightarrow> Buffer \<Rightarrow> bool" where
  "Buffer_wf m b = (case block_of m (m_pBegin b) of None \<Rightarrow> False
     | Some xs \<Rightarrow> Buffer_rep m b xs (nat (m_pEnd b)))"

definition Buffer_str :: "mem \<Rightarrow> Buffer \<Rightarrow> string" where
  "Buffer_str m b = (case block_of m (m_pBegin b) of None \<Rightarrow> [] | Some xs \<Rightarrow> take (nat (m_pEnd b)) xs)"

lemma Buffer_rep_wf: "Buffer_rep m b xs k \<Longrightarrow> Buffer_wf m b \<and> Buffer_str m b = take k xs"
  by (auto simp: Buffer_rep_def Buffer_wf_def Buffer_str_def split: base.splits)

lemma Buffer_wfE:
  assumes "Buffer_wf m b"
  obtains xs k where "Buffer_rep m b xs k" "Buffer_str m b = take k xs"
  using assms Buffer_rep_wf by (auto simp: Buffer_wf_def split: option.splits)

lemma Buffer_rep_block:
  assumes "Buffer_rep m b xs k"
  shows "block_of m (m_pBegin b) = Some xs" and "m_pEnd b = int k" and "k \<le> length xs"
    and "length xs < 2 ^ 31"
    and "m_pBegin b = Null \<and> xs = [] \<or> (\<exists>a. m_pBegin b = Heap a \<and> a < length m \<and> m ! a = Some xs)"
  using assms by (auto simp: Buffer_rep_def split: base.splits if_splits)

lemma Buffer_rep_len [view_simps]:
  assumes "Buffer_rep m b xs k"
  shows "unat (Buffer_getBufferLen b) = k"
proof -
  have "k < 2 ^ 32" using assms by (auto simp: Buffer_rep_def)
  then show ?thesis
    using assms unat_word_of_int_nat [of k]
    by (auto simp: Buffer_getBufferLen_def Buffer_rep_def split: base.splits)
qed

lemma Buffer_rep_uint_len: "Buffer_rep m b xs k \<Longrightarrow> uint (Buffer_getBufferLen b) = int k"
  by (simp add: uint_nat Buffer_rep_len)

lemma Buffer_rep_memsize [view_simps]: "Buffer_rep m b xs k \<Longrightarrow> unat (Buffer_getMemSize b) = length xs"
  by (simp add: Buffer_getMemSize_def Buffer_rep_def)

lemma Buffer_len_str: "Buffer_wf m b \<Longrightarrow> unat (Buffer_getBufferLen b) = length (Buffer_str m b)"
  by (erule Buffer_wfE) (simp add: Buffer_rep_len Buffer_rep_block(3) min_absorb2)

section \<open>What the operations do to the region\<close>

definition up1024 :: "nat \<Rightarrow> nat" where
  "up1024 n = (n + 1023) div 1024 * 1024"

lemma up1024_bounds: "n \<le> up1024 n" "up1024 n \<le> n + 1023"
  unfolding up1024_def by linarith+

lemma up1024_0 [simp]: "up1024 0 = 0"
  by (simp add: up1024_def)

lemma unat_round_1024: "unat n + 1024 \<le> 2 ^ 31 \<Longrightarrow> unat (round_1024 n) = up1024 (unat n)"
  using up1024_bounds(2) [of "unat n"]
  by (simp add: round_1024_def unat_mult_lem [THEN iffD1] unat_of_nat up1024_def unat_word_ariths)

text \<open>
  \<open>own_step m b m' b'\<close>: from \<open>(m, b)\<close> to \<open>(m', b')\<close> only the buffer's own region and regions new
  since \<open>m\<close> changed.
\<close>

definition own_step :: "mem \<Rightarrow> Buffer \<Rightarrow> mem \<Rightarrow> Buffer \<Rightarrow> bool" where
  "own_step m b m' b' \<longleftrightarrow> length m \<le> length m'
     \<and> (\<forall>bl xs. bl \<noteq> m_pBegin b \<longrightarrow> block_of m bl = Some xs \<longrightarrow> block_of m' bl = Some xs)
     \<and> (m_pBegin b' = m_pBegin b \<or> m_pBegin b' = Null \<or> (\<exists>a\<ge>length m. m_pBegin b' = Heap a))"

lemma own_step_refl: "m_pBegin b' = m_pBegin b \<Longrightarrow> own_step m b m b'"
  by (simp add: own_step_def)

lemma own_step_trans:
  assumes "own_step m b m1 b1" and "own_step m1 b1 m2 b2"
  shows "own_step m b m2 b2"
proof -
  have "block_of m2 bl = Some xs" if "bl \<noteq> m_pBegin b" and "block_of m bl = Some xs" for bl xs
  proof -
    have 1: "block_of m1 bl = Some xs" using assms(1) that by (simp add: own_step_def)
    show ?thesis
    proof (cases "bl = m_pBegin b1")
      case True
      then have "bl = Null \<or> (\<exists>a\<ge>length m. bl = Heap a)"
        using assms(1) that(1) unfolding own_step_def by auto
      then consider "bl = Null" | a where "a \<ge> length m" "bl = Heap a" by blast
      then show ?thesis using that(2) by cases (auto split: if_splits)
    qed (use 1 assms(2) in \<open>simp add: own_step_def\<close>)
  qed
  then show ?thesis using assms by (auto simp: own_step_def)
qed

lemma own_step_block:
  "own_step m b m' b' \<Longrightarrow> bl \<noteq> m_pBegin b \<Longrightarrow> block_of m bl = Some xs \<Longrightarrow> block_of m' bl = Some xs"
  by (simp add: own_step_def)

lemma own_step_load_n:
  assumes "own_step m b m' b'" and "src \<noteq> m_pBegin b" and "load_n m src i n = Some ds"
  shows "load_n m' src i n = Some ds"
  using assms by (auto simp: load_n_def dest: own_step_block split: option.splits if_splits)

lemma own_step_rep:
  assumes "own_step m b m' b'" and "m_pBegin c \<noteq> m_pBegin b" and "Buffer_rep m c xs k"
  shows "Buffer_rep m' c xs k"
  using assms by (auto simp: Buffer_rep_def own_step_def split: base.splits)

lemma load_n_length: "load_n m bl i n = Some ds \<Longrightarrow> length ds = n"
  by (auto simp: load_n_def split: if_splits option.splits)

lemma Buffer_rep_load:
  "Buffer_rep m b xs k \<Longrightarrow> i + n \<le> length xs \<Longrightarrow> load_n m (m_pBegin b) (int i) n = Some (take n (drop i xs))"
  using Buffer_rep_block(1) by (simp add: load_n_eq)

text \<open>A write inside the region, after which the data are its first \<open>k'\<close> bytes.\<close>

lemma Buffer_rep_store:
  assumes "Buffer_rep m b xs k" and "i + length ds \<le> length xs" and "k' \<le> length xs"
  shows "\<exists>m'. store_n m (m_pBegin b) (int i) ds = Some m'
     \<and> Buffer_rep m' (b\<lparr>m_pEnd := int k'\<rparr>) (splice xs i ds) k' \<and> own_step m b m' (b\<lparr>m_pEnd := int k'\<rparr>)"
proof -
  consider "m_pBegin b = Null" "xs = []" | a where "m_pBegin b = Heap a" "a < length m" "m ! a = Some xs"
    using Buffer_rep_block(5) [OF assms(1)] by blast
  then show ?thesis
  proof cases
    case 1
    with assms show ?thesis
      by (auto simp: Buffer_rep_def own_step_refl)
  next
    case 2
    then have "store_n m (m_pBegin b) (int i) ds = Some (m[a := Some (splice xs i ds)])"
      using assms(2) store_n_eq [of m a xs "int i" ds] by simp
    moreover have "own_step m b (m[a := Some (splice xs i ds)]) (b\<lparr>m_pEnd := int k'\<rparr>)"
      using 2 by (simp add: own_step_def)
    ultimately show ?thesis
      using 2 assms by (auto simp: Buffer_rep_def)
  qed
qed

lemma virtual_free_block: "bl' \<noteq> bl \<Longrightarrow> block_of (virtual_free m bl) bl' = block_of m bl'"
  by (cases bl; cases bl') auto

lemma length_virtual_free [simp]: "length (virtual_free m bl) = length m"
  by (cases bl) auto

lemma Buffer_move_ok:
  assumes va: "alloc_ok va" and rep: "Buffer_rep m b xs k" and n: "k \<le> unat N" "unat N < 2 ^ 31"
  shows "\<exists>b' m'. Buffer_move va m b N = Some (N, b', m')
     \<and> Buffer_rep m' b' (take k xs @ replicate (unat N - k) NUL) k \<and> own_step m b m' b'"
proof (cases "unat N = 0")
  case True
  with n have [simp]: "k = 0" by simp
  have len: "unat (Buffer_getBufferLen b) = 0" "uint (Buffer_getBufferLen b) = 0"
    using Buffer_rep_len [OF rep] Buffer_rep_uint_len [OF rep] by simp_all
  have "\<not> va (length m) N" using va True by (simp add: alloc_ok_def)
  then have "virtual_alloc va m N = (Null, m)" by (simp add: virtual_alloc_def)
  then show ?thesis
    using True len virtual_free_block [of _ "m_pBegin b" m]
    by (auto simp: Buffer_move_def move_memory_def load_n_def Buffer_rep_def own_step_def Let_def)
next
  case False
  let ?m1 = "m @ [Some (replicate (unat N) NUL)]"
  let ?b1 = "\<lparr>m_pBegin = Heap (length m), m_pEnd = 0, m_nSize = N\<rparr>"
  let ?b' = "b\<lparr>m_pBegin := Heap (length m), m_pEnd := int k, m_nSize := N\<rparr>"
  have al: "virtual_alloc va m N = (Heap (length m), ?m1)"
    using va n False by (simp add: virtual_alloc_def alloc_ok_def)
  have b1: "Buffer_rep ?m1 ?b1 (replicate (unat N) NUL) 0"
    using n by (simp add: Buffer_rep_def)
  have k: "k \<le> length xs" using Buffer_rep_block(3) [OF rep] .
  have ld: "load_n ?m1 (m_pBegin b) 0 k = Some (take k xs)"
    using Buffer_rep_block(1) [OF rep] k by (simp add: load_n_eq)
  obtain m2 where m2: "store_n ?m1 (Heap (length m)) 0 (take k xs) = Some m2"
    "Buffer_rep m2 (?b1\<lparr>m_pEnd := int k\<rparr>) (splice (replicate (unat N) NUL) 0 (take k xs)) k"
    "own_step ?m1 ?b1 m2 (?b1\<lparr>m_pEnd := int k\<rparr>)"
    using Buffer_rep_store [OF b1, of 0 "take k xs" k] n k by auto
  let ?m3 = "if m_pBegin b \<noteq> Null then virtual_free m2 (m_pBegin b) else m2"
  have eq: "Buffer_move va m b N = Some (N, ?b', ?m3)"
    using m2(1) ld al Buffer_rep_len [OF rep] Buffer_rep_uint_len [OF rep]
    by (simp add: Buffer_move_def move_memory_def)
  have ne: "m_pBegin b \<noteq> Heap (length m)"
    using Buffer_rep_block(5) [OF rep] by auto
  have blk: "block_of ?m3 (Heap (length m)) = block_of m2 (Heap (length m))"
    using ne virtual_free_block [of "Heap (length m)" "m_pBegin b" m2] by auto
  have "splice (replicate (unat N) NUL) 0 (take k xs) = take k xs @ replicate (unat N - k) NUL"
    using k by (simp add: splice_def)
  then have "Buffer_rep ?m3 ?b' (take k xs @ replicate (unat N - k) NUL) k"
    using m2(2) blk by (auto simp: Buffer_rep_def)
  moreover have "own_step m b ?m3 ?b'"
  proof -
    have "block_of ?m3 bl = Some ys" if "bl \<noteq> m_pBegin b" "block_of m bl = Some ys" for bl ys
    proof -
      have "bl \<noteq> Heap (length m)" using that(2) by auto
      then have "block_of m2 bl = Some ys"
        using own_step_block [OF m2(3)] that(2) by simp
      then show ?thesis using virtual_free_block [OF that(1)] by simp
    qed
    moreover have "length m \<le> length m2" using m2(3) by (simp add: own_step_def)
    ultimately show ?thesis by (simp add: own_step_def)
  qed
  ultimately show ?thesis using eq by blast
qed

text \<open>The region after a request for \<open>n\<close> bytes, and after a request to fit it to \<open>n\<close> bytes.\<close>

definition grown :: "nat \<Rightarrow> nat \<Rightarrow> string \<Rightarrow> string" where
  "grown n k xs = (if n < length xs then xs else take k xs @ replicate (up1024 n - k) NUL)"

definition fitted :: "nat \<Rightarrow> nat \<Rightarrow> string \<Rightarrow> string" where
  "fitted n k xs = (if up1024 n < length xs then xs else take k xs @ replicate (up1024 n - k) NUL)"

lemma grown_props:
  assumes "k \<le> length xs" and "k \<le> n"
  shows "take k (grown n k xs) = take k xs" and "n \<le> length (grown n k xs)"
    and "length xs \<le> length (grown n k xs)"
  using assms up1024_bounds [of n] by (auto simp: grown_def)

lemma fitted_props:
  assumes "k \<le> length xs" and "k \<le> n"
  shows "take k (fitted n k xs) = take k xs" and "length xs \<le> length (fitted n k xs)"
    and "k \<le> length (fitted n k xs)"
  using assms up1024_bounds [of n] by (auto simp: fitted_def)

lemma Buffer_reallocateBuffer_ok:
  assumes "alloc_ok va" and "Buffer_rep m b xs k" and "k \<le> unat n" and "unat n + 1024 \<le> 2 ^ 31"
  shows "\<exists>r b' m'. Buffer_reallocateBuffer va m b n = Some (r, b', m')
     \<and> Buffer_rep m' b' (grown (unat n) k xs) k \<and> own_step m b m' b'"
proof (cases "unat n < length xs")
  case True
  then show ?thesis
    using assms(2) Buffer_rep_memsize [OF assms(2)]
    by (simp add: Buffer_reallocateBuffer_def grown_def word_less_nat_alt own_step_refl)
next
  case False
  have r: "unat (round_1024 n) = up1024 (unat n)" using assms(4) by (rule unat_round_1024)
  obtain b' m' where "Buffer_move va m b (round_1024 n) = Some (round_1024 n, b', m')"
    "Buffer_rep m' b' (take k xs @ replicate (up1024 (unat n) - k) NUL) k" "own_step m b m' b'"
    using Buffer_move_ok [OF assms(1,2), of "round_1024 n"] assms(3,4) r up1024_bounds [of "unat n"]
    by auto
  with False show ?thesis
    using Buffer_rep_memsize [OF assms(2)]
    by (simp add: Buffer_reallocateBuffer_def grown_def word_less_nat_alt)
qed

lemma Buffer_deallocateBuffer_ok:
  assumes "alloc_ok va" and "Buffer_rep m b xs k" and "k \<le> unat n" and "unat n + 1024 \<le> 2 ^ 31"
  shows "\<exists>r b' m'. Buffer_deallocateBuffer va m b n = Some (r, b', m')
     \<and> Buffer_rep m' b' (fitted (unat n) k xs) k \<and> own_step m b m' b'"
proof -
  have r: "unat (round_1024 n) = up1024 (unat n)" using assms(4) by (rule unat_round_1024)
  have nlt: "\<not> n < Buffer_getBufferLen b"
    using Buffer_rep_len [OF assms(2)] assms(3) by (simp add: word_less_nat_alt)
  show ?thesis
  proof (cases "up1024 (unat n) < length xs")
    case True
    then show ?thesis
      using assms(2) Buffer_rep_memsize [OF assms(2)] nlt r
      by (simp add: Buffer_deallocateBuffer_def fitted_def word_less_nat_alt own_step_refl)
  next
    case False
    obtain b' m' where "Buffer_move va m b (round_1024 n) = Some (round_1024 n, b', m')"
      "Buffer_rep m' b' (take k xs @ replicate (up1024 (unat n) - k) NUL) k" "own_step m b m' b'"
      using Buffer_move_ok [OF assms(1,2), of "round_1024 n"] assms(3,4) r up1024_bounds [of "unat n"]
      by auto
    with False nlt r show ?thesis
      using Buffer_rep_memsize [OF assms(2)]
      by (simp add: Buffer_deallocateBuffer_def fitted_def word_less_nat_alt)
  qed
qed

text \<open>
  The eight operations. \<open>fits\<close> bounds the bytes a region is asked to hold, so that rounding up and
  the conversions between \<^verbatim>\<open>int\<close> and \<^verbatim>\<open>UINT\<close> stay exact.
\<close>

definition fits :: "nat \<Rightarrow> bool" where
  "fits n \<longleftrightarrow> n + 1024 \<le> 2 ^ 31"

lemma fits_mono: "fits n \<Longrightarrow> k \<le> n \<Longrightarrow> fits k"
  by (simp add: fits_def)

lemma Buffer_clear_ok:
  assumes "alloc_ok va" and "Buffer_rep m b xs k"
  shows "\<exists>b' m'. Buffer_clear va m b = Some (b', m')
     \<and> Buffer_rep m' b' (fitted 1024 0 xs) 0 \<and> own_step m b m' b'"
proof -
  have "Buffer_rep m (b\<lparr>m_pEnd := 0\<rparr>) xs 0"
    using assms(2) by (auto simp: Buffer_rep_def split: base.splits if_splits)
  from Buffer_deallocateBuffer_ok [OF assms(1) this, of 1024]
  show ?thesis
    using own_step_trans [OF own_step_refl [of "b\<lparr>m_pEnd := 0\<rparr>" b m]]
    by (auto simp: Buffer_clear_def)
qed

lemma Buffer_write_ok:
  assumes "alloc_ok va" and "Buffer_rep m b xs k" and "fits (k + unat n)"
    and "src \<noteq> m_pBegin b" and "load_n m src si (unat n) = Some ds"
  shows "\<exists>b' m'. Buffer_write va m b src si n = Some (n, b', m')
     \<and> Buffer_rep m' b' (splice (grown (unat n + k) k xs) k ds) (k + unat n) \<and> own_step m b m' b'"
proof -
  let ?N = "n + Buffer_getBufferLen b"
  have N: "unat ?N = unat n + k"
    using assms(3) Buffer_rep_len [OF assms(2)]
    by (subst unat_add_lem [THEN iffD1]) (auto simp: fits_def)
  obtain r b1 m1 where 1: "Buffer_reallocateBuffer va m b ?N = Some (r, b1, m1)"
    "Buffer_rep m1 b1 (grown (unat n + k) k xs) k" "own_step m b m1 b1"
    using Buffer_reallocateBuffer_ok [OF assms(1,2), of ?N] N assms(3) by (auto simp: fits_def)
  have ld: "load_n m1 src si (unat n) = Some ds"
    using own_step_load_n [OF 1(3) assms(4,5)] .
  have len: "length ds = unat n" using load_n_length [OF assms(5)] .
  obtain m2 where 2: "store_n m1 (m_pBegin b1) (int k) ds = Some m2"
    "Buffer_rep m2 (b1\<lparr>m_pEnd := int (k + unat n)\<rparr>) (splice (grown (unat n + k) k xs) k ds) (k + unat n)"
    "own_step m1 b1 m2 (b1\<lparr>m_pEnd := int (k + unat n)\<rparr>)"
    using Buffer_rep_store [OF 1(2), of k ds "k + unat n"] len
      grown_props(2) [of k xs "unat n + k"] Buffer_rep_block(3) [OF assms(2)] by auto
  have "Buffer_write va m b src si n = Some (n, b1\<lparr>m_pEnd := int (k + unat n)\<rparr>, m2)"
    using 1(1) ld 2(1) Buffer_rep_block(2) [OF 1(2)]
    by (simp add: Buffer_write_def move_memory_def)
  with 2(2) own_step_trans [OF 1(3) 2(3)] show ?thesis by blast
qed

lemma Buffer_insert_ok:
  assumes "alloc_ok va" and "Buffer_rep m b xs k" and "fits (k + unat n)"
    and "src \<noteq> m_pBegin b" and "load_n m src si (unat n) = Some ds"
  shows "\<exists>b' m' ys. Buffer_insert va m b src si n = Some (n, b', m')
     \<and> Buffer_rep m' b' ys (k + unat n) \<and> take (k + unat n) ys = ds @ take k xs \<and> own_step m b m' b'"
proof -
  let ?N = "n + Buffer_getBufferLen b" and ?g = "grown (unat n + k) k xs"
  have N: "unat ?N = unat n + k"
    using assms(3) Buffer_rep_len [OF assms(2)]
    by (subst unat_add_lem [THEN iffD1]) (auto simp: fits_def)
  obtain r b1 m1 where 1: "Buffer_reallocateBuffer va m b ?N = Some (r, b1, m1)"
    "Buffer_rep m1 b1 ?g k" "own_step m b m1 b1"
    using Buffer_reallocateBuffer_ok [OF assms(1,2), of ?N] N assms(3) by (auto simp: fits_def)
  have g: "unat n + k \<le> length ?g" "take k ?g = take k xs"
    using grown_props [of k xs "unat n + k"] Buffer_rep_block(3) [OF assms(2)] by simp_all
  have len: "length ds = unat n" using load_n_length [OF assms(5)] .
  have sz: "unat (Buffer_getMemSize b1 - n) = length ?g - unat n"
    using Buffer_rep_memsize [OF 1(2)] g(1) by (subst unat_sub) (auto simp: word_le_nat_alt)
  let ?mv = "take (length ?g - unat n) ?g"
  have ld1: "load_n m1 (m_pBegin b1) 0 (length ?g - unat n) = Some ?mv"
    using Buffer_rep_load [OF 1(2), of 0 "length ?g - unat n"] by simp
  obtain m2 where 2: "store_n m1 (m_pBegin b1) (int (unat n)) ?mv = Some m2"
    "Buffer_rep m2 (b1\<lparr>m_pEnd := int k\<rparr>) (splice ?g (unat n) ?mv) k"
    "own_step m1 b1 m2 (b1\<lparr>m_pEnd := int k\<rparr>)"
    using Buffer_rep_store [OF 1(2), of "unat n" ?mv k] g(1) by auto
  have 12: "own_step m b m2 (b1\<lparr>m_pEnd := int k\<rparr>)" using own_step_trans [OF 1(3) 2(3)] .
  let ?b2 = "b1\<lparr>m_pEnd := int k\<rparr>" and ?b3 = "b1\<lparr>m_pEnd := int (k + unat n)\<rparr>"
  let ?h = "splice ?g (unat n) ?mv"
  obtain m3 where 3: "store_n m2 (m_pBegin b1) 0 ds = Some m3"
    "Buffer_rep m3 ?b3 (splice ?h 0 ds) (k + unat n)" "own_step m2 ?b2 m3 ?b3"
    using Buffer_rep_store [OF 2(2), of 0 ds "k + unat n"] len g(1) by auto
  have "Buffer_insert va m b src si n = Some (n, ?b3, m3)"
    using 1(1) ld1 2(1) 3(1) own_step_load_n [OF 12 assms(4,5)] sz Buffer_rep_block(2) [OF 1(2)]
    by (simp add: Buffer_insert_def move_memory_def)
  moreover have "take (k + unat n) (splice ?h 0 ds) = ds @ take k xs"
  proof -
    have "k \<le> length ?g - unat n" using g(1) by linarith
    then show ?thesis using len g by (simp add: splice_def min_absorb1)
  qed
  ultimately show ?thesis using 3(2) own_step_trans [OF 12 3(3)] by blast
qed

text \<open>The region after its contents moved down by \<open>j\<close> bytes: the last \<open>j\<close> bytes stay as they were.\<close>

definition shifted :: "nat \<Rightarrow> string \<Rightarrow> string" where
  "shifted j xs = drop j xs @ drop (length xs - j) xs"

lemma length_shifted [simp]: "j \<le> length xs \<Longrightarrow> length (shifted j xs) = length xs"
  by (simp add: shifted_def)

lemma take_shifted: "j \<le> k \<Longrightarrow> k \<le> length xs \<Longrightarrow> take (k - j) (shifted j xs) = drop j (take k xs)"
  by (simp add: shifted_def drop_take)

lemma Buffer_shift_ok:
  assumes "Buffer_rep m b xs k" and "unat n \<le> k"
  shows "\<exists>m1. move_memory m (m_pBegin b) 0 (m_pBegin b) (uint n) (unat (Buffer_getMemSize b - n)) = Some m1
     \<and> Buffer_rep m1 (b\<lparr>m_pEnd := m_pEnd b - uint n\<rparr>) (shifted (unat n) xs) (k - unat n)
     \<and> own_step m b m1 (b\<lparr>m_pEnd := m_pEnd b - uint n\<rparr>)"
proof -
  have k: "k \<le> length xs" using Buffer_rep_block(3) [OF assms(1)] .
  have sz: "unat (Buffer_getMemSize b - n) = length xs - unat n"
    using Buffer_rep_memsize [OF assms(1)] assms(2) k by (subst unat_sub) (auto simp: word_le_nat_alt)
  have ld: "load_n m (m_pBegin b) (uint n) (length xs - unat n) = Some (drop (unat n) xs)"
    using Buffer_rep_load [OF assms(1), of "unat n" "length xs - unat n"] assms(2) k by simp
  have e: "m_pEnd b - uint n = int (k - unat n)"
    using Buffer_rep_block(2) [OF assms(1)] assms(2) uint_nat [of n] by simp
  have "splice xs 0 (drop (unat n) xs) = shifted (unat n) xs"
    by (simp add: splice_def shifted_def)
  then show ?thesis
    using Buffer_rep_store [OF assms(1), of 0 "drop (unat n) xs" "k - unat n"] assms(2) k sz ld e
    by (auto simp: move_memory_def)
qed

lemma Buffer_read_ok:
  assumes va: "alloc_ok va" and rep: "Buffer_rep m b xs k" and "fits k" and "unat n \<le> length xs"
  defines "j \<equiv> min (unat n) k"
  shows "\<exists>b' m' r. Buffer_read va m b n = Some (take j xs, r, b', m') \<and> unat r = j
     \<and> Buffer_rep m' b' (fitted (k - j) (k - j) (shifted j xs)) (k - j) \<and> own_step m b m' b'"
proof -
  let ?n = "if n > Buffer_getBufferLen b then Buffer_getBufferLen b else n"
  have nj: "unat ?n = j"
    using Buffer_rep_len [OF rep] by (auto simp: j_def word_less_nat_alt)
  have jk: "j \<le> k" and k: "k \<le> length xs"
    using Buffer_rep_block(3) [OF rep] by (auto simp: j_def)
  have "\<exists>b1 m1. (if ?n \<noteq> 0 then do {
            pData \<leftarrow> load_n m (m_pBegin b) 0 (unat ?n);
            m1 \<leftarrow> move_memory m (m_pBegin b) 0 (m_pBegin b) (uint ?n) (unat (Buffer_getMemSize b - ?n));
            Some (pData, b\<lparr>m_pEnd := m_pEnd b - uint ?n\<rparr>, m1) }
          else Some ([], b, m)) = Some (take j xs, b1, m1)
        \<and> Buffer_rep m1 b1 (shifted j xs) (k - j) \<and> own_step m b m1 b1"
  proof (cases "?n = 0")
    case True
    with nj have "j = 0" by simp
    with True rep show ?thesis by (auto simp: shifted_def own_step_refl)
  next
    case False
    have "load_n m (m_pBegin b) 0 (unat ?n) = Some (take j xs)"
      using Buffer_rep_load [OF rep, of 0 j] nj jk k by simp
    then show ?thesis
      using False Buffer_shift_ok [OF rep, of ?n] jk unfolding nj by auto
  qed
  then obtain b1 m1 where 1: "(if ?n \<noteq> 0 then do {
            pData \<leftarrow> load_n m (m_pBegin b) 0 (unat ?n);
            m1 \<leftarrow> move_memory m (m_pBegin b) 0 (m_pBegin b) (uint ?n) (unat (Buffer_getMemSize b - ?n));
            Some (pData, b\<lparr>m_pEnd := m_pEnd b - uint ?n\<rparr>, m1) }
          else Some ([], b, m)) = Some (take j xs, b1, m1)"
    "Buffer_rep m1 b1 (shifted j xs) (k - j)" "own_step m b m1 b1" by blast
  obtain r b2 m2 where 2: "Buffer_deallocateBuffer va m1 b1 (Buffer_getBufferLen b1) = Some (r, b2, m2)"
    "Buffer_rep m2 b2 (fitted (k - j) (k - j) (shifted j xs)) (k - j)" "own_step m1 b1 m2 b2"
    using Buffer_deallocateBuffer_ok [OF va 1(2), of "Buffer_getBufferLen b1"]
      fits_mono [OF \<open>fits k\<close>, of "k - j"] unfolding Buffer_rep_len [OF 1(2)] fits_def by auto
  have ge: "\<not> n > Buffer_getMemSize b"
    using assms(4) Buffer_rep_memsize [OF rep] by (simp add: word_less_nat_alt)
  have "Buffer_read va m b n = Some (take j xs, ?n, b2, m2)"
    using ge unfolding Buffer_read_def Let_def 1(1) by (simp add: 2(1))
  then show ?thesis using nj 2(2) own_step_trans [OF 1(3) 2(3)] by blast
qed

text \<open>\<^verbatim>\<open>remove\<close> is \<^verbatim>\<open>read\<close> without the bytes.\<close>

lemma Buffer_remove_read:
  assumes "Buffer_read va m b n = Some (ds, r, b', m')"
  shows "Buffer_remove va m b n = Some (r, b', m')"
  using assms
  by (auto simp: Buffer_read_def Buffer_remove_def Let_def bind_eq_Some_conv split: if_splits)

lemma Buffer_remove_ok:
  assumes va: "alloc_ok va" and rep: "Buffer_rep m b xs k" and "fits k" and "unat n \<le> length xs"
  defines "j \<equiv> min (unat n) k"
  shows "\<exists>b' m' r. Buffer_remove va m b n = Some (r, b', m') \<and> unat r = j
     \<and> Buffer_rep m' b' (fitted (k - j) (k - j) (shifted j xs)) (k - j) \<and> own_step m b m' b'"
  using Buffer_read_ok [OF assms(1-4)] Buffer_remove_read unfolding j_def by blast

lemma Buffer_copy_ok:
  assumes va: "alloc_ok va" and b: "Buffer_rep m b xs k" and c: "Buffer_rep m c zs j"
    and "fits (length zs)" and ne: "zs = [] \<or> m_pBegin c \<noteq> m_pBegin b"
  shows "\<exists>b' m' ys. Buffer_copy va m b c = Some (b', m') \<and> Buffer_rep m' b' ys j
     \<and> take j ys = take j zs \<and> own_step m b m' b'"
proof -
  obtain b1 m1 where 1: "Buffer_clear va m b = Some (b1, m1)"
    "Buffer_rep m1 b1 (fitted 1024 0 xs) 0" "own_step m b m1 b1"
    using Buffer_clear_ok [OF va b] by blast
  let ?g = "grown (length zs) 0 (fitted 1024 0 xs)"
  obtain r b2 m2 where 2: "Buffer_reallocateBuffer va m1 b1 (Buffer_getMemSize c) = Some (r, b2, m2)"
    "Buffer_rep m2 b2 ?g 0" "own_step m1 b1 m2 b2"
    using Buffer_reallocateBuffer_ok [OF va 1(2), of "Buffer_getMemSize c"] Buffer_rep_memsize [OF c]
      \<open>fits (length zs)\<close> by (auto simp: fits_def)
  have 12: "own_step m b m2 b2" using own_step_trans [OF 1(3) 2(3)] .
  have j: "j \<le> length zs" using Buffer_rep_block(3) [OF c] .
  have ld: "load_n m2 (m_pBegin c) 0 j = Some (take j zs)"
    using ne Buffer_rep_load [OF own_step_rep [OF 12 _ c], of 0 j] j by (cases "zs = []") (auto simp: load_n_def)
  have g: "j \<le> length ?g" using grown_props(2) [of 0 "fitted 1024 0 xs" "length zs"] j by simp
  obtain m3 where 3: "store_n m2 (m_pBegin b2) 0 (take j zs) = Some m3"
    "Buffer_rep m3 (b2\<lparr>m_pEnd := int j\<rparr>) (splice ?g 0 (take j zs)) j"
    "own_step m2 b2 m3 (b2\<lparr>m_pEnd := int j\<rparr>)"
    using Buffer_rep_store [OF 2(2), of 0 "take j zs" j] g j by auto
  have "Buffer_copy va m b c = Some (b2\<lparr>m_pEnd := int j\<rparr>, m3)"
    using 1(1) 2(1) 3(1) ld Buffer_rep_len [OF c] Buffer_rep_uint_len [OF c]
    by (simp add: Buffer_copy_def move_memory_def)
  moreover have "take j (splice ?g 0 (take j zs)) = take j zs"
    using j by (simp add: splice_def)
  ultimately show ?thesis using 3(2) own_step_trans [OF 12 3(3)] by blast
qed

section \<open>The buffer as a queue of bytes\<close>

text \<open>
  The interface the connection code relies on: bytes are put at one end and come out at the other,
  in order, whatever the sizes of the pieces.
\<close>

datatype stream_op = Put string | Get u32

fun run_stream :: "('m \<Rightarrow> 'b \<Rightarrow> string \<Rightarrow> ('b \<times> 'm) option) \<Rightarrow> ('m \<Rightarrow> 'b \<Rightarrow> u32 \<Rightarrow> (string \<times> 'b \<times> 'm) option)
    \<Rightarrow> 'm \<Rightarrow> 'b \<Rightarrow> stream_op list \<Rightarrow> (string \<times> 'b \<times> 'm) option" where
  "run_stream put get m b [] = Some ([], b, m)"
| "run_stream put get m b (Put ds # ops) = do {
     (b1, m1) \<leftarrow> put m b ds;
     run_stream put get m1 b1 ops }"
| "run_stream put get m b (Get n # ops) = do {
     (ds, b1, m1) \<leftarrow> get m b n;
     (rest, b2, m2) \<leftarrow> run_stream put get m1 b1 ops;
     Some (ds @ rest, b2, m2) }"

fun stream_in :: "stream_op list \<Rightarrow> string" where
  "stream_in [] = []"
| "stream_in (Put ds # ops) = ds @ stream_in ops"
| "stream_in (Get n # ops) = stream_in ops"

locale byte_queue =
  fixes ok :: "'m \<Rightarrow> 'b \<Rightarrow> bool"
    and bytes :: "'m \<Rightarrow> 'b \<Rightarrow> string"
    and put :: "'m \<Rightarrow> 'b \<Rightarrow> string \<Rightarrow> ('b \<times> 'm) option"
    and get :: "'m \<Rightarrow> 'b \<Rightarrow> u32 \<Rightarrow> (string \<times> 'b \<times> 'm) option"
    and room :: nat
  assumes put_law: "ok m b \<Longrightarrow> length (bytes m b) + length ds \<le> room \<Longrightarrow>
      \<exists>b' m'. put m b ds = Some (b', m') \<and> ok m' b' \<and> bytes m' b' = bytes m b @ ds"
    and get_law: "ok m b \<Longrightarrow>
      \<exists>ds b' m'. get m b n = Some (ds, b', m') \<and> ok m' b' \<and> ds @ bytes m' b' = bytes m b"
begin

lemma stream_fifo:
  assumes "ok m b" and "length (bytes m b) + length (stream_in ops) \<le> room"
  shows "\<exists>out b' m'. run_stream put get m b ops = Some (out, b', m') \<and> ok m' b'
     \<and> out @ bytes m' b' = bytes m b @ stream_in ops"
  using assms
proof (induction ops arbitrary: m b)
  case Nil
  then show ?case by simp
next
  case (Cons x ops)
  show ?case
  proof (cases x)
    case (Put ds)
    with Cons.prems obtain b1 m1 where 1: "put m b ds = Some (b1, m1)" "ok m1 b1"
      "bytes m1 b1 = bytes m b @ ds"
      using put_law [of m b ds] by auto
    with Cons.IH [of m1 b1] Cons.prems Put show ?thesis by auto
  next
    case (Get n)
    from Cons.prems obtain ds b1 m1 where 1: "get m b n = Some (ds, b1, m1)" "ok m1 b1"
      "ds @ bytes m1 b1 = bytes m b"
      using get_law [of m b n] by blast
    then have "length (bytes m1 b1) \<le> length (bytes m b)" by (metis length_append le_add2)
    with Cons.prems(2) Get have "length (bytes m1 b1) + length (stream_in ops) \<le> room" by simp
    with Cons.IH [of m1 b1] 1(2) obtain out b2 m2 where
      "run_stream put get m1 b1 ops = Some (out, b2, m2)" "ok m2 b2"
      "out @ bytes m2 b2 = bytes m1 b1 @ stream_in ops" by blast
    with 1 Get show ?thesis by (auto simp flip: append_assoc) (simp add: append_assoc)
  qed
qed

end

definition Buffer_put :: "allocator \<Rightarrow> mem \<Rightarrow> Buffer \<Rightarrow> string \<Rightarrow> (Buffer \<times> mem) option" where
  "Buffer_put va m b s = map_option (\<lambda>(_, b', m'). (b', m')) (Buffer_write_string va m b s)"

definition Buffer_get :: "allocator \<Rightarrow> mem \<Rightarrow> Buffer \<Rightarrow> u32 \<Rightarrow> (string \<times> Buffer \<times> mem) option" where
  "Buffer_get va m b n = map_option (\<lambda>(ds, _, b', m'). (ds, b', m')) (Buffer_read va m b n)"

definition Buffer_room :: nat where
  "Buffer_room = 2 ^ 31 - 1024"

definition Buffer_ok :: "mem \<Rightarrow> Buffer \<Rightarrow> bool" where
  "Buffer_ok m b \<longleftrightarrow> Buffer_wf m b \<and> length (Buffer_str m b) \<le> Buffer_room"

lemma fits_room: "fits n \<longleftrightarrow> n \<le> Buffer_room"
  by (auto simp: fits_def Buffer_room_def)

lemma load_n_Lit: "n \<le> length s \<Longrightarrow> load_n m (Lit s) 0 n = Some (take n s)"
  by (simp add: load_n_def)

lemma take_splice_grown:
  assumes "k \<le> length xs" and "n = length ds"
  shows "take (k + n) (splice (grown (n + k) k xs) k ds) = take k xs @ ds"
  using grown_props [of k xs "n + k"] assms by (simp add: splice_def min_absorb2)

lemma Buffer_put_law:
  assumes "alloc_ok va" and "Buffer_ok m b" and "length (Buffer_str m b) + length ds \<le> Buffer_room"
  shows "\<exists>b' m'. Buffer_put va m b ds = Some (b', m') \<and> Buffer_ok m' b'
     \<and> Buffer_str m' b' = Buffer_str m b @ ds"
proof -
  obtain xs k where rep: "Buffer_rep m b xs k" "Buffer_str m b = take k xs"
    using assms(2) by (auto simp: Buffer_ok_def elim: Buffer_wfE)
  have k: "k \<le> length xs" and len: "length (Buffer_str m b) = k"
    using Buffer_rep_block(3) [OF rep(1)] rep(2) by simp_all
  let ?n = "word_of_nat (length ds) :: u32"
  have n: "unat ?n = length ds"
    using assms(3) by (intro unat_word_of_nat) (simp add: Buffer_room_def)
  have src: "Lit ds \<noteq> m_pBegin b" using Buffer_rep_block(5) [OF rep(1)] by auto
  obtain b' m' where 1: "Buffer_write va m b (Lit ds) 0 ?n = Some (?n, b', m')"
    "Buffer_rep m' b' (splice (grown (unat ?n + k) k xs) k ds) (k + unat ?n)"
    using Buffer_write_ok [OF assms(1) rep(1), of ?n "Lit ds" 0 ds] src assms(3) len
    unfolding n by (auto simp: fits_room load_n_Lit)
  have "Buffer_str m' b' = Buffer_str m b @ ds"
    using Buffer_rep_wf [OF 1(2)] take_splice_grown [OF k] rep(2) unfolding n by simp
  then show ?thesis
    using 1 Buffer_rep_wf [OF 1(2)] assms(3)
    by (auto simp: Buffer_put_def Buffer_write_string_def Buffer_ok_def)
qed

lemma Buffer_get_law:
  assumes "alloc_ok va" and "Buffer_ok m b"
  shows "\<exists>ds b' m'. Buffer_get va m b n = Some (ds, b', m') \<and> Buffer_ok m' b'
     \<and> ds @ Buffer_str m' b' = Buffer_str m b"
proof -
  obtain xs k where rep: "Buffer_rep m b xs k" "Buffer_str m b = take k xs"
    using assms(2) by (auto simp: Buffer_ok_def elim: Buffer_wfE)
  have k: "k \<le> length xs" using Buffer_rep_block(3) [OF rep(1)] .
  show ?thesis
  proof (cases "unat n \<le> length xs")
    case False
    then have "Buffer_getMemSize b < n"
      using Buffer_rep_memsize [OF rep(1)] by (simp add: word_less_nat_alt)
    with assms(2) show ?thesis by (simp add: Buffer_get_def Buffer_read_def)
  next
    case True
    let ?j = "min (unat n) k"
    have "fits k" using assms(2) rep(2) k by (simp add: Buffer_ok_def fits_room)
    then obtain b' m' r where 1: "Buffer_read va m b n = Some (take ?j xs, r, b', m')"
      "Buffer_rep m' b' (fitted (k - ?j) (k - ?j) (shifted ?j xs)) (k - ?j)"
      using Buffer_read_ok [OF assms(1) rep(1) _ True] by blast
    have "Buffer_str m' b' = drop ?j (take k xs)"
      using Buffer_rep_wf [OF 1(2)] fitted_props(1) [of "k - ?j" "shifted ?j xs" "k - ?j"] k
        take_shifted [of ?j k xs] by simp
    moreover have "take ?j xs @ drop ?j (take k xs) = take k xs"
      using append_take_drop_id [of ?j "take k xs"] by (simp add: min.assoc)
    ultimately show ?thesis
      using 1 Buffer_rep_wf [OF 1(2)] assms(2) rep(2)
      by (auto simp: Buffer_get_def Buffer_ok_def)
  qed
qed

interpretation bq: byte_queue "\<lambda>m b. alloc_ok va \<and> Buffer_ok m b" Buffer_str "Buffer_put va"
  "Buffer_get va" Buffer_room for va
  using Buffer_put_law Buffer_get_law by unfold_locales blast+

section \<open>Properties\<close>

text \<open>
  C8. Any sequence of writes and reads on a well-formed buffer completes without an access outside
  its memory, and the bytes read followed by the bytes still buffered are the bytes that were
  buffered followed by the bytes written: the buffer is a first-in first-out byte stream.
\<close>

theorem buffer_is_fifo:
  assumes "alloc_ok va" and "Buffer_wf m b" and "length (Buffer_str m b) + length (stream_in ops) \<le> Buffer_room"
  shows "\<exists>out b' m'. run_stream (Buffer_put va) (Buffer_get va) m b ops = Some (out, b', m')
     \<and> Buffer_wf m' b' \<and> out @ Buffer_str m' b' = Buffer_str m b @ stream_in ops"
proof -
  have "Buffer_ok m b" using assms(2,3) by (simp add: Buffer_ok_def)
  with bq.stream_fifo [of va m b ops] assms(1,3) show ?thesis by (auto simp: Buffer_ok_def)
qed

definition win32_alloc :: allocator where
  "win32_alloc k n \<longleftrightarrow> 0 < unat n \<and> unat n < 2 ^ 31"

lemma alloc_ok_win32 [simp]: "alloc_ok win32_alloc"
  by (simp add: alloc_ok_def win32_alloc_def)

lemma Buffer_ctor_rep: "Buffer_rep m Buffer_ctor [] 0"
  by (simp add: Buffer_rep_def Buffer_ctor_def)

theorem buffer_is_fifo_witness:
  "\<exists>out b' m'. run_stream (Buffer_put win32_alloc) (Buffer_get win32_alloc) [] Buffer_ctor
        [Put ''GET '', Get 2, Put ''/'', Get 100] = Some (out, b', m')
     \<and> Buffer_wf m' b' \<and> out @ Buffer_str m' b' = ''GET /''"
  using buffer_is_fifo [of win32_alloc "[]" Buffer_ctor "[Put ''GET '', Get 2, Put ''/'', Get 100]"]
    Buffer_rep_wf [OF Buffer_ctor_rep]
  by (auto simp: Buffer_room_def)

text \<open>
  \<^verbatim>\<open>write\<close> appends exactly the source bytes and leaves every other live block of memory as it was,
  provided the source lies outside the buffer's own region.
\<close>

theorem write_appends:
  assumes "alloc_ok va" and "Buffer_wf m b" and "length (Buffer_str m b) + unat n \<le> Buffer_room"
    and "src \<noteq> m_pBegin b" and "load_n m src si (unat n) = Some ds"
  shows "\<exists>b' m'. Buffer_write va m b src si n = Some (n, b', m') \<and> Buffer_wf m' b'
     \<and> Buffer_str m' b' = Buffer_str m b @ ds
     \<and> (\<forall>bl xs. bl \<noteq> m_pBegin b \<longrightarrow> block_of m bl = Some xs \<longrightarrow> block_of m' bl = Some xs)"
proof -
  obtain xs k where rep: "Buffer_rep m b xs k" "Buffer_str m b = take k xs"
    using assms(2) by (rule Buffer_wfE)
  have k: "k \<le> length xs" using Buffer_rep_block(3) [OF rep(1)] .
  then have "fits (k + unat n)" using assms(3) rep(2) by (simp add: fits_room)
  then obtain b' m' where 1: "Buffer_write va m b src si n = Some (n, b', m')"
    "Buffer_rep m' b' (splice (grown (unat n + k) k xs) k ds) (k + unat n)" "own_step m b m' b'"
    using Buffer_write_ok [OF assms(1) rep(1) _ assms(4,5)] by blast
  have "Buffer_str m' b' = Buffer_str m b @ ds"
    using Buffer_rep_wf [OF 1(2)] take_splice_grown [OF k, of "unat n" ds] load_n_length [OF assms(5)] rep(2)
    by simp
  then show ?thesis
    using 1 Buffer_rep_wf [OF 1(2)] own_step_block [OF 1(3)] by blast
qed

theorem write_appends_witness:
  "\<exists>b' m'. Buffer_write win32_alloc [] Buffer_ctor (Lit ''hello'') 0 5 = Some (5, b', m') \<and> Buffer_wf m' b'
     \<and> Buffer_str m' b' = ''hello''"
proof -
  have "load_n [] (Lit ''hello'') 0 (unat (5 :: u32)) = Some ''hello''"
    by (simp add: load_n_def)
  with write_appends [of win32_alloc "[]" Buffer_ctor 5 "Lit ''hello''" 0 "''hello''"]
    Buffer_rep_wf [OF Buffer_ctor_rep [of "[]"]]
  show ?thesis by (auto simp: Buffer_room_def Buffer_ctor_def)
qed

text \<open>
  \<^verbatim>\<open>remove\<close> deletes the first bytes of the data: as many as asked for when the request is not
  larger than the region, at most all of them, and none when the request exceeds the region. The
  result is the number of bytes deleted.
\<close>

theorem remove_drops_prefix:
  assumes "alloc_ok va" and "Buffer_wf m b" and "length (Buffer_str m b) \<le> Buffer_room"
  shows "\<exists>r b' m'. Buffer_remove va m b n = Some (r, b', m') \<and> Buffer_wf m' b'
     \<and> Buffer_str m' b' = drop (unat r) (Buffer_str m b)
     \<and> unat r = (if n \<le> m_nSize b then min (unat n) (length (Buffer_str m b)) else 0)"
proof -
  obtain xs k where rep: "Buffer_rep m b xs k" "Buffer_str m b = take k xs"
    using assms(2) by (rule Buffer_wfE)
  have k: "k \<le> length xs" and sz: "unat (m_nSize b) = length xs"
    using Buffer_rep_block(3) [OF rep(1)] rep(1) by (simp_all add: Buffer_rep_def)
  show ?thesis
  proof (cases "n \<le> m_nSize b")
    case False
    with assms(2) show ?thesis by (auto simp: Buffer_remove_def Buffer_getMemSize_def)
  next
    case True
    then have n: "unat n \<le> length xs" using sz by (simp add: word_le_nat_alt)
    have "fits k" using assms(3) rep(2) k by (simp add: fits_room)
    then obtain b' m' r where 1: "Buffer_remove va m b n = Some (r, b', m')" "unat r = min (unat n) k"
      "Buffer_rep m' b' (fitted (k - unat r) (k - unat r) (shifted (unat r) xs)) (k - unat r)"
      using Buffer_remove_ok [OF assms(1) rep(1) _ n] by auto
    have "Buffer_str m' b' = drop (unat r) (take k xs)"
      using Buffer_rep_wf [OF 1(3)] fitted_props(1) [of "k - unat r" "shifted (unat r) xs" "k - unat r"]
        take_shifted [of "unat r" k xs] k 1(2) by simp
    then show ?thesis
      using 1(1,2) Buffer_rep_wf [OF 1(3)] rep(2) True k by auto
  qed
qed

theorem remove_drops_prefix_witness:
  "\<exists>r b' m'. Buffer_remove win32_alloc [Some ''abcd''] \<lparr>m_pBegin = Heap 0, m_pEnd = 3, m_nSize = 4\<rparr> 2 = Some (r, b', m')
     \<and> Buffer_str m' b' = drop (unat r) ''abc'' \<and> unat r = 2"
  using remove_drops_prefix [of win32_alloc "[Some ''abcd'']" "\<lparr>m_pBegin = Heap 0, m_pEnd = 3, m_nSize = 4\<rparr>" 2]
  by (auto simp: Buffer_wf_def Buffer_rep_def Buffer_str_def Buffer_room_def)

text \<open>
  \<^verbatim>\<open>insert\<close> puts the source bytes in front of the data, and \<^verbatim>\<open>copy\<close> makes the data equal to those
  of another buffer while leaving that buffer as it was.
\<close>

theorem insert_and_copy:
  assumes "alloc_ok va" and "Buffer_wf m b" and "Buffer_wf m c" and "m_pBegin c \<noteq> m_pBegin b"
    and "length (Buffer_str m b) + unat n \<le> Buffer_room" and "unat (m_nSize c) \<le> Buffer_room"
    and "src \<noteq> m_pBegin b" and "load_n m src si (unat n) = Some ds"
  shows "(\<exists>b' m'. Buffer_insert va m b src si n = Some (n, b', m') \<and> Buffer_wf m' b'
          \<and> Buffer_str m' b' = ds @ Buffer_str m b)
    \<and> (\<exists>b' m'. Buffer_copy va m b c = Some (b', m') \<and> Buffer_wf m' b' \<and> Buffer_wf m' c
          \<and> Buffer_str m' b' = Buffer_str m c \<and> Buffer_str m' c = Buffer_str m c)"
proof (rule conjI)
  obtain xs k where rep: "Buffer_rep m b xs k" "Buffer_str m b = take k xs"
    using assms(2) by (rule Buffer_wfE)
  obtain zs j where c: "Buffer_rep m c zs j" "Buffer_str m c = take j zs"
    using assms(3) by (rule Buffer_wfE)
  have "fits (k + unat n)" using assms(5) rep(2) Buffer_rep_block(3) [OF rep(1)] by (simp add: fits_room)
  from Buffer_insert_ok [OF assms(1) rep(1) this assms(7,8)] rep(2)
  show "\<exists>b' m'. Buffer_insert va m b src si n = Some (n, b', m') \<and> Buffer_wf m' b'
          \<and> Buffer_str m' b' = ds @ Buffer_str m b"
    using Buffer_rep_wf by metis
  have "fits (length zs)" using assms(6) c(1) by (simp add: fits_room Buffer_rep_def)
  from Buffer_copy_ok [OF assms(1) rep(1) c(1) this disjI2 [OF assms(4)]] c(2)
  show "\<exists>b' m'. Buffer_copy va m b c = Some (b', m') \<and> Buffer_wf m' b' \<and> Buffer_wf m' c
          \<and> Buffer_str m' b' = Buffer_str m c \<and> Buffer_str m' c = Buffer_str m c"
    using Buffer_rep_wf own_step_rep [OF _ assms(4) c(1)] by metis
qed

theorem insert_and_copy_witness:
  "(\<exists>b' m'. Buffer_insert win32_alloc [Some ''xy'', Some ''z''] \<lparr>m_pBegin = Heap 0, m_pEnd = 1, m_nSize = 2\<rparr>
        (Lit ''ab'') 0 2 = Some (2, b', m') \<and> Buffer_str m' b' = ''abx'')
   \<and> (\<exists>b' m'. Buffer_copy win32_alloc [Some ''xy'', Some ''z''] \<lparr>m_pBegin = Heap 0, m_pEnd = 1, m_nSize = 2\<rparr>
        \<lparr>m_pBegin = Heap 1, m_pEnd = 1, m_nSize = 1\<rparr> = Some (b', m') \<and> Buffer_str m' b' = ''z'')"
proof -
  let ?m = "[Some ''xy'', Some ''z'']" and ?b = "\<lparr>m_pBegin = Heap 0, m_pEnd = 1, m_nSize = 2\<rparr>"
  let ?c = "\<lparr>m_pBegin = Heap 1, m_pEnd = 1, m_nSize = 1\<rparr>"
  have "Buffer_wf ?m ?b" "Buffer_wf ?m ?c" "load_n ?m (Lit ''ab'') 0 (unat (2 :: u32)) = Some ''ab''"
    by (simp_all add: Buffer_wf_def Buffer_rep_def load_n_def)
  from insert_and_copy [OF alloc_ok_win32 this(1,2) _ _ _ _ this(3)]
  show ?thesis by (auto simp: Buffer_room_def Buffer_str_def)
qed

text \<open>
  No call of \<^verbatim>\<open>deallocateBuffer\<close> makes the region smaller, whatever size it is asked to fit: its
  test returns early exactly when the rounded size is below the current one, so the memory of a
  buffer never shrinks.
\<close>

theorem deallocate_never_shrinks:
  assumes "Buffer_deallocateBuffer va m b n = Some (r, b', m')"
  shows "m_nSize b \<le> m_nSize b'"
  using assms
  by (auto simp: Buffer_deallocateBuffer_def Buffer_move_def Buffer_getMemSize_def Let_def
      bind_eq_Some_conv split: if_splits prod.splits)

theorem deallocate_never_shrinks_witness:
  "\<exists>r b' m'. Buffer_deallocateBuffer win32_alloc [Some (replicate 4096 NUL)]
       \<lparr>m_pBegin = Heap 0, m_pEnd = 3, m_nSize = 4096\<rparr> 3 = Some (r, b', m') \<and> 4096 \<le> m_nSize b'"
proof -
  have "round_1024 3 = 1024" by (simp add: round_1024_def)
  then have "Buffer_deallocateBuffer win32_alloc [Some (replicate 4096 NUL)]
       \<lparr>m_pBegin = Heap 0, m_pEnd = 3, m_nSize = 4096\<rparr> 3
      = Some (0, \<lparr>m_pBegin = Heap 0, m_pEnd = 3, m_nSize = 4096\<rparr>, [Some (replicate 4096 NUL)])"
    by (simp add: Buffer_deallocateBuffer_def Buffer_getBufferLen_def Buffer_getMemSize_def)
  from this deallocate_never_shrinks [OF this] show ?thesis by auto
qed

end
