(* ===== verification/HttpMessage.thy ===== *)
theory HttpMessage
  imports Slice
begin

text \<open>
  The message structures of HttpMessage.h and HttpMessage.cpp. A request and a response extend a
  message, as the C++ structs inherit from \<^verbatim>\<open>HttpMessage\<close>; the header table is a finite map from
  field names to values. \<^verbatim>\<open>unordered_map::insert\<close> keeps the value of a key that is present.
\<close>

record HttpMessage =
  m_version :: string
  m_headers :: "string \<rightharpoonup> string"

record HttpRequest = HttpMessage +
  m_nHeaderLength :: size_t
  m_method :: string
  m_url :: string
  m_body :: Slice

record HttpResponse = HttpMessage +
  m_status :: int

definition map_insert :: "'k \<Rightarrow> 'v \<Rightarrow> ('k \<rightharpoonup> 'v) \<Rightarrow> ('k \<rightharpoonup> 'v)" where
  "map_insert k v h = (case h k of None \<Rightarrow> h(k \<mapsto> v) | Some _ \<Rightarrow> h)"

definition HttpMessage_getHeaderField :: "'a HttpMessage_scheme \<Rightarrow> string \<Rightarrow> string" where
  "HttpMessage_getHeaderField msg strKey = (case m_headers msg strKey of Some v \<Rightarrow> v | None \<Rightarrow> [])"

definition HttpMessage_setHeader :: "'a HttpMessage_scheme \<Rightarrow> string \<Rightarrow> string \<Rightarrow> 'a HttpMessage_scheme" where
  "HttpMessage_setHeader msg key value =
     (case m_headers msg key of
        Some _ \<Rightarrow> msg\<lparr>m_headers := (m_headers msg)(key \<mapsto> value)\<rparr>
      | None \<Rightarrow> msg)"

lemma map_insert_apply [simp]:
  "map_insert k v h k' = (if k' = k \<and> h k = None then Some v else h k')"
  by (auto simp: map_insert_def split: option.splits)

lemma dom_map_insert: "dom (map_insert k v h) = insert k (dom h)"
  by (auto simp: map_insert_def split: option.splits)

section \<open>Properties\<close>

text \<open>
  \<^verbatim>\<open>setHeader\<close> replaces the value of a field that is present and leaves the message unchanged
  when the field is absent: it never adds a field, so after it a lookup gives the new value exactly
  if the field was there before.
\<close>

theorem setHeader_only_replaces:
  "dom (m_headers (HttpMessage_setHeader msg k v)) = dom (m_headers msg)
   \<and> HttpMessage_getHeaderField (HttpMessage_setHeader msg k v) k
       = (if k \<in> dom (m_headers msg) then v else [])
   \<and> (k' = k \<or> m_headers (HttpMessage_setHeader msg k v) k' = m_headers msg k')"
  by (auto simp: HttpMessage_setHeader_def HttpMessage_getHeaderField_def split: option.splits)

end
