(* ===== verification/Codec.thy ===== *)
theory Codec
  imports HttpMessage
begin

text \<open>
  The HTTP request decoder \<^verbatim>\<open>HttpCodec\<close> (Codec.h, Codec.cpp). The codec holds a slice of the bytes
  received, the request and response being built, and the text of the reply. A member function
  takes the memory its slices point into and the codec and returns the result and the codec; a
  value the C++ constructor leaves uninitialised is an argument of the model's constructor.

  The second part is the specification of decoding on the received text alone, \<open>decode_spec\<close>, and
  the proof that \<^verbatim>\<open>tryDecode\<close> implements it on every well-formed input slice.
\<close>

section \<open>The class\<close>

datatype (plugins only: code) statusType =
    continue_transfer | switching_protocol
  | ok | created | accepted | non_authoritative_information | no_content | reset_content
  | partial_content
  | multiple_choices | moved_permanently | found | see_other | not_modified | use_proxy
  | temporary_redirect
  | bad_request | unauthorized | payment_required | forbidden | not_found | method_not_allowed
  | not_acceptable | proxy_authentication_required | request_time_out | conflict | gone
  | precondition_failed | request_entity_too_large | request_uri_too_large
  | unsupported_media_type | requested_range_not_satisfiable | expectation_failed
  | internal_server_error | not_implemented | bad_gateway | service_unavailable
  | gateway_timeout | http_version_not_supported
  | server_busy

fun status_code :: "statusType \<Rightarrow> int" where
  "status_code continue_transfer = 100"
| "status_code switching_protocol = 101"
| "status_code ok = 200"
| "status_code created = 201"
| "status_code accepted = 202"
| "status_code non_authoritative_information = 203"
| "status_code no_content = 204"
| "status_code reset_content = 205"
| "status_code partial_content = 206"
| "status_code multiple_choices = 300"
| "status_code moved_permanently = 301"
| "status_code found = 302"
| "status_code see_other = 303"
| "status_code not_modified = 304"
| "status_code use_proxy = 305"
| "status_code temporary_redirect = 307"
| "status_code bad_request = 400"
| "status_code unauthorized = 401"
| "status_code payment_required = 402"
| "status_code forbidden = 403"
| "status_code not_found = 404"
| "status_code method_not_allowed = 405"
| "status_code not_acceptable = 406"
| "status_code proxy_authentication_required = 407"
| "status_code request_time_out = 408"
| "status_code conflict = 409"
| "status_code gone = 410"
| "status_code precondition_failed = 412"
| "status_code request_entity_too_large = 413"
| "status_code request_uri_too_large = 414"
| "status_code unsupported_media_type = 415"
| "status_code requested_range_not_satisfiable = 416"
| "status_code expectation_failed = 417"
| "status_code internal_server_error = 500"
| "status_code not_implemented = 501"
| "status_code bad_gateway = 502"
| "status_code service_unavailable = 503"
| "status_code gateway_timeout = 504"
| "status_code http_version_not_supported = 505"
| "status_code server_busy = 600"

record HttpCodec =
  m_inBuf :: Slice
  m_outBuf :: string
  m_req :: HttpRequest
  m_res :: HttpResponse

definition HttpCodec_ctor :: "size_t \<Rightarrow> int \<Rightarrow> base \<Rightarrow> int \<Rightarrow> size_t \<Rightarrow> HttpCodec" where
  "HttpCodec_ctor uninit_len uninit_status pData off sz =
     \<lparr>m_inBuf = Slice_dn pData off sz, m_outBuf = [],
      m_req = \<lparr>m_version = [], m_headers = Map.empty, m_nHeaderLength = uninit_len, m_method = [],
               m_url = [], m_body = Slice_default\<rparr>,
      m_res = \<lparr>m_version = [], m_headers = Map.empty, m_status = uninit_status\<rparr>\<rparr>"

definition set_status :: "statusType \<Rightarrow> HttpCodec \<Rightarrow> HttpCodec" where
  "set_status st c = c\<lparr>m_res := (m_res c)\<lparr>m_status := status_code st\<rparr>\<rparr>"

definition HttpCodec_responseMessage :: "HttpCodec \<Rightarrow> string" where
  "HttpCodec_responseMessage c = m_outBuf c"

definition CRLF :: string where
  "CRLF = [CR, LF]"

definition HttpCodec_writeResponse :: "HttpCodec \<Rightarrow> HttpCodec" where
  "HttpCodec_writeResponse c =
     (let c1 = set_status ok c;
          os = ''HTTP/1.1'' @ '' '' @ dec_int (m_status (m_res c1)) @ CRLF
               @ ''Content-Type: text/plain'' @ CRLF
               @ ''Content-Length: 5'' @ CRLF
               @ (if status_code ok \<noteq> m_status (m_res c1) then ''Connection: close'' @ CRLF else [])
               @ CRLF @ ''hello''
      in c1\<lparr>m_outBuf := os\<rparr>)"

text \<open>The loop of \<^verbatim>\<open>getHeader\<close>: \<open>n\<close> is \<^verbatim>\<open>sz - 4\<close>; the result is the index where the match was found.\<close>

function getHeader_loop :: "mem \<Rightarrow> Slice \<Rightarrow> nat \<Rightarrow> nat \<Rightarrow> nat option option" where
  "getHeader_loop m data n i =
     (if i \<le> n then do {
        c \<leftarrow> Slice_index m data (word_of_nat i);
        hit \<leftarrow> (if CR = c
                then do { r \<leftarrow> memcmp m (Lit (CRLF @ CRLF)) 0 (m_base data) (m_pb data + int i) 4; Some (r = 0) }
                else Some False);
        if hit then Some (Some i) else getHeader_loop m data n (Suc i) }
      else Some None)"
  by pat_completeness auto
termination
  by (relation "measure (\<lambda>(m, data, n, i). Suc n - i)") auto

declare getHeader_loop.simps [simp del]

definition HttpCodec_getHeader :: "mem \<Rightarrow> HttpCodec \<Rightarrow> Slice \<Rightarrow> Slice \<Rightarrow> (bool \<times> Slice \<times> HttpCodec) option" where
  "HttpCodec_getHeader m c data header =
     (let sz = Slice_size data in
      if sz < 4 then Some (False, header, c)
      else do {
        r \<leftarrow> getHeader_loop m data (unat (sz - 4)) 0;
        Some (case r of None \<Rightarrow> (False, header, c)
          | Some i \<Rightarrow> (True, Slice_dn (m_base data) (m_pb data) (word_of_nat i),
                       c\<lparr>m_req := (m_req c)\<lparr>m_nHeaderLength := word_of_nat i + 4\<rparr>\<rparr>)) })"

definition HttpCodec_informUnimplemented :: "HttpCodec \<Rightarrow> HttpCodec" where
  "HttpCodec_informUnimplemented c = set_status not_implemented c"

definition HttpCodec_informUnsupported :: "HttpCodec \<Rightarrow> HttpCodec" where
  "HttpCodec_informUnsupported c = set_status http_version_not_supported c"

text \<open>\<^verbatim>\<open>m_url.at(0)\<close> throws on an empty string; the handler then sets the internal error.\<close>

definition HttpCodec_parseStartLine :: "HttpCodec \<Rightarrow> bool \<times> HttpCodec" where
  "HttpCodec_parseStartLine c =
     (if ''HTTP/1.0'' \<noteq> m_version (m_req c) \<and> ''HTTP/1.1'' \<noteq> m_version (m_req c)
      then (False, HttpCodec_informUnsupported c)
      else if ''GET'' \<noteq> m_method (m_req c) \<and> ''POST'' \<noteq> m_method (m_req c)
      then (False, HttpCodec_informUnimplemented c)
      else if m_url (m_req c) = [] then (False, set_status bad_request c)
      else (case m_url (m_req c) of
              [] \<Rightarrow> (False, set_status internal_server_error c)
            | u # _ \<Rightarrow> if CHR ''/'' \<noteq> u then (False, set_status bad_request c) else (True, c)))"

definition HttpCodec_parseHeader :: "HttpCodec \<Rightarrow> bool \<times> HttpCodec" where
  "HttpCodec_parseHeader c =
     (if ''POST'' = m_method (m_req c) \<and> m_headers (m_req c) ''Content-Length'' = None
      then (False, set_status bad_request c)
      else if m_headers (m_req c) ''Host'' = None
      then (False, set_status bad_request c)
      else (True, c))"

definition HttpCodec_parseBody :: "HttpCodec \<Rightarrow> bool" where
  "HttpCodec_parseBody c = True"

text \<open>
  The header loop of \<^verbatim>\<open>tryDecode\<close>; the flag is false on the early return. The loop is a partial
  function because only well-formed slices shrink in every round.
\<close>

partial_function (option) tryDecode_headers :: "mem \<Rightarrow> Slice \<Rightarrow> HttpCodec \<Rightarrow> (bool \<times> HttpCodec) option" where
  "tryDecode_headers m header c =
     (if Slice_empty header then Some (True, c)
      else do {
        let (_, header) = Slice_eat 2 header;
        (line, header) \<leftarrow> Slice_eatLine m header;
        (key, line) \<leftarrow> Slice_eatWord m line;
        (value, line) \<leftarrow> Slice_eatWord m line;
        good \<leftarrow> (if \<not> Slice_empty value \<and> \<not> Slice_empty key
                 then do { k \<leftarrow> Slice_back m key; Some (k = CHR '':'') } else Some False);
        if good then do {
          k \<leftarrow> Slice_toString m (Slice_sub 0 (-1) key);
          v \<leftarrow> Slice_toString m value;
          tryDecode_headers m header
            (c\<lparr>m_req := (m_req c)\<lparr>m_headers := map_insert k v (m_headers (m_req c))\<rparr>\<rparr>) }
        else Some (False, set_status bad_request c) })"

declare tryDecode_headers.simps [code]

text \<open>What follows the header loop: the checks, the length test and the method.\<close>

definition tryDecode_finish :: "HttpCodec \<Rightarrow> int \<times> HttpCodec" where
  "tryDecode_finish c =
     (let (sl, c1) = HttpCodec_parseStartLine c in
      if \<not> sl then (-1, c1) else
      let (hd, c2) = HttpCodec_parseHeader c1 in
      if \<not> hd then (-1, c2) else
      let contentLength = HttpMessage_getHeaderField (m_req c2) ''content-length'' in
      if Slice_size (m_inBuf c2) < m_nHeaderLength (m_req c2) + word_of_int (atoi contentLength)
      then (0, c2) else
      let body = Slice_dn (m_base (m_inBuf c2)) (m_pb (m_inBuf c2) + uint (m_nHeaderLength (m_req c2)))
                   (word_of_int (atoi contentLength));
          c3 = c2\<lparr>m_req := (m_req c2)\<lparr>m_body := body\<rparr>\<rparr> in
      if ''GET'' = m_method (m_req c3)
      then (let c4 = HttpCodec_writeResponse c3 in (sint (Slice_size (m_inBuf c4)), c4))
      else if ''POST'' = m_method (m_req c3)
      then (if \<not> HttpCodec_parseBody c3 then (-1, c3) else (-1, c3))
      else (-1, c3))"

definition HttpCodec_tryDecode :: "mem \<Rightarrow> HttpCodec \<Rightarrow> (int \<times> HttpCodec) option" where
  "HttpCodec_tryDecode m c = do {
     (_, header, c1) \<leftarrow> HttpCodec_getHeader m c (m_inBuf c) Slice_default;
     if Slice_empty header then Some (0, c1) else do {
       (startLine, header) \<leftarrow> Slice_eatLine m header;
       (method, startLine) \<leftarrow> Slice_eatWord m startLine;
       (url, startLine) \<leftarrow> Slice_eatWord m startLine;
       (version, startLine) \<leftarrow> Slice_eatWord m startLine;
       if Slice_empty version then Some (-1, set_status bad_request c1) else do {
         method \<leftarrow> Slice_toString m method;
         url \<leftarrow> Slice_toString m url;
         version \<leftarrow> Slice_toString m version;
         let c2 = c1\<lparr>m_req := (m_req c1)\<lparr>m_method := method, m_url := url, m_version := version\<rparr>\<rparr>;
         (good, c3) \<leftarrow> tryDecode_headers m header c2;
         if \<not> good then Some (-1, c3) else Some (tryDecode_finish c3) } } }"

section \<open>Decoding as a function of the received text\<close>

text \<open>The index of the first empty line (CR LF CR LF), and the header lines that precede it.\<close>

fun hdr_end :: "string \<Rightarrow> nat option" where
  "hdr_end [] = None"
| "hdr_end (c # w) = (if take 4 (c # w) = CRLF @ CRLF then Some 0 else map_option Suc (hdr_end w))"

function hdrs_spec :: "string \<Rightarrow> (string \<rightharpoonup> string) \<Rightarrow> bool \<times> (string \<rightharpoonup> string)" where
  "hdrs_spec w h =
     (if w = [] then (True, h) else
      let l = line_of (drop 2 w); k = word_of l; v = word_of (after_word l) in
      if v \<noteq> [] \<and> k \<noteq> [] \<and> last k = CHR '':''
      then hdrs_spec (after_line (drop 2 w)) (map_insert (butlast k) v h)
      else (False, h))"
  by pat_completeness auto
termination
  using length_dropWhile_le [of "\<lambda>c. c \<noteq> CR \<and> c \<noteq> LF"]
  by (relation "measure (\<lambda>(w, h). length w)")
     (auto simp: after_line_def le_less_trans [OF length_dropWhile_le])

declare hdrs_spec.simps [simp del]

datatype outcome = Incomplete | Reject "statusType option" | Reply

definition verdict :: "string \<Rightarrow> string \<Rightarrow> string \<Rightarrow> (string \<rightharpoonup> string) \<Rightarrow> size_t \<Rightarrow> size_t \<Rightarrow> outcome" where
  "verdict me u v h len hlen =
     (if v \<noteq> ''HTTP/1.0'' \<and> v \<noteq> ''HTTP/1.1'' then Reject (Some http_version_not_supported)
      else if me \<noteq> ''GET'' \<and> me \<noteq> ''POST'' then Reject (Some not_implemented)
      else if u = [] \<or> hd u \<noteq> CHR ''/'' then Reject (Some bad_request)
      else if me = ''POST'' \<and> h ''Content-Length'' = None then Reject (Some bad_request)
      else if h ''Host'' = None then Reject (Some bad_request)
      else if len < hlen + word_of_int (atoi (case h ''content-length'' of Some s \<Rightarrow> s | None \<Rightarrow> []))
      then Incomplete
      else if me = ''GET'' then Reply else Reject None)"

definition start_words :: "string \<Rightarrow> string \<times> string \<times> string" where
  "start_words w = (let l = line_of w in
     (word_of l, word_of (after_word l), word_of (after_word (after_word l))))"

definition decode_spec :: "(string \<rightharpoonup> string) \<Rightarrow> string \<Rightarrow> outcome" where
  "decode_spec h0 w = (case hdr_end w of None \<Rightarrow> Incomplete
     | Some i \<Rightarrow>
        if i = 0 then Incomplete else
        let (me, u, v) = start_words (take i w) in
        if v = [] then Reject (Some bad_request) else
        let (good, h) = hdrs_spec (after_line (take i w)) h0 in
        if \<not> good then Reject (Some bad_request)
        else verdict me u v h (word_of_nat (length w)) (word_of_nat (i + 4)))"

definition reply_text :: string where
  "reply_text = ''HTTP/1.1 200'' @ CRLF @ ''Content-Type: text/plain'' @ CRLF
     @ ''Content-Length: 5'' @ CRLF @ CRLF @ ''hello''"

section \<open>Finding the header\<close>

lemma length_CRLF [simp]: "length CRLF = 2"
  by (simp add: CRLF_def)

lemma hdr_end_short: "length w < 4 \<Longrightarrow> hdr_end w = None"
proof (induction w)
  case (Cons c w)
  then have "length (take 4 (c # w)) \<noteq> length (CRLF @ CRLF)" by simp
  then have "take 4 (c # w) \<noteq> CRLF @ CRLF" by metis
  with Cons show ?case by simp
qed simp

lemma hdr_end_Some:
  "hdr_end w = Some i \<Longrightarrow> i + 4 \<le> length w \<and> take 4 (drop i w) = CRLF @ CRLF"
proof (induction w arbitrary: i)
  case (Cons c w)
  show ?case
  proof (cases "take 4 (c # w) = CRLF @ CRLF")
    case True
    with Cons.prems have "i = 0" by (auto split: if_splits)
    moreover have "4 \<le> length (c # w)"
      using arg_cong [OF True, of length] by simp
    ultimately show ?thesis using True by simp
  next
    case False
    with Cons show ?thesis by (auto split: if_splits)
  qed
qed simp

lemma hdr_end_append: "hdr_end w = Some i \<Longrightarrow> hdr_end (w @ x) = Some i"
proof (induction w arbitrary: i)
  case (Cons c w)
  show ?case
  proof (cases "take 4 (c # w) = CRLF @ CRLF")
    case True
    have "4 \<le> length (c # w)" using arg_cong [OF True, of length] by simp
    then have "take 4 (c # w @ x) = take 4 (c # w)" using take_append [of 4 "c # w" x] by simp
    with True Cons.prems show ?thesis by (auto split: if_splits)
  next
    case False
    with Cons.prems obtain j where j: "hdr_end w = Some j" "i = Suc j" by (auto split: if_splits)
    then have "4 \<le> length w" using hdr_end_Some by fastforce
    then have "take 4 (c # w @ x) = take 4 (c # w)" using take_append [of 4 "c # w" x] by simp
    with False have "hdr_end (c # w @ x) = map_option Suc (hdr_end (w @ x))"
      by (simp only: hdr_end.simps if_False)
    with Cons.IH [OF j(1)] j(2) show ?thesis by simp
  qed
qed simp

lemma getHeader_loop_ok:
  assumes "Slice_wf m data" and "length (Slice_str m data) = n + 4" and "i \<le> Suc n"
  shows "getHeader_loop m data n i = Some (map_option ((+) i) (hdr_end (drop i (Slice_str m data))))"
  using assms
proof (induction m data n i rule: getHeader_loop.induct)
  case (1 m data n i)
  let ?w = "Slice_str m data"
  show ?case
  proof (cases "i \<le> n")
    case False
    then have "hdr_end (drop i ?w) = None" using "1.prems" by (intro hdr_end_short) simp
    with False show ?thesis by (simp add: getHeader_loop.simps [of m data n i])
  next
    case True
    have u: "unat (word_of_nat i :: size_t) = i"
      using True "1.prems" Slice_length(2) [OF "1.prems"(1)] by (intro unat_word_of_nat) simp
    have ix: "Slice_index m data (word_of_nat i) = Some (?w ! i)"
      using Slice_index_ok [OF "1.prems"(1), of "word_of_nat i"] u True "1.prems"(2) by simp
    have d: "drop i ?w = ?w ! i # drop (Suc i) ?w"
      using True "1.prems"(2) by (intro Cons_nth_drop_Suc [symmetric]) simp
    have "memcmp m (Lit (CRLF @ CRLF)) 0 (m_base data) (m_pb data + int i) 4
        = Some (memcmp_bytes (CRLF @ CRLF) (take 4 (drop i ?w)))"
      using Slice_load_n [OF "1.prems"(1), of i 4] True "1.prems"(2)
      by (simp add: memcmp_def load_n_def CRLF_def)
    moreover have "memcmp_bytes (CRLF @ CRLF) (take 4 (drop i ?w)) = 0 \<longleftrightarrow> take 4 (drop i ?w) = CRLF @ CRLF"
      using True "1.prems"(2) by (subst memcmp_bytes_eq_0) auto
    moreover have "take 4 (drop i ?w) = CRLF @ CRLF \<Longrightarrow> ?w ! i = CR"
      unfolding d by (simp add: CRLF_def)
    ultimately have hit: "(if CR = ?w ! i
        then do { r \<leftarrow> memcmp m (Lit (CRLF @ CRLF)) 0 (m_base data) (m_pb data + int i) 4; Some (r = 0) }
        else Some False) = Some (take 4 (drop i ?w) = CRLF @ CRLF)"
      by auto
    show ?thesis
    proof (cases "take 4 (drop i ?w) = CRLF @ CRLF")
      case eq: True
      have "hdr_end (drop i ?w) = Some 0" using eq unfolding d by simp
      with True ix hit eq show ?thesis by (simp add: getHeader_loop.simps [of m data n i])
    next
      case neq: False
      have "hdr_end (drop i ?w) = map_option Suc (hdr_end (drop (Suc i) ?w))"
        using neq unfolding d by simp
      moreover have "getHeader_loop m data n (Suc i)
          = Some (map_option (\<lambda>a. Suc (i + a)) (hdr_end (drop (Suc i) ?w)))"
        using "1.IH" [OF True ix, of False] neq hit "1.prems" True by simp
      ultimately show ?thesis
        using True ix hit neq
        by (simp add: getHeader_loop.simps [of m data n i] option.map_comp comp_def)
    qed
  qed
qed

lemma Slice_dn_prefix:
  assumes "Slice_wf m s" and "i \<le> length (Slice_str m s)"
  shows "Slice_wf m (Slice_dn (m_base s) (m_pb s) (word_of_nat i))"
    and "Slice_str m (Slice_dn (m_base s) (m_pb s) (word_of_nat i)) = take i (Slice_str m s)"
proof -
  have "unat (word_of_nat i :: size_t) = i"
    using assms Slice_length(2) [OF assms(1)] by (intro unat_word_of_nat) simp
  then have "Slice_dn (m_base s) (m_pb s) (word_of_nat i)
      = Slice_be (m_base s) (m_pb s + int 0) (m_pb s + int 0 + int i)"
    by (simp add: Slice_dn_def Slice_be_def uint_nat)
  then show "Slice_wf m (Slice_dn (m_base s) (m_pb s) (word_of_nat i))"
    and "Slice_str m (Slice_dn (m_base s) (m_pb s) (word_of_nat i)) = take i (Slice_str m s)"
    using Slice_part [OF assms(1), of 0 i] assms(2) by simp_all
qed

lemma HttpCodec_getHeader_ok:
  assumes "Slice_wf m data"
  shows "HttpCodec_getHeader m c data header =
    Some (case hdr_end (Slice_str m data) of None \<Rightarrow> (False, header, c)
      | Some i \<Rightarrow> (True, Slice_dn (m_base data) (m_pb data) (word_of_nat i),
                   c\<lparr>m_req := (m_req c)\<lparr>m_nHeaderLength := word_of_nat (i + 4)\<rparr>\<rparr>))"
proof (cases "length (Slice_str m data) < 4")
  case True
  then have "Slice_size data < 4"
    using Slice_size_eq [OF assms] by (simp add: word_less_nat_alt)
  with True show ?thesis by (simp add: HttpCodec_getHeader_def hdr_end_short)
next
  case False
  then have ge: "\<not> Slice_size data < 4"
    using Slice_size_eq [OF assms] by (simp add: word_less_nat_alt)
  then have "unat (Slice_size data - 4) = length (Slice_str m data) - 4"
    using Slice_size_eq [OF assms] by (subst unat_sub) (auto simp: word_le_nat_alt word_less_nat_alt)
  then have "getHeader_loop m data (unat (Slice_size data - 4)) 0 = Some (hdr_end (Slice_str m data))"
    using getHeader_loop_ok [OF assms, of "length (Slice_str m data) - 4" 0] False
    by (cases "hdr_end (Slice_str m data)") simp_all
  with ge show ?thesis
    by (simp add: HttpCodec_getHeader_def Let_def add.commute split: option.split)
qed

section \<open>The header lines\<close>

lemma length_after_line_drop2: "w \<noteq> [] \<Longrightarrow> length (after_line (drop 2 w)) < length w"
  by (cases w) (auto simp: after_line_def intro: le_less_trans [OF length_dropWhile_le])

definition with_headers :: "(string \<rightharpoonup> string) \<Rightarrow> HttpCodec \<Rightarrow> HttpCodec" where
  "with_headers h c = c\<lparr>m_req := (m_req c)\<lparr>m_headers := h\<rparr>\<rparr>"

lemma with_headers_self [simp]: "with_headers (m_headers (m_req c)) c = c"
  by (simp add: with_headers_def)

lemma with_headers_twice [simp]: "with_headers h (with_headers h' c) = with_headers h c"
  by (simp add: with_headers_def)

lemma m_headers_with_headers [simp]: "m_headers (m_req (with_headers h c)) = h"
  by (simp add: with_headers_def)

lemma tryDecode_headers_ok:
  assumes "Slice_wf m header"
  shows "tryDecode_headers m header c =
    (case hdrs_spec (Slice_str m header) (m_headers (m_req c)) of
       (True, h) \<Rightarrow> Some (True, with_headers h c)
     | (False, h) \<Rightarrow> Some (False, set_status bad_request (with_headers h c)))"
  using assms
proof (induction "length (Slice_str m header)" arbitrary: header c rule: less_induct)
  case less
  let ?w = "Slice_str m header" and ?h = "m_headers (m_req c)"
  show ?case
  proof (cases "?w = []")
    case True
    then show ?thesis
      using slice_view.empty_law [OF less.prems]
      by (simp add: tryDecode_headers.simps hdrs_spec.simps [of "[]"])
  next
    case ne: False
    then have emp: "\<not> Slice_empty header" using slice_view.empty_law [OF less.prems] by simp
    obtain e s1 l s2 where sk: "Slice_eat 2 header = (e, s1)" "Slice_eatLine m s1 = Some (l, s2)"
      "Slice_wf m l" "Slice_wf m s2" "Slice_str m l = line_of (drop 2 ?w)"
      "Slice_str m s2 = after_line (drop 2 ?w)"
      using slice_view.skip_then_line [OF less.prems] by blast
    obtain key l1 val l2 where kv: "Slice_eatWord m l = Some (key, l1)" "Slice_eatWord m l1 = Some (val, l2)"
      "Slice_wf m key" "Slice_wf m val" "Slice_str m key = word_of (line_of (drop 2 ?w))"
      "Slice_str m val = word_of (after_word (line_of (drop 2 ?w)))"
      using slice_view.two_words [OF sk(3)] unfolding sk(5) by blast
    let ?k = "Slice_str m key" and ?v = "Slice_str m val"
    have em: "Slice_empty key \<longleftrightarrow> ?k = []" "Slice_empty val \<longleftrightarrow> ?v = []"
      using slice_view.empty_law kv(3,4) by blast+
    have spec: "hdrs_spec ?w ?h = (if ?v \<noteq> [] \<and> ?k \<noteq> [] \<and> last ?k = CHR '':''
        then hdrs_spec (Slice_str m s2) (map_insert (butlast ?k) ?v ?h) else (False, ?h))"
      using ne by (simp add: hdrs_spec.simps [of ?w] Let_def kv(5,6) sk(6))
    have step: "tryDecode_headers m header c = (if ?v \<noteq> [] \<and> ?k \<noteq> [] \<and> last ?k = CHR '':''
        then tryDecode_headers m s2 (with_headers (map_insert (butlast ?k) ?v ?h) c)
        else Some (False, set_status bad_request c))"
      using emp sk(1,2) kv(1,2) em slice_view.final_law [OF kv(3)] slice_view.chop_law [OF kv(3)]
        slice_view.toString_law [OF kv(4)] slice_view.toString_law [of m "Slice_sub 0 (-1) key"]
      by (simp add: tryDecode_headers.simps [of m header c] with_headers_def)
    have "length (Slice_str m s2) < length ?w"
      using length_after_line_drop2 [OF ne] sk(6) by simp
    from less.hyps [OF this sk(4)] show ?thesis
      unfolding step spec by (auto split: prod.splits bool.splits)
  qed
qed

section \<open>The whole decoder\<close>

lemma finish_inBuf [simp]: "m_inBuf (snd (tryDecode_finish c)) = m_inBuf c"
  by (auto simp: tryDecode_finish_def HttpCodec_parseStartLine_def HttpCodec_parseHeader_def
      HttpCodec_writeResponse_def HttpCodec_informUnsupported_def HttpCodec_informUnimplemented_def
      set_status_def Let_def split: list.splits)

text \<open>What each outcome means for the return value, the reply and the status of the codec.\<close>

definition implements :: "HttpCodec \<Rightarrow> string \<Rightarrow> int \<Rightarrow> HttpCodec \<Rightarrow> outcome \<Rightarrow> bool" where
  "implements c w ret c' out = (case out of
      Incomplete \<Rightarrow> ret = 0 \<and> m_outBuf c' = m_outBuf c
    | Reject st \<Rightarrow> ret = -1 \<and> m_outBuf c' = m_outBuf c
        \<and> m_status (m_res c') = (case st of Some s \<Rightarrow> status_code s | None \<Rightarrow> m_status (m_res c))
    | Reply \<Rightarrow> ret = int (length w) \<and> m_outBuf c' = reply_text
        \<and> m_status (m_res c') = status_code ok)"

lemma implements_cong: "m_outBuf c = m_outBuf d \<Longrightarrow> m_res c = m_res d \<Longrightarrow> implements c = implements d"
  by (intro ext) (auto simp: implements_def split: outcome.splits option.splits)

lemma dec_int_200: "dec_int 200 = ''200''"
  by code_simp

lemma writeResponse_fields [simp]:
  "m_outBuf (HttpCodec_writeResponse c) = reply_text"
  "m_status (m_res (HttpCodec_writeResponse c)) = status_code ok"
  "m_inBuf (HttpCodec_writeResponse c) = m_inBuf c"
  "m_req (HttpCodec_writeResponse c) = m_req c"
  by (simp_all add: HttpCodec_writeResponse_def set_status_def Let_def dec_int_200 reply_text_def)

lemma set_status_fields [simp]:
  "m_outBuf (set_status st c) = m_outBuf c" "m_status (m_res (set_status st c)) = status_code st"
  "m_inBuf (set_status st c) = m_inBuf c" "m_req (set_status st c) = m_req c"
  by (simp_all add: set_status_def)

lemma with_headers_fields [simp]:
  "m_outBuf (with_headers h c) = m_outBuf c" "m_res (with_headers h c) = m_res c"
  "m_inBuf (with_headers h c) = m_inBuf c"
  by (simp_all add: with_headers_def)

lemma parseStartLine_cases:
  "HttpCodec_parseStartLine c =
     (if m_version (m_req c) \<noteq> ''HTTP/1.0'' \<and> m_version (m_req c) \<noteq> ''HTTP/1.1''
      then (False, set_status http_version_not_supported c)
      else if m_method (m_req c) \<noteq> ''GET'' \<and> m_method (m_req c) \<noteq> ''POST''
      then (False, set_status not_implemented c)
      else if m_url (m_req c) = [] \<or> hd (m_url (m_req c)) \<noteq> CHR ''/''
      then (False, set_status bad_request c) else (True, c))"
  by (auto simp: HttpCodec_parseStartLine_def HttpCodec_informUnsupported_def
      HttpCodec_informUnimplemented_def split: list.splits)

lemma tryDecode_finish_ok:
  assumes "unat (Slice_size (m_inBuf c)) = length w" and "length w < 2 ^ 31"
  shows "implements c w (fst (tryDecode_finish c)) (snd (tryDecode_finish c))
     (verdict (m_method (m_req c)) (m_url (m_req c)) (m_version (m_req c)) (m_headers (m_req c))
        (Slice_size (m_inBuf c)) (m_nHeaderLength (m_req c)))"
proof -
  have s: "sint (Slice_size (m_inBuf c)) = int (length w)"
    using assms by (subst sint_small) simp_all
  show ?thesis
    unfolding tryDecode_finish_def parseStartLine_cases HttpCodec_parseHeader_def verdict_def
      HttpMessage_getHeaderField_def HttpCodec_parseBody_def
    by (simp add: implements_def Let_def s)
qed

lemma tryDecode_ok:
  assumes "Slice_wf m (m_inBuf c)"
  shows "\<exists>ret c'. HttpCodec_tryDecode m c = Some (ret, c') \<and> m_inBuf c' = m_inBuf c
     \<and> implements c (Slice_str m (m_inBuf c)) ret c'
         (decode_spec (m_headers (m_req c)) (Slice_str m (m_inBuf c)))"
proof -
  let ?w = "Slice_str m (m_inBuf c)" and ?b = "m_inBuf c"
  show ?thesis
  proof (cases "hdr_end ?w")
    case None
    then show ?thesis
      using HttpCodec_getHeader_ok [OF assms]
      by (simp add: HttpCodec_tryDecode_def decode_spec_def implements_def Slice_default_def Slice_empty_def)
  next
    case (Some i)
    define c1 where "c1 = c\<lparr>m_req := (m_req c)\<lparr>m_nHeaderLength := word_of_nat (i + 4)\<rparr>\<rparr>"
    define hd where "hd = Slice_dn (m_base ?b) (m_pb ?b) (word_of_nat i)"
    have i: "i + 4 \<le> length ?w" using hdr_end_Some [OF Some] by simp
    have hd: "Slice_wf m hd" "Slice_str m hd = take i ?w"
      using Slice_dn_prefix [OF assms, of i] i by (simp_all add: hd_def)
    have gh: "HttpCodec_getHeader m c ?b Slice_default = Some (True, hd, c1)"
      using HttpCodec_getHeader_ok [OF assms] Some by (simp add: c1_def hd_def)
    have em: "Slice_empty hd \<longleftrightarrow> i = 0"
      using slice_view.empty_law [OF hd(1)] hd(2) i by auto
    show ?thesis
    proof (cases "i = 0")
      case True
      with gh em Some show ?thesis
        by (simp add: HttpCodec_tryDecode_def decode_spec_def implements_def c1_def)
    next
      case i0: False
      obtain sl rest where sl: "Slice_eatLine m hd = Some (sl, rest)" "Slice_wf m sl" "Slice_wf m rest"
        "Slice_str m sl = line_of (take i ?w)" "Slice_str m rest = after_line (take i ?w)"
        using slice_view.eatLine_law [OF hd(1)] hd(2) by auto
      obtain me s1 u s2 v s3 where tw: "Slice_eatWord m sl = Some (me, s1)"
        "Slice_eatWord m s1 = Some (u, s2)" "Slice_eatWord m s2 = Some (v, s3)"
        "Slice_wf m me" "Slice_wf m u" "Slice_wf m v"
        "start_words (take i ?w) = (Slice_str m me, Slice_str m u, Slice_str m v)"
        using slice_view.three_words [OF sl(2)] sl(4) by (auto simp: start_words_def Let_def)
      have ve: "Slice_empty v \<longleftrightarrow> Slice_str m v = []" using slice_view.empty_law [OF tw(6)] .
      show ?thesis
      proof (cases "Slice_str m v = []")
        case True
        with gh em i0 sl(1) tw ve Some show ?thesis
          by (simp add: HttpCodec_tryDecode_def decode_spec_def implements_def c1_def)
      next
        case v0: False
        define c2 where "c2 = c1\<lparr>m_req := (m_req c1)\<lparr>m_method := Slice_str m me, m_url := Slice_str m u,
          m_version := Slice_str m v\<rparr>\<rparr>"
        obtain good h where h: "hdrs_spec (after_line (take i ?w)) (m_headers (m_req c)) = (good, h)"
          by fastforce
        have h2: "m_headers (m_req c2) = m_headers (m_req c)" by (simp add: c2_def c1_def)
        have run: "HttpCodec_tryDecode m c = (case tryDecode_headers m rest c2 of
            None \<Rightarrow> None | Some (good, c3) \<Rightarrow> if \<not> good then Some (-1, c3) else Some (tryDecode_finish c3))"
          using gh em i0 sl(1) tw(1-3) ve v0 slice_view.toString_law tw(4-6)
          by (simp add: HttpCodec_tryDecode_def c2_def Let_def split: option.split)
        have dec: "decode_spec (m_headers (m_req c)) ?w = (if \<not> good then Reject (Some bad_request)
            else verdict (Slice_str m me) (Slice_str m u) (Slice_str m v) h (word_of_nat (length ?w))
              (word_of_nat (i + 4)))"
          using Some i0 tw(7) v0 h by (simp add: decode_spec_def Let_def)
        show ?thesis
        proof (cases good)
          case False
          then show ?thesis
            using run dec h tryDecode_headers_ok [OF sl(3), of c2] sl(5) h2
            by (simp add: implements_def c2_def c1_def)
        next
          case True
          let ?c3 = "with_headers h c2"
          have fields: "m_method (m_req ?c3) = Slice_str m me" "m_url (m_req ?c3) = Slice_str m u"
            "m_version (m_req ?c3) = Slice_str m v" "m_headers (m_req ?c3) = h"
            "Slice_size (m_inBuf ?c3) = word_of_nat (length ?w)"
            "m_nHeaderLength (m_req ?c3) = word_of_nat (i + 4)"
            using Slice_size_word [OF assms] by (simp_all add: with_headers_def c2_def c1_def)
          have "implements ?c3 = implements c"
            by (rule implements_cong) (simp_all add: c2_def c1_def)
          moreover have "implements ?c3 ?w (fst (tryDecode_finish ?c3)) (snd (tryDecode_finish ?c3))
              (verdict (m_method (m_req ?c3)) (m_url (m_req ?c3)) (m_version (m_req ?c3)) (m_headers (m_req ?c3))
                (Slice_size (m_inBuf ?c3)) (m_nHeaderLength (m_req ?c3)))"
            using Slice_size_eq [OF assms] Slice_length(2) [OF assms]
            by (intro tryDecode_finish_ok) (simp_all add: c2_def c1_def)
          ultimately have "implements c ?w (fst (tryDecode_finish ?c3)) (snd (tryDecode_finish ?c3))
              (decode_spec (m_headers (m_req c)) ?w)"
            unfolding dec fields using True by simp
          moreover obtain ret c' where fin: "tryDecode_finish ?c3 = (ret, c')" by fastforce
          moreover have "m_inBuf c' = m_inBuf c"
            using finish_inBuf [of ?c3] by (simp add: fin) (simp add: c2_def c1_def)
          moreover have "HttpCodec_tryDecode m c = Some (ret, c')"
            using run h tryDecode_headers_ok [OF sl(3), of c2] sl(5) h2 True fin by simp
          ultimately show ?thesis by simp
        qed
      qed
    qed
  qed
qed

section \<open>Facts about the specification\<close>

lemma word_of_nat_mono: "a \<le> b \<Longrightarrow> b < 2 ^ 32 \<Longrightarrow> (word_of_nat a :: u32) \<le> word_of_nat b"
  by (simp add: word_le_nat_alt unat_word_of_nat)

lemma verdict_more_data:
  assumes "verdict me u v h len hlen \<noteq> Incomplete" and "len \<le> len'"
  shows "verdict me u v h len' hlen = verdict me u v h len hlen"
  using assms by (auto simp: verdict_def split: if_splits)

lemma decode_spec_more_data:
  assumes "decode_spec h w \<noteq> Incomplete" and "length (w @ x) < 2 ^ 32"
  shows "decode_spec h (w @ x) = decode_spec h w"
proof -
  from assms(1) obtain i where i: "hdr_end w = Some i" by (cases "hdr_end w") (auto simp: decode_spec_def)
  have tk: "take i (w @ x) = take i w" using hdr_end_Some [OF i] by simp
  have "(word_of_nat (length w) :: size_t) \<le> word_of_nat (length (w @ x))"
    using assms(2) by (intro word_of_nat_mono) simp_all
  note more = verdict_more_data [OF _ this]
  show ?thesis
    using assms(1) unfolding decode_spec_def hdr_end_append [OF i] i option.case tk
    by (auto simp only: Let_def more split: prod.splits if_splits)
qed

lemma decode_spec_Reply:
  assumes "decode_spec h0 w = Reply"
  obtains i u v h where "hdr_end w = Some i" "start_words (take i w) = (''GET'', u, v)"
    "v = ''HTTP/1.0'' \<or> v = ''HTTP/1.1''" "u \<noteq> []" "hd u = CHR ''/''"
    "hdrs_spec (after_line (take i w)) h0 = (True, h)" "h ''Host'' \<noteq> None"
  using assms unfolding decode_spec_def
  by (auto simp: Let_def verdict_def split: option.splits prod.splits if_splits)

lemma implements_sgn:
  assumes "implements c w ret c' out" and "out = Reply \<longrightarrow> w \<noteq> []"
  shows "ret > 0 \<longleftrightarrow> out = Reply" and "ret = 0 \<longleftrightarrow> out = Incomplete"
  using assms by (auto simp: implements_def split: outcome.splits)

lemma decode_Reply_nonempty: "decode_spec h w = Reply \<Longrightarrow> w \<noteq> []"
  by (auto simp: decode_spec_def)

section \<open>Properties\<close>

text \<open>
  C6. \<^verbatim>\<open>tryDecode\<close> implements the specification of decoding: on every well-formed input slice it
  completes without reading outside the memory, keeps the input slice, and its return value, reply
  text and status are those that the outcome of \<open>decode_spec\<close> on the received text prescribes: 0
  and no reply for incomplete data, -1, no reply and the error status for a rejected request, and
  the number of bytes received with the reply text and status 200 for an answered one.
\<close>

theorem tryDecode_refines_spec:
  assumes "Slice_wf m (m_inBuf c)"
  shows "\<exists>ret c'. HttpCodec_tryDecode m c = Some (ret, c') \<and> m_inBuf c' = m_inBuf c
     \<and> implements c (Slice_str m (m_inBuf c)) ret c'
         (decode_spec (m_headers (m_req c)) (Slice_str m (m_inBuf c)))"
  using assms by (rule tryDecode_ok)

definition sample_get :: string where
  "sample_get = ''GET /a HTTP/1.1'' @ CRLF @ ''Host: x'' @ CRLF @ CRLF"

definition sample_codec :: "string \<Rightarrow> HttpCodec" where
  "sample_codec w = HttpCodec_ctor 0 0 (Lit w) 0 (word_of_nat (length w))"

lemma sample_codec_wf:
  assumes "length w < 1000"
  shows "Slice_wf [] (m_inBuf (sample_codec w))" and "Slice_str [] (m_inBuf (sample_codec w)) = w"
    and "m_headers (m_req (sample_codec w)) = Map.empty"
proof -
  have "uint (word_of_nat (length w) :: u32) = int (length w)"
    using assms by (simp add: uint_nat unat_word_of_nat)
  then show "Slice_wf [] (m_inBuf (sample_codec w))" and "Slice_str [] (m_inBuf (sample_codec w)) = w"
    and "m_headers (m_req (sample_codec w)) = Map.empty"
    using assms
    by (simp_all add: sample_codec_def HttpCodec_ctor_def Slice_wf_def Slice_str_def Slice_dn_def window_def)
qed

lemma sample_get_length: "length sample_get < 1000"
  by (simp add: sample_get_def CRLF_def)

lemma decode_sample_get: "decode_spec Map.empty sample_get = Reply"
  by code_simp

theorem tryDecode_refines_spec_witness:
  "\<exists>ret c'. HttpCodec_tryDecode [] (sample_codec sample_get) = Some (ret, c')
     \<and> ret = int (length sample_get) \<and> m_outBuf c' = reply_text"
  using tryDecode_refines_spec [of "[]" "sample_codec sample_get"]
    sample_codec_wf [OF sample_get_length] decode_sample_get
  by (auto simp: implements_def)

text \<open>
  Only a GET request is answered: a positive return value means that the received text has a
  complete header whose start line is GET, a path and a supported version and whose fields include
  Host. In particular every POST request is rejected, also a complete and valid one.
\<close>

theorem answered_is_get:
  assumes "Slice_wf m (m_inBuf c)" and "HttpCodec_tryDecode m c = Some (ret, c')" and "ret > 0"
  shows "\<exists>i u v. hdr_end (Slice_str m (m_inBuf c)) = Some i
     \<and> start_words (take i (Slice_str m (m_inBuf c))) = (''GET'', u, v)
     \<and> (v = ''HTTP/1.0'' \<or> v = ''HTTP/1.1'') \<and> u \<noteq> [] \<and> hd u = CHR ''/''
     \<and> snd (hdrs_spec (after_line (take i (Slice_str m (m_inBuf c)))) (m_headers (m_req c))) ''Host'' \<noteq> None"
proof -
  have "decode_spec (m_headers (m_req c)) (Slice_str m (m_inBuf c)) = Reply"
    using tryDecode_ok [OF assms(1)] assms(2,3) implements_sgn decode_Reply_nonempty by fastforce
  then show ?thesis by (rule decode_spec_Reply) auto
qed

theorem answered_is_get_witness:
  "\<exists>ret c' i u v. HttpCodec_tryDecode [] (sample_codec sample_get) = Some (ret, c') \<and> ret > 0
     \<and> hdr_end sample_get = Some i \<and> start_words (take i sample_get) = (''GET'', u, v)"
proof -
  note wf = sample_codec_wf [OF sample_get_length]
  obtain ret c' where 1: "HttpCodec_tryDecode [] (sample_codec sample_get) = Some (ret, c')" "ret > 0"
    using tryDecode_ok [OF wf(1)] wf(2,3) decode_sample_get
    by (auto simp: implements_def sample_get_def)
  with answered_is_get [OF wf(1) 1] wf(2) show ?thesis by auto
qed

text \<open>
  C29. A decision is not revised when more bytes arrive: if decoding some received text gives a
  non-zero result, decoding any extension of it gives a result of the same sign and the same reply.
\<close>

theorem decision_is_stable:
  assumes "Slice_wf m (m_inBuf c)" and "Slice_wf m' (m_inBuf d)"
    and "Slice_str m' (m_inBuf d) = Slice_str m (m_inBuf c) @ x"
    and "m_headers (m_req d) = m_headers (m_req c)" and "m_outBuf d = m_outBuf c"
    and "HttpCodec_tryDecode m c = Some (ret, c')" and "ret \<noteq> 0"
  shows "\<exists>ret2 d'. HttpCodec_tryDecode m' d = Some (ret2, d') \<and> sgn ret2 = sgn ret
     \<and> m_outBuf d' = m_outBuf c'"
proof -
  let ?w = "Slice_str m (m_inBuf c)" and ?h = "m_headers (m_req c)"
  have 1: "implements c ?w ret c' (decode_spec ?h ?w)"
    using tryDecode_ok [OF assms(1)] assms(6) by auto
  have "decode_spec ?h ?w \<noteq> Incomplete" using 1 assms(7) by (auto simp: implements_def)
  moreover have "length (?w @ x) < 2 ^ 32" using Slice_length(2) [OF assms(2)] assms(3) by simp
  ultimately have same: "decode_spec ?h (?w @ x) = decode_spec ?h ?w" by (rule decode_spec_more_data)
  obtain ret2 d' where 2: "HttpCodec_tryDecode m' d = Some (ret2, d')"
    "implements d (?w @ x) ret2 d' (decode_spec ?h ?w)"
    using tryDecode_ok [OF assms(2)] assms(3,4) same by auto
  have "?w \<noteq> []" if "decode_spec ?h ?w = Reply" using decode_Reply_nonempty [OF that] .
  then have "sgn (int (length (?w @ x))) = 1" if "decode_spec ?h ?w = Reply"
    using that by (simp add: sgn_1_pos add_pos_nonneg)
  with 1 2 assms(5,7) show ?thesis
    by (auto simp: implements_def sgn_if split: outcome.splits if_splits)
qed

theorem decision_is_stable_witness:
  "\<exists>ret2 d'. HttpCodec_tryDecode [] (sample_codec (sample_get @ ''GET'')) = Some (ret2, d') \<and> sgn ret2 = 1
     \<and> m_outBuf d' = reply_text"
proof -
  have len: "length (sample_get @ ''GET'') < 1000" by (simp add: sample_get_def CRLF_def)
  note wf = sample_codec_wf [OF sample_get_length] sample_codec_wf [OF len]
  obtain ret c' where 1: "HttpCodec_tryDecode [] (sample_codec sample_get) = Some (ret, c')" "sgn ret = 1"
    "m_outBuf c' = reply_text"
    using tryDecode_ok [OF wf(1)] wf(2,3) decode_sample_get
    by (auto simp: implements_def sample_get_def)
  moreover have "m_outBuf (sample_codec (sample_get @ ''GET'')) = m_outBuf (sample_codec sample_get)"
    by (simp add: sample_codec_def HttpCodec_ctor_def)
  ultimately show ?thesis
    using decision_is_stable [OF wf(1,4), of "''GET''" ret c'] wf(2,3,5,6) by (cases "ret = 0") auto
qed

text \<open>
  C31. The length of the body is looked up under a lower-case name only: when the fields of a complete
  header do not include \<^verbatim>\<open>content-length\<close>, \<^verbatim>\<open>tryDecode\<close> never waits for a body, whatever the usual
  field \<^verbatim>\<open>Content-Length\<close> announces.
\<close>

theorem body_length_ignored:
  assumes "Slice_wf m (m_inBuf c)" and "hdr_end (Slice_str m (m_inBuf c)) = Some i" and "0 < i"
    and "snd (hdrs_spec (after_line (take i (Slice_str m (m_inBuf c)))) (m_headers (m_req c))) ''content-length'' = None"
  shows "\<exists>ret c'. HttpCodec_tryDecode m c = Some (ret, c') \<and> ret \<noteq> 0"
proof -
  let ?w = "Slice_str m (m_inBuf c)"
  have "(word_of_nat (i + 4) :: size_t) \<le> word_of_nat (length ?w)"
    using hdr_end_Some [OF assms(2)] Slice_length(2) [OF assms(1)] by (intro word_of_nat_mono) simp_all
  then have "decode_spec (m_headers (m_req c)) ?w \<noteq> Incomplete"
    using assms(2-4) unfolding decode_spec_def
    by (auto simp: Let_def verdict_def split: prod.splits)
  then show ?thesis
    using tryDecode_ok [OF assms(1)] implements_sgn(2) decode_Reply_nonempty by metis
qed

definition sample_with_length :: string where
  "sample_with_length = ''GET / HTTP/1.1'' @ CRLF @ ''Host: x'' @ CRLF @ ''Content-Length: 99'' @ CRLF @ CRLF"

theorem body_length_ignored_witness:
  "\<exists>ret c'. HttpCodec_tryDecode [] (sample_codec sample_with_length) = Some (ret, c') \<and> ret \<noteq> 0"
proof -
  have len: "length sample_with_length < 1000" by (simp add: sample_with_length_def CRLF_def)
  note wf = sample_codec_wf [OF len]
  have "hdr_end sample_with_length = Some 43" by code_simp
  moreover have "snd (hdrs_spec (after_line (take 43 sample_with_length)) Map.empty) ''content-length'' = None"
    by code_simp
  ultimately show ?thesis
    using body_length_ignored [OF wf(1), of 43] wf(2,3) by simp
qed

definition negative_length :: string where
  "negative_length = ''GET / HTTP/1.1'' @ CRLF @ ''Host: x'' @ CRLF @ ''content-length: -5'' @ CRLF @ CRLF"

text \<open>
  A negative body length is not refused: its conversion to an unsigned size wraps around, the
  length test passes, the request is answered, and the body of the request is a slice whose end
  lies outside the received data.
\<close>

theorem negative_length_accepted:
  "case HttpCodec_tryDecode [] (sample_codec negative_length) of
     None \<Rightarrow> False
   | Some (ret, c') \<Rightarrow> ret > 0 \<and> m_outBuf c' = reply_text \<and> \<not> Slice_wf [] (m_body (m_req c'))"
  by code_simp

text \<open>
  The reply of \<^verbatim>\<open>writeResponse\<close> is a complete message for the decoder's own header search: the
  header ends where the search says, its lines parse, and the announced length is the length of the
  body that follows.
\<close>

theorem reply_is_well_formed:
  "case hdr_end (m_outBuf (HttpCodec_writeResponse c)) of
     None \<Rightarrow> False
   | Some i \<Rightarrow>
      (case hdrs_spec (after_line (take i (m_outBuf (HttpCodec_writeResponse c)))) Map.empty of
         (good, h) \<Rightarrow> good \<and> (case h ''Content-Length'' of None \<Rightarrow> False
           | Some s \<Rightarrow> atoi s = int (length (drop (i + 4) (m_outBuf (HttpCodec_writeResponse c))))))"
  unfolding writeResponse_fields by code_simp

end
