(* ===== verification/Net.thy ===== *)
theory Net
  imports Buffer Codec
begin

text \<open>
  The boundary between the server and Windows: the structure \<^verbatim>\<open>Net\<close> (Net.cpp), the enumerations of
  Global.h and the class \<^verbatim>\<open>Addr\<close> (Addr.cpp).

  The operating system is the parameter \<open>os\<close>: for every call, given all the calls made before it,
  \<open>sys\<close> says what it returns and what \<^verbatim>\<open>WSAGetLastError\<close> gives afterwards; \<open>sockaddr_of\<close> gives the address
  a call stores and \<open>valloc\<close> is the allocator of the buffers. Nothing is assumed of these
  functions here, so a statement for every \<open>os\<close> covers every failure the code can meet. The calls
  made so far are the field \<open>trace\<close> of the state, in their order.
\<close>

section \<open>Scalars and enumerations\<close>

type_synonym SOCKET = "32 word"
type_synonym HANDLE = "32 word"

definition INVALID_SOCKET :: SOCKET where
  "INVALID_SOCKET = -1"

definition SOCKET_ERROR :: int where
  "SOCKET_ERROR = -1"

definition WSA_IO_PENDING :: int where
  "WSA_IO_PENDING = 997"

definition ERROR_NOT_FOUND :: int where
  "ERROR_NOT_FOUND = 1168"

definition IO_BUF_SIZE :: nat where
  "IO_BUF_SIZE = 8192"

definition ACCEPT_ADDRS_SIZE :: nat where
  "ACCEPT_ADDRS_SIZE = 16 + 16"

datatype PostType = ACCEPT_EVENT | RECV_EVENT | SEND_EVENT | PARSE_EVNET | CLOSE_EVENT

datatype PostResult = PostResultSuccesful | PostResultFailed | PostResultInvalidSocket

text \<open>The macro \<^verbatim>\<open>IOCP_BUFFER_ALIGN_MEMORY(a, b)\<close>.\<close>

definition IOCP_BUFFER_ALIGN_MEMORY :: "nat \<Rightarrow> nat \<Rightarrow> nat" where
  "IOCP_BUFFER_ALIGN_MEMORY a b = a + (b - (if a mod b \<noteq> 0 then a mod b else b))"

section \<open>Addresses\<close>

text \<open>\<^verbatim>\<open>SOCKADDR_IN\<close>; port and address are kept as the bytes stand in memory (network order).\<close>

record SOCKADDR_IN =
  sin_family :: nat
  sin_port :: "nat \<times> nat"
  sin_addr :: "nat \<times> nat \<times> nat \<times> nat"

definition zero_addr :: SOCKADDR_IN where
  "zero_addr = \<lparr>sin_family = 0, sin_port = (0, 0), sin_addr = (0, 0, 0, 0)\<rparr>"

definition AF_INET :: nat where
  "AF_INET = 2"

definition htons :: "16 word \<Rightarrow> nat \<times> nat" where
  "htons p = (unat p div 256, unat p mod 256)"

definition ntohs :: "nat \<times> nat \<Rightarrow> nat" where
  "ntohs p = fst p * 256 + snd p"

definition Addr_toString :: "SOCKADDR_IN \<Rightarrow> string" where
  "Addr_toString a = (case sin_addr a of (b1, b2, b3, b4) \<Rightarrow>
     dec_nat b1 @ ''.'' @ dec_nat b2 @ ''.'' @ dec_nat b3 @ ''.'' @ dec_nat b4
     @ '':'' @ dec_nat (ntohs (sin_port a)))"

section \<open>Calls of the operating system\<close>

text \<open>
  The completion key of a socket: the server object for the listening socket, the client context
  for a connection (clients are numbered); 0 is the exit notice.
\<close>

datatype key = Key_exit | Key_server | Key_client nat

text \<open>The request an \<^verbatim>\<open>OVERLAPPED\<close> pointer belongs to.\<close>

datatype overlapped = Ov_null | Ov_accept nat | Ov_recv nat | Ov_send nat

datatype oscall =
    Sys_WSAStartup
  | Sys_WSACleanup
  | Sys_WSASocket
  | Sys_bind SOCKET SOCKADDR_IN
  | Sys_listen SOCKET
  | Sys_getsockname SOCKET
  | Sys_getpeername SOCKET
  | Sys_keepalive SOCKET bool
  | Sys_linger SOCKET bool int
  | Sys_update_accept SOCKET SOCKET
  | Sys_keepalive_vals SOCKET int int
  | Sys_get_AcceptEx SOCKET
  | Sys_get_AcceptExSockaddrs SOCKET
  | Sys_AcceptEx SOCKET SOCKET nat
  | Sys_WSARecv SOCKET nat nat
  | Sys_WSASend SOCKET string nat
  | Sys_CancelIo SOCKET
  | Sys_CancelIoEx SOCKET overlapped
  | Sys_has_completed overlapped
  | Sys_Sleep nat
  | Sys_closesocket SOCKET
  | Sys_new_port
  | Sys_associate SOCKET HANDLE key
  | Sys_post_status HANDLE nat key overlapped
  | Sys_CreateEvent bool bool
  | Sys_SetEvent HANDLE
  | Sys_wait_event HANDLE
  | Sys_CloseHandle HANDLE
  | Sys_begin_thread
  | Sys_wait_threads "HANDLE list"
  | Sys_processor_count
  | Sys_GetTickCount
  | Sys_create_timer
  | Sys_set_timer HANDLE

record os =
  sys :: "oscall list \<Rightarrow> oscall \<Rightarrow> int \<times> int"
  sockaddr_of :: "oscall list \<Rightarrow> oscall \<Rightarrow> SOCKADDR_IN"
  valloc :: allocator

record world =
  trace :: "oscall list"
  memory :: mem

definition call :: "os \<Rightarrow> oscall \<Rightarrow> 'a world_scheme \<Rightarrow> (int \<times> int) \<times> 'a world_scheme" where
  "call os c w = (sys os (trace w) c, w\<lparr>trace := trace w @ [c]\<rparr>)"

lemma call_snd: "call os c w = (r, w') \<Longrightarrow> w' = w\<lparr>trace := trace w @ [c]\<rparr>"
  by (simp add: call_def)

section \<open>Net\<close>

definition Net_init :: "os \<Rightarrow> 'a world_scheme \<Rightarrow> bool \<times> 'a world_scheme" where
  "Net_init os w = (let ((ret, _), w) = call os Sys_WSAStartup w in (ret = 0, w))"

definition Net_unInit :: "os \<Rightarrow> 'a world_scheme \<Rightarrow> bool \<times> 'a world_scheme" where
  "Net_unInit os w = (let (_, w) = call os Sys_WSACleanup w in (True, w))"

definition Net_WSASocket :: "os \<Rightarrow> 'a world_scheme \<Rightarrow> SOCKET \<times> 'a world_scheme" where
  "Net_WSASocket os w = (let ((ret, _), w) = call os Sys_WSASocket w in (word_of_int ret, w))"

definition Net_bind :: "os \<Rightarrow> SOCKET \<Rightarrow> SOCKADDR_IN \<Rightarrow> 'a world_scheme \<Rightarrow> int \<times> 'a world_scheme" where
  "Net_bind os s a w = (let ((ret, _), w) = call os (Sys_bind s a) w in (ret, w))"

definition Net_listen :: "os \<Rightarrow> SOCKET \<Rightarrow> 'a world_scheme \<Rightarrow> int \<times> 'a world_scheme" where
  "Net_listen os s w = (let ((ret, _), w) = call os (Sys_listen s) w in (ret, w))"

text \<open>A failure is only printed; the address stays zero then.\<close>

definition Net_getsockname :: "os \<Rightarrow> SOCKET \<Rightarrow> 'a world_scheme \<Rightarrow> SOCKADDR_IN \<times> 'a world_scheme" where
  "Net_getsockname os s w = (let tr = trace w; ((ret, _), w) = call os (Sys_getsockname s) w
     in (if ret = SOCKET_ERROR then zero_addr else sockaddr_of os tr (Sys_getsockname s), w))"

definition Net_getpeername :: "os \<Rightarrow> SOCKET \<Rightarrow> 'a world_scheme \<Rightarrow> SOCKADDR_IN \<times> 'a world_scheme" where
  "Net_getpeername os s w = (let tr = trace w; ((ret, _), w) = call os (Sys_getpeername s) w
     in (if ret = SOCKET_ERROR then zero_addr else sockaddr_of os tr (Sys_getpeername s), w))"

definition Net_setKeepAlive :: "os \<Rightarrow> SOCKET \<Rightarrow> bool \<Rightarrow> 'a world_scheme \<Rightarrow> bool \<times> 'a world_scheme" where
  "Net_setKeepAlive os s on w = (let ((ret, _), w) = call os (Sys_keepalive s on) w
     in (ret \<noteq> SOCKET_ERROR, w))"

definition Net_setLinger :: "os \<Rightarrow> SOCKET \<Rightarrow> bool \<Rightarrow> int \<Rightarrow> 'a world_scheme \<Rightarrow> bool \<times> 'a world_scheme" where
  "Net_setLinger os s on timeoutSecs w = (let ((ret, _), w) = call os (Sys_linger s on timeoutSecs) w
     in (ret \<noteq> SOCKET_ERROR, w))"

definition Net_updateAcceptContext :: "os \<Rightarrow> SOCKET \<Rightarrow> SOCKET \<Rightarrow> 'a world_scheme \<Rightarrow> bool \<times> 'a world_scheme" where
  "Net_updateAcceptContext os listenSocket acceptSocket w =
     (let ((ret, _), w) = call os (Sys_update_accept listenSocket acceptSocket) w
      in (ret \<noteq> SOCKET_ERROR, w))"

lemma ntohs_htons: "ntohs (htons p) = unat p"
  by (simp add: ntohs_def htons_def)

end
