(* ===== verification/Contexts.thy ===== *)
theory Contexts
  imports Net
begin

text \<open>
  The structures of IoContext.cpp and ClientContext.cpp: the contexts of the overlapped requests,
  the listening context and the context of a connected client. A \<^verbatim>\<open>BYTE\<close> array inside a structure is
  the string of its bytes. A \<^verbatim>\<open>WSABUF\<close> is indeterminate before it is assigned, or it designates the
  array of its own context, or memory of a buffer. A failed \<^verbatim>\<open>assert\<close> ends the program: it is \<open>None\<close>
  like an invalid access.

  The critical sections are not part of the records: one handler runs at a time in this model, and
  a \<^verbatim>\<open>LockGuard\<close> releases its section on every way out of its block.
\<close>

section \<open>IoContext.cpp\<close>

datatype WSABUF = Wsa_indeterminate | Wsa_own u32 | Wsa_at base u32

record IoContext =
  m_postType :: PostType
  m_wsaBuf :: WSABUF

record AcceptIoContext = IoContext +
  m_acceptSocket :: SOCKET
  m_accpetBuf :: string

record RecvIoContext = IoContext +
  m_recvBuf :: string

definition zero_io_buf :: string where
  "zero_io_buf = replicate IO_BUF_SIZE NUL"

definition IoContext_ctor :: "PostType \<Rightarrow> IoContext" where
  "IoContext_ctor type = \<lparr>m_postType = type, m_wsaBuf = Wsa_indeterminate\<rparr>"

definition AcceptIoContext_ctor :: "SOCKET \<Rightarrow> AcceptIoContext" where
  "AcceptIoContext_ctor acceptSocket =
     \<lparr>m_postType = ACCEPT_EVENT, m_wsaBuf = Wsa_own (word_of_nat IO_BUF_SIZE),
      m_acceptSocket = acceptSocket, m_accpetBuf = zero_io_buf\<rparr>"

definition AcceptIoContext_resetBuffer :: "AcceptIoContext \<Rightarrow> AcceptIoContext" where
  "AcceptIoContext_resetBuffer c = c\<lparr>m_accpetBuf := zero_io_buf\<rparr>"

definition RecvIoContext_ctor :: RecvIoContext where
  "RecvIoContext_ctor =
     \<lparr>m_postType = RECV_EVENT, m_wsaBuf = Wsa_own (word_of_nat IO_BUF_SIZE), m_recvBuf = zero_io_buf\<rparr>"

definition RecvIoContext_resetBuffer :: "RecvIoContext \<Rightarrow> RecvIoContext" where
  "RecvIoContext_resetBuffer c = c\<lparr>m_recvBuf := zero_io_buf\<rparr>"

section \<open>ClientContext.cpp\<close>

record ListenContext =
  lc_socket :: SOCKET
  lc_addr :: SOCKADDR_IN

text \<open>The constructor asserts that the socket was created; the default address is \<^verbatim>\<open>0.0.0.0\<close>.\<close>

definition ListenContext_ctor :: "os \<Rightarrow> 16 word \<Rightarrow> 'a world_scheme \<Rightarrow> (ListenContext \<times> 'a world_scheme) option" where
  "ListenContext_ctor os port w =
     (let addr = \<lparr>sin_family = AF_INET, sin_port = htons port, sin_addr = (0, 0, 0, 0)\<rparr>;
          (s, w) = Net_WSASocket os w
      in if word_of_int SOCKET_ERROR \<noteq> s then Some (\<lparr>lc_socket = s, lc_addr = addr\<rparr>, w) else None)"

record ClientContext =
  cc_socket :: SOCKET
  cc_addr :: SOCKADDR_IN
  m_nPendingIoCnt :: u32
  m_recvIoCtx :: RecvIoContext
  m_sendIoCtx :: IoContext
  cc_inBuf :: Buffer
  cc_outBuf :: Buffer
  m_outBufQueue :: "Buffer list"
  m_nLastHeartbeatTime :: u32

text \<open>\<^verbatim>\<open>m_nLastHeartbeatTime\<close> is not initialised by the constructor.\<close>

definition ClientContext_ctor :: "u32 \<Rightarrow> SOCKET \<Rightarrow> ClientContext" where
  "ClientContext_ctor uninit_time s =
     \<lparr>cc_socket = s, cc_addr = zero_addr, m_nPendingIoCnt = 0, m_recvIoCtx = RecvIoContext_ctor,
      m_sendIoCtx = IoContext_ctor SEND_EVENT, cc_inBuf = Buffer_ctor, cc_outBuf = Buffer_ctor,
      m_outBufQueue = [], m_nLastHeartbeatTime = uninit_time\<rparr>"

definition ClientContext_reset :: "os \<Rightarrow> ClientContext \<Rightarrow> 'a world_scheme \<Rightarrow> (ClientContext \<times> 'a world_scheme) option" where
  "ClientContext_reset os c w =
     (if m_nPendingIoCnt c = 0 \<and> m_outBufQueue c = []
      then let ((ret, _), w) = call os Sys_GetTickCount w
           in Some (c\<lparr>cc_addr := zero_addr, m_nLastHeartbeatTime := word_of_int ret\<rparr>, w)
      else None)"

text \<open>
  \<^verbatim>\<open>appendToBuffer(pInBuf, len)\<close> with the receive array as source: the bytes have to lie inside the
  array.
\<close>

definition ClientContext_appendToBuffer :: "allocator \<Rightarrow> mem \<Rightarrow> ClientContext \<Rightarrow> string \<Rightarrow> u32 \<Rightarrow> (ClientContext \<times> mem) option" where
  "ClientContext_appendToBuffer va m c pInBuf len =
     (if unat len \<le> length pInBuf then do {
        (_, b, m) \<leftarrow> Buffer_write va m (cc_inBuf c) (Lit pInBuf) 0 len;
        Some (c\<lparr>cc_inBuf := b\<rparr>, m) }
      else None)"

definition ClientContext_appendToBuffer_string :: "allocator \<Rightarrow> mem \<Rightarrow> ClientContext \<Rightarrow> string \<Rightarrow> (ClientContext \<times> mem) option" where
  "ClientContext_appendToBuffer_string va m c inBuf = do {
     (_, b, m) \<leftarrow> Buffer_write_string va m (cc_inBuf c) inBuf;
     Some (c\<lparr>cc_inBuf := b\<rparr>, m) }"

end
