(* ===== verification/IocpServer.thy ===== *)
theory IocpServer
  imports Contexts
begin

text \<open>
  The class \<^verbatim>\<open>IocpServer\<close> (IocpServer.cpp). The state is the object together with what it owns: the
  client contexts and accept contexts it has allocated (a pointer is the number of the allocation;
  client contexts are never deleted, a deleted accept context is \<open>None\<close>), the memory of the buffers
  and the calls made to the operating system. \<open>kernel_io\<close> is the list of the requests the kernel
  holds: those that were accepted by \<^verbatim>\<open>AcceptEx\<close>, \<^verbatim>\<open>WSARecv\<close> or \<^verbatim>\<open>WSASend\<close> and have not completed.

  Every operation is the whole function of the source, with its early returns; \<open>None\<close> is an invalid
  access or a failed assertion. A handler is a function of the state; \<open>handleAccept\<close> is composed of the part up to its
  comparison of the connection count with the limit and the two parts behind it, which \<open>ServerInv\<close> lets other
  handlers come between. The virtual function
  \<^verbatim>\<open>notifyPackageReceived\<close> is the argument \<open>notify\<close> of the operations that call it.
\<close>

section \<open>State\<close>

record server = world +
  m_bIsShutdown :: bool
  m_listenPort :: "16 word"
  m_hComPort :: HANDLE
  m_hExitEvent :: HANDLE
  m_hWriteCompletedEvent :: HANDLE
  m_lpfnAcceptEx :: bool
  m_lpfnGetAcceptExAddr :: bool
  m_nWorkerCnt :: nat
  m_nConnClientCnt :: u32
  m_nMaxConnClientCnt :: u32
  m_pListenCtx :: "ListenContext option"
  m_connectedClientList :: "nat list"
  m_freeClientList :: "nat list"
  m_hWorkerThreads :: "HANDLE list"
  m_acceptIoCtxList :: "nat list"
  clients :: "ClientContext list"
  accepts :: "AcceptIoContext option list"
  kernel_io :: "overlapped list"

type_synonym notifier = "os \<Rightarrow> nat \<Rightarrow> server \<Rightarrow> server option"

definition POST_ACCEPT_CNT :: nat where
  "POST_ACCEPT_CNT = 10"

definition client :: "server \<Rightarrow> nat \<Rightarrow> ClientContext option" where
  "client s c = (if c < length (clients s) then Some (clients s ! c) else None)"

definition set_client :: "nat \<Rightarrow> ClientContext \<Rightarrow> server \<Rightarrow> server" where
  "set_client c x s = s\<lparr>clients := (clients s)[c := x]\<rparr>"

definition accept_ctx :: "server \<Rightarrow> nat \<Rightarrow> AcceptIoContext option" where
  "accept_ctx s a = (if a < length (accepts s) then accepts s ! a else None)"

definition set_accept :: "nat \<Rightarrow> AcceptIoContext option \<Rightarrow> server \<Rightarrow> server" where
  "set_accept a x s = s\<lparr>accepts := (accepts s)[a := x]\<rparr>"

text \<open>The function pointers to the extension functions are not initialised by the constructor.\<close>

definition IocpServer_ctor :: "os \<Rightarrow> 16 word \<Rightarrow> u32 \<Rightarrow> world \<Rightarrow> server" where
  "IocpServer_ctor os listenPort maxConnectionCount w =
     (let ((h1, _), w) = call os (Sys_CreateEvent True False) w;
          ((h2, _), w) = call os (Sys_CreateEvent False True) w
      in \<lparr>trace = trace w, memory = memory w, m_bIsShutdown = False, m_listenPort = listenPort, m_hComPort = 0,
          m_hExitEvent = word_of_int h1, m_hWriteCompletedEvent = word_of_int h2,
          m_lpfnAcceptEx = False, m_lpfnGetAcceptExAddr = False, m_nWorkerCnt = 0,
          m_nConnClientCnt = 0, m_nMaxConnClientCnt = maxConnectionCount, m_pListenCtx = None,
          m_connectedClientList = [], m_freeClientList = [], m_hWorkerThreads = [],
          m_acceptIoCtxList = [], clients = [], accepts = [], kernel_io = []\<rparr>)"

section \<open>The client lists\<close>

definition enterIoLoop :: "nat \<Rightarrow> server \<Rightarrow> server option" where
  "enterIoLoop c s = do {
     x \<leftarrow> client s c;
     Some (set_client c (x\<lparr>m_nPendingIoCnt := m_nPendingIoCnt x + 1\<rparr>) s) }"

definition exitIoLoop :: "nat \<Rightarrow> server \<Rightarrow> (int \<times> server) option" where
  "exitIoLoop c s = do {
     x \<leftarrow> client s c;
     let n = m_nPendingIoCnt x - 1;
     Some (sint n, set_client c (x\<lparr>m_nPendingIoCnt := n\<rparr>) s) }"

definition addClient :: "nat \<Rightarrow> server \<Rightarrow> server" where
  "addClient c s = s\<lparr>m_connectedClientList := m_connectedClientList s @ [c]\<rparr>"

definition removeClient :: "nat \<Rightarrow> server \<Rightarrow> server" where
  "removeClient c s =
     (if c \<in> set (m_connectedClientList s)
      then s\<lparr>m_connectedClientList := removeAll c (m_connectedClientList s),
             m_freeClientList := m_freeClientList s @ [c]\<rparr>
      else s)"

definition removeAllClients :: "server \<Rightarrow> server" where
  "removeAllClients s = s\<lparr>m_connectedClientList := []\<rparr>"

definition allocateClientContext :: "os \<Rightarrow> SOCKET \<Rightarrow> server \<Rightarrow> (nat \<times> server) option" where
  "allocateClientContext os sock s = do {
     let (c, s) = (case m_freeClientList s of
         [] \<Rightarrow> (length (clients s), s\<lparr>clients := clients s @ [ClientContext_ctor 0 sock]\<rparr>)
       | f # fs \<Rightarrow> (f, s\<lparr>m_freeClientList := fs\<rparr>));
     x \<leftarrow> client s c;
     (x, s) \<leftarrow> ClientContext_reset os (x\<lparr>cc_socket := sock\<rparr>) s;
     Some (c, set_client c x s) }"

definition releaseClientContext :: "nat \<Rightarrow> server \<Rightarrow> server option" where
  "releaseClientContext c s = do {
     (n, s) \<leftarrow> exitIoLoop c s;
     Some (if n \<le> 0 then removeClient c s else s) }"

definition CloseClient :: "os \<Rightarrow> nat \<Rightarrow> server \<Rightarrow> server option" where
  "CloseClient os c s = do {
     x \<leftarrow> client s c;
     let sock = cc_socket x;
     let s = set_client c (x\<lparr>cc_socket := INVALID_SOCKET\<rparr>) s;
     if sock \<noteq> INVALID_SOCKET then do {
       let (lingers, s) = Net_setLinger os sock True 0 s;
       if \<not> lingers then Some s
       else do {
         let ((ret, err), s) = call os (Sys_CancelIoEx sock Ov_null) s;
         if ret = 0 \<and> err \<noteq> ERROR_NOT_FOUND then Some s
         else do {
           let (_, s) = call os (Sys_closesocket sock) s;
           Some (s\<lparr>m_nConnClientCnt := m_nConnClientCnt s - 1\<rparr>) } } }
     else Some s }"

text \<open>The pair of calls that ends a connection in every handler.\<close>

definition close_and_release :: "os \<Rightarrow> nat \<Rightarrow> server \<Rightarrow> server option" where
  "close_and_release os c s = do { s \<leftarrow> CloseClient os c s; releaseClientContext c s }"

section \<open>Posting requests\<close>

definition postAccept :: "os \<Rightarrow> nat \<Rightarrow> server \<Rightarrow> (bool \<times> server) option" where
  "postAccept os a s = do {
     x \<leftarrow> accept_ctx s a;
     let x = AcceptIoContext_resetBuffer x;
     let (sock, s) = Net_WSASocket os s;
     let s = set_accept a (Some (x\<lparr>m_acceptSocket := sock\<rparr>)) s;
     if word_of_int SOCKET_ERROR = sock then Some (False, s)
     else if \<not> m_lpfnAcceptEx s then None
     else do {
       l \<leftarrow> m_pListenCtx s;
       let ((ret, err), s) = call os (Sys_AcceptEx (lc_socket l) sock a) s;
       if ret = 0 \<and> err \<noteq> WSA_IO_PENDING then Some (False, s)
       else Some (True, s\<lparr>kernel_io := kernel_io s @ [Ov_accept a]\<rparr>) } }"

definition postRecv :: "os \<Rightarrow> nat \<Rightarrow> server \<Rightarrow> (PostResult \<times> server) option" where
  "postRecv os c s = do {
     x \<leftarrow> client s c;
     let x = x\<lparr>m_recvIoCtx := RecvIoContext_resetBuffer (m_recvIoCtx x)\<rparr>;
     let s = set_client c x s;
     if cc_socket x \<noteq> INVALID_SOCKET then do {
       let ((ret, err), s) = call os (Sys_WSARecv (cc_socket x) IO_BUF_SIZE c) s;
       if ret = SOCKET_ERROR \<and> err \<noteq> WSA_IO_PENDING then Some (PostResultFailed, s)
       else Some (PostResultSuccesful, s\<lparr>kernel_io := kernel_io s @ [Ov_recv c]\<rparr>) }
     else Some (PostResultInvalidSocket, s) }"

text \<open>\<^verbatim>\<open>WSASend\<close> is given the bytes its \<^verbatim>\<open>WSABUF\<close> designates.\<close>

definition wsa_bytes :: "mem \<Rightarrow> WSABUF \<Rightarrow> string option" where
  "wsa_bytes m w = (case w of Wsa_at p n \<Rightarrow> load_n m p 0 (unat n) | _ \<Rightarrow> None)"

definition postSend :: "os \<Rightarrow> nat \<Rightarrow> server \<Rightarrow> (PostResult \<times> server) option" where
  "postSend os c s = do {
     x \<leftarrow> client s c;
     if cc_socket x \<noteq> INVALID_SOCKET then do {
       bytes \<leftarrow> wsa_bytes (memory s) (m_wsaBuf (m_sendIoCtx x));
       let ((ret, err), s) = call os (Sys_WSASend (cc_socket x) bytes c) s;
       if ret = SOCKET_ERROR \<and> err \<noteq> WSA_IO_PENDING then Some (PostResultFailed, s)
       else Some (PostResultSuccesful, s\<lparr>kernel_io := kernel_io s @ [Ov_send c]\<rparr>) }
     else Some (PostResultInvalidSocket, s) }"

text \<open>The send context is pointed at the data of the output buffer.\<close>

definition point_send :: "nat \<Rightarrow> Buffer \<Rightarrow> server \<Rightarrow> server option" where
  "point_send c b s = do {
     x \<leftarrow> client s c;
     let (p, _) = Buffer_getBuffer b 0;
     Some (set_client c (x\<lparr>m_sendIoCtx := (m_sendIoCtx x)\<lparr>m_wsaBuf := Wsa_at p (Buffer_getBufferLen b)\<rparr>\<rparr>) s) }"

text \<open>
  \<^verbatim>\<open>send\<close>. The local buffer is destroyed on every way out; \<^verbatim>\<open>m_outBufQueue.push(sendBuf)\<close> copies the
  members of the buffer only, as \<^verbatim>\<open>Buffer\<close> has no copy constructor of its own.
\<close>

definition set_outBuf :: "nat \<Rightarrow> Buffer \<Rightarrow> mem \<Rightarrow> server \<Rightarrow> server option" where
  "set_outBuf c b m s = do {
     x \<leftarrow> client s c;
     Some (set_client c (x\<lparr>cc_outBuf := b\<rparr>) (s\<lparr>memory := m\<rparr>)) }"

definition destroy :: "Buffer \<Rightarrow> server \<Rightarrow> server" where
  "destroy b s = s\<lparr>memory := Buffer_dtor (memory s) b\<rparr>"

definition send :: "os \<Rightarrow> nat \<Rightarrow> base \<Rightarrow> int \<Rightarrow> u32 \<Rightarrow> server \<Rightarrow> (bool \<times> server) option" where
  "send os c src si len s = do {
     (_, sendBuf, m) \<leftarrow> Buffer_write (valloc os) (memory s) Buffer_ctor src si len;
     let s = s\<lparr>memory := m\<rparr>;
     x \<leftarrow> client s c;
     if Buffer_getBufferLen (cc_outBuf x) = 0 then do {
       s \<leftarrow> enterIoLoop c s;
       (b, m) \<leftarrow> Buffer_copy (valloc os) (memory s) (cc_outBuf x) sendBuf;
       s \<leftarrow> set_outBuf c b m s;
       s \<leftarrow> point_send c b s;
       (result, s) \<leftarrow> postSend os c s;
       if result = PostResultFailed then do {
         s \<leftarrow> close_and_release os c s;
         Some (False, destroy sendBuf s) }
       else Some (True, destroy sendBuf s) }
     else Some (True, destroy sendBuf
       (set_client c (x\<lparr>m_outBufQueue := m_outBufQueue x @ [sendBuf]\<rparr>) s)) }"

definition remove_inBuf :: "os \<Rightarrow> nat \<Rightarrow> server \<Rightarrow> server option" where
  "remove_inBuf os c s = do {
     x \<leftarrow> client s c;
     (_, b, m) \<leftarrow> Buffer_remove (valloc os) (memory s) (cc_inBuf x) (Buffer_getBufferLen (cc_inBuf x));
     Some (set_client c (x\<lparr>cc_inBuf := b\<rparr>) (s\<lparr>memory := m\<rparr>)) }"

definition echo :: "os \<Rightarrow> nat \<Rightarrow> server \<Rightarrow> server option" where
  "echo os c s = do {
     x \<leftarrow> client s c;
     let (p, i) = Buffer_getBuffer (cc_inBuf x) 0;
     (_, s) \<leftarrow> send os c p i (Buffer_getBufferLen (cc_inBuf x)) s;
     remove_inBuf os c s }"

section \<open>Notifications\<close>

definition notifyNewConnection :: "os \<Rightarrow> nat \<Rightarrow> server \<Rightarrow> server option" where
  "notifyNewConnection os c s = do {
     x \<leftarrow> client s c;
     let (a, s) = Net_getpeername os (cc_socket x) s;
     Some (set_client c (x\<lparr>cc_addr := a\<rparr>) s) }"

definition IocpServer_notifyPackageReceived :: notifier where
  "IocpServer_notifyPackageReceived os c s = echo os c s"

section \<open>Handlers\<close>

definition associateWithCompletionPort :: "os \<Rightarrow> SOCKET \<Rightarrow> key option \<Rightarrow> server \<Rightarrow> HANDLE \<times> server" where
  "associateWithCompletionPort os sock completionKey s =
     (let ((ret, _), s) = (case completionKey of
          None \<Rightarrow> call os Sys_new_port s
        | Some k \<Rightarrow> call os (Sys_associate sock (m_hComPort s) k) s)
      in (word_of_int ret, s))"

definition post_recv_or_close :: "os \<Rightarrow> nat \<Rightarrow> server \<Rightarrow> server option" where
  "post_recv_or_close os c s = do {
     (result, s) \<leftarrow> postRecv os c s;
     if result = PostResultFailed \<or> result = PostResultInvalidSocket
     then close_and_release os c s else Some s }"

text \<open>
  \<^verbatim>\<open>handleAccept\<close> in its three parts: up to the comparison of the count with the limit, the refusal, and
  what follows \<^verbatim>\<open>InterlockedIncrement\<close>. Several workers can be between the comparison and the increment.
\<close>

definition accept_admitted :: "os \<Rightarrow> nat \<Rightarrow> server \<Rightarrow> (bool \<times> server) option" where
  "accept_admitted os a s = do {
     x \<leftarrow> accept_ctx s a;
     l \<leftarrow> m_pListenCtx s;
     let (_, s) = Net_updateAcceptContext os (lc_socket l) (m_acceptSocket x) s;
     Some (\<not> m_nConnClientCnt s \<ge> m_nMaxConnClientCnt s, s) }"

definition accept_refuse :: "os \<Rightarrow> nat \<Rightarrow> AcceptIoContext \<Rightarrow> server \<Rightarrow> (bool \<times> server) option" where
  "accept_refuse os a x s = do {
     let (_, s) = call os (Sys_closesocket (m_acceptSocket x)) s;
     let s = set_accept a (Some (x\<lparr>m_acceptSocket := INVALID_SOCKET\<rparr>)) s;
     (_, s) \<leftarrow> postAccept os a s;
     Some (True, s) }"

definition accept_enter :: "os \<Rightarrow> nat \<Rightarrow> AcceptIoContext \<Rightarrow> server \<Rightarrow> (bool \<times> server) option" where
  "accept_enter os a x s = do {
     let s = s\<lparr>m_nConnClientCnt := m_nConnClientCnt s + 1\<rparr>;
     (c, s) \<leftarrow> allocateClientContext os (m_acceptSocket x) s;
     y \<leftarrow> client s c;
     let (h, s) = associateWithCompletionPort os (cc_socket y) (Some (Key_client c)) s;
     if h = 0 then Some (False, s)
     else do {
       s \<leftarrow> enterIoLoop c s;
       (_, s) \<leftarrow> postAccept os a s;
       s \<leftarrow> notifyNewConnection os c s;
       let s = addClient c s;
       s \<leftarrow> post_recv_or_close os c s;
       Some (True, s) } }"

definition handleAccept :: "os \<Rightarrow> nat \<Rightarrow> server \<Rightarrow> (bool \<times> server) option" where
  "handleAccept os a s = do {
     x \<leftarrow> accept_ctx s a;
     (admitted, s) \<leftarrow> accept_admitted os a s;
     if admitted then accept_enter os a x s else accept_refuse os a x s }"

lemmas handleAccept_parts = handleAccept_def accept_admitted_def accept_refuse_def accept_enter_def

definition handleRecv :: "os \<Rightarrow> notifier \<Rightarrow> nat \<Rightarrow> nat \<Rightarrow> u32 \<Rightarrow> server \<Rightarrow> (bool \<times> server) option" where
  "handleRecv os notify c ov dwBytesTransferred s = do {
     x \<leftarrow> client s c;
     r \<leftarrow> client s ov;
     (x, m) \<leftarrow> ClientContext_appendToBuffer (valloc os) (memory s) x (m_recvBuf (m_recvIoCtx r)) dwBytesTransferred;
     let s = set_client c x (s\<lparr>memory := m\<rparr>);
     s \<leftarrow> notify os c s;
     s \<leftarrow> post_recv_or_close os c s;
     Some (True, s) }"

text \<open>
  The first half of \<^verbatim>\<open>handleSend\<close>: the bytes that were sent leave the output buffer, and when it is
  empty the next queued buffer takes its place, or the request's share of the context is given up.
  The popped element of the queue is destroyed.
\<close>

definition next_output :: "os \<Rightarrow> nat \<Rightarrow> u32 \<Rightarrow> server \<Rightarrow> server option" where
  "next_output os c dwBytesTransferred s = do {
     x \<leftarrow> client s c;
     (_, b, m) \<leftarrow> Buffer_remove (valloc os) (memory s) (cc_outBuf x) dwBytesTransferred;
     s \<leftarrow> set_outBuf c b m s;
     if Buffer_getBufferLen b = 0 then do {
       (b, m) \<leftarrow> Buffer_clear (valloc os) (memory s) b;
       s \<leftarrow> set_outBuf c b m s;
       case m_outBufQueue x of
         q # qs \<Rightarrow> do {
           (b, m) \<leftarrow> Buffer_copy (valloc os) (memory s) b q;
           s \<leftarrow> set_outBuf c b m s;
           x \<leftarrow> client s c;
           Some (destroy q (set_client c (x\<lparr>m_outBufQueue := qs\<rparr>) s)) }
       | [] \<Rightarrow> releaseClientContext c s }
     else Some s }"

definition handleSend :: "os \<Rightarrow> nat \<Rightarrow> nat \<Rightarrow> u32 \<Rightarrow> server \<Rightarrow> (bool \<times> server) option" where
  "handleSend os c ov dwBytesTransferred s = do {
     s \<leftarrow> next_output os c dwBytesTransferred s;
     x \<leftarrow> client s c;
     if Buffer_getBufferLen (cc_outBuf x) \<noteq> 0 then do {
       s \<leftarrow> point_send ov (cc_outBuf x) s;
       (result, s) \<leftarrow> postSend os c s;
       s \<leftarrow> (if result = PostResultFailed then close_and_release os c s else Some s);
       Some (False, s) }
     else Some (False, s) }"

definition handleClose :: "os \<Rightarrow> nat \<Rightarrow> server \<Rightarrow> (bool \<times> server) option" where
  "handleClose os c s = do { s \<leftarrow> close_and_release os c s; Some (True, s) }"

section \<open>The worker thread\<close>

text \<open>What \<^verbatim>\<open>GetQueuedCompletionStatus\<close> delivers.\<close>

record completion =
  cq_ret :: bool
  cq_bytes :: u32
  cq_key :: key
  cq_ov :: overlapped

definition post_type_of :: "server \<Rightarrow> overlapped \<Rightarrow> PostType option" where
  "post_type_of s ov = (case ov of
       Ov_null \<Rightarrow> None
     | Ov_accept a \<Rightarrow> map_option m_postType (accept_ctx s a)
     | Ov_recv c \<Rightarrow> map_option (\<lambda>x. m_postType (m_recvIoCtx x)) (client s c)
     | Ov_send c \<Rightarrow> map_option (\<lambda>x. m_postType (m_sendIoCtx x)) (client s c))"

text \<open>
  One round of the loop of \<^verbatim>\<open>IocpWorkerThread\<close>; the flag says whether the thread goes on. A completion
  key is a client context where a handler treats it as one: anything else is an invalid access.
\<close>

definition worker_round :: "os \<Rightarrow> notifier \<Rightarrow> completion \<Rightarrow> server \<Rightarrow> (bool \<times> server) option" where
  "worker_round os notify q s =
     (if cq_key q = Key_exit then Some (False, s)
      else if m_bIsShutdown s \<and> cq_key q = Key_server then Some (True, s)
      else case (if cq_key q \<noteq> Key_server \<and> (\<not> cq_ret q \<or> cq_bytes q = 0) then Some CLOSE_EVENT
                 else post_type_of s (cq_ov q)) of
        None \<Rightarrow> None
      | Some ty \<Rightarrow>
          (case (ty, cq_key q, cq_ov q) of
             (ACCEPT_EVENT, _, Ov_accept a) \<Rightarrow> do { (_, s) \<leftarrow> handleAccept os a s; Some (True, s) }
           | (RECV_EVENT, Key_client c, Ov_recv ov) \<Rightarrow> do { (_, s) \<leftarrow> handleRecv os notify c ov (cq_bytes q) s; Some (True, s) }
           | (SEND_EVENT, Key_client c, Ov_send ov) \<Rightarrow> do { (_, s) \<leftarrow> handleSend os c ov (cq_bytes q) s; Some (True, s) }
           | (CLOSE_EVENT, Key_client c, _) \<Rightarrow> do { (_, s) \<leftarrow> handleClose os c s; Some (True, s) }
           | (PARSE_EVNET, _, _) \<Rightarrow> Some (True, s)
           | _ \<Rightarrow> None))"

text \<open>
  The thread, over the completions it is given: it ends when the exit event is set or at an exit
  notice; with no completion left it waits.
\<close>

fun IocpWorkerThread :: "os \<Rightarrow> notifier \<Rightarrow> completion list \<Rightarrow> server \<Rightarrow> server option" where
  "IocpWorkerThread os notify qs s =
     (let ((ret, _), s) = call os (Sys_wait_event (m_hExitEvent s)) s in
      if ret = 0 then Some s
      else case qs of
        [] \<Rightarrow> Some s
      | q # qs \<Rightarrow> do {
          (go_on, s) \<leftarrow> worker_round os notify q s;
          if go_on then IocpWorkerThread os notify qs s else Some s })"

declare IocpWorkerThread.simps [simp del]

section \<open>Starting and stopping\<close>

definition getAcceptExPtr :: "os \<Rightarrow> server \<Rightarrow> (bool \<times> server) option" where
  "getAcceptExPtr os s = do {
     l \<leftarrow> m_pListenCtx s;
     let ((ret, _), s) = call os (Sys_get_AcceptEx (lc_socket l)) s;
     if ret = SOCKET_ERROR then do {
       let (_, s) = call os (Sys_closesocket (lc_socket l)) s;
       Some (False, s) }
     else Some (True, s\<lparr>m_lpfnAcceptEx := True\<rparr>) }"

definition getAcceptExSockaddrs :: "os \<Rightarrow> server \<Rightarrow> (bool \<times> server) option" where
  "getAcceptExSockaddrs os s = do {
     l \<leftarrow> m_pListenCtx s;
     let ((ret, _), s) = call os (Sys_get_AcceptExSockaddrs (lc_socket l)) s;
     if ret = SOCKET_ERROR then do {
       let (_, s) = call os (Sys_closesocket (lc_socket l)) s;
       Some (False, s) }
     else Some (True, s\<lparr>m_lpfnGetAcceptExAddr := True\<rparr>) }"

text \<open>The request to set the keep-alive times uses the given \<^verbatim>\<open>OVERLAPPED\<close>, so it completes through the port.\<close>

definition setKeepAlive :: "os \<Rightarrow> nat \<Rightarrow> overlapped \<Rightarrow> int \<Rightarrow> int \<Rightarrow> server \<Rightarrow> (bool \<times> server) option" where
  "setKeepAlive os c lpOverlapped time interval s = do {
     x \<leftarrow> client s c;
     let (good, s) = Net_setKeepAlive os (cc_socket x) True s;
     if \<not> good then Some (False, s)
     else do {
       let ((ret, err), s) = call os (Sys_keepalive_vals (cc_socket x) (time * 1000) (interval * 1000)) s;
       if ret = SOCKET_ERROR \<and> err \<noteq> WSA_IO_PENDING then Some (False, s)
       else Some (True, s\<lparr>kernel_io := kernel_io s @ [lpOverlapped]\<rparr>) } }"

definition createListenClient :: "os \<Rightarrow> 16 word \<Rightarrow> server \<Rightarrow> (bool \<times> server) option" where
  "createListenClient os listenPort s = do {
     (l, s) \<leftarrow> ListenContext_ctor os listenPort s;
     let s = s\<lparr>m_pListenCtx := Some l\<rparr>;
     let (h, s) = associateWithCompletionPort os INVALID_SOCKET None s;
     let s = s\<lparr>m_hComPort := h\<rparr>;
     if h = 0 then Some (False, s)
     else do {
       let (h, s) = associateWithCompletionPort os (lc_socket l) (Some Key_server) s;
       if h = 0 then Some (False, s)
       else do {
         let (ret, s) = Net_bind os (lc_socket l) (lc_addr l) s;
         if ret = SOCKET_ERROR then Some (False, s)
         else do {
           let (ret, s) = Net_listen os (lc_socket l) s;
           if ret = SOCKET_ERROR then Some (False, s)
           else do {
             (good, s) \<leftarrow> getAcceptExPtr os s;
             if \<not> good then Some (False, s)
             else getAcceptExSockaddrs os s } } } } }"

fun create_workers :: "os \<Rightarrow> nat \<Rightarrow> server \<Rightarrow> bool \<times> server" where
  "create_workers os 0 s = (True, s)"
| "create_workers os (Suc n) s =
     (let ((h, _), s) = call os Sys_begin_thread s in
      if (word_of_int h :: HANDLE) = 0 then (False, s)
      else create_workers os n
        (s\<lparr>m_hWorkerThreads := m_hWorkerThreads s @ [word_of_int h], m_nWorkerCnt := m_nWorkerCnt s + 1\<rparr>))"

definition createIocpWorker :: "os \<Rightarrow> server \<Rightarrow> bool \<times> server" where
  "createIocpWorker os s = (let ((n, _), s) = call os Sys_processor_count s in create_workers os (nat n) s)"

fun init_accepts :: "os \<Rightarrow> nat \<Rightarrow> server \<Rightarrow> (bool \<times> server) option" where
  "init_accepts os 0 s = Some (True, s)"
| "init_accepts os (Suc n) s = do {
     let a = length (accepts s);
     let s = s\<lparr>accepts := accepts s @ [Some (AcceptIoContext_ctor 0)], m_acceptIoCtxList := m_acceptIoCtxList s @ [a]\<rparr>;
     (good, s) \<leftarrow> postAccept os a s;
     if good then init_accepts os n s else Some (False, s) }"

text \<open>\<^verbatim>\<open>new AcceptIoContext(PostType::ACCEPT_EVENT)\<close> passes the enumerator 0 as the socket.\<close>

definition initAcceptIoContext :: "os \<Rightarrow> server \<Rightarrow> (bool \<times> server) option" where
  "initAcceptIoContext os s = init_accepts os POST_ACCEPT_CNT s"

definition start :: "os \<Rightarrow> server \<Rightarrow> (bool \<times> server) option" where
  "start os s = do {
     let (good, s) = Net_init os s;
     if \<not> good then Some (False, s)
     else do {
       (good, s) \<leftarrow> createListenClient os (m_listenPort s) s;
       if \<not> good then Some (False, s)
       else do {
         let (good, s) = createIocpWorker os s;
         if \<not> good then Some (False, s)
         else initAcceptIoContext os s } } }"

fun post_exits :: "os \<Rightarrow> nat \<Rightarrow> server \<Rightarrow> server" where
  "post_exits os 0 s = s"
| "post_exits os (Suc n) s =
     (let (_, s) = call os (Sys_post_status (m_hComPort s) 0 Key_exit Ov_null) s in post_exits os n s)"

definition exitIocpWorker :: "os \<Rightarrow> server \<Rightarrow> bool \<times> server" where
  "exitIocpWorker os s =
     (let (_, s) = call os (Sys_SetEvent (m_hExitEvent s)) s;
          s = post_exits os (m_nWorkerCnt s) s;
          (_, s) = call os (Sys_wait_threads (m_hWorkerThreads s)) s
      in (True, s))"

definition close_handle :: "os \<Rightarrow> HANDLE \<Rightarrow> server \<Rightarrow> server" where
  "close_handle os h s = snd (call os (Sys_CloseHandle h) s)"

text \<open>
  \<^verbatim>\<open>while (!HasOverlappedIoCompleted(...)) Sleep(1)\<close> asks until the kernel has given the request back. The
  loop need not end: then the value is \<open>None\<close>.
\<close>

partial_function (option) wait_completed :: "os \<Rightarrow> overlapped \<Rightarrow> server \<Rightarrow> server option" where
  "wait_completed os ov s =
     (let ((ret, _), s) = call os (Sys_has_completed ov) s in
      if ret \<noteq> 0 then Some (s\<lparr>kernel_io := removeAll ov (kernel_io s)\<rparr>)
      else let (_, s) = call os (Sys_Sleep 1) s in wait_completed os ov s)"

fun stop_accepts :: "os \<Rightarrow> nat list \<Rightarrow> server \<Rightarrow> server option" where
  "stop_accepts os [] s = Some s"
| "stop_accepts os (a # as) s = do {
     x \<leftarrow> accept_ctx s a;
     let (_, s) = call os (Sys_CancelIo (m_acceptSocket x)) s;
     let (_, s) = call os (Sys_closesocket (m_acceptSocket x)) s;
     s \<leftarrow> wait_completed os (Ov_accept a) s;
     stop_accepts os as (set_accept a None s) }"

definition close_exit_event :: "os \<Rightarrow> server \<Rightarrow> server" where
  "close_exit_event os s =
     (if m_hExitEvent s \<noteq> 0 then (close_handle os (m_hExitEvent s) s)\<lparr>m_hExitEvent := 0\<rparr> else s)"

definition close_port :: "os \<Rightarrow> server \<Rightarrow> server" where
  "close_port os s =
     (if m_hComPort s \<noteq> 0 then (close_handle os (m_hComPort s) s)\<lparr>m_hComPort := 0\<rparr> else s)"

definition close_listener :: "os \<Rightarrow> server \<Rightarrow> server" where
  "close_listener os s = (case m_pListenCtx s of
       None \<Rightarrow> s
     | Some l \<Rightarrow> (snd (call os (Sys_closesocket (lc_socket l)) s))\<lparr>m_pListenCtx := None\<rparr>)"

definition stop :: "os \<Rightarrow> server \<Rightarrow> (bool \<times> server) option" where
  "stop os s = do {
     let (_, s) = exitIocpWorker os s;
     let s = fold (close_handle os) (m_hWorkerThreads s) s;
     s \<leftarrow> stop_accepts os (m_acceptIoCtxList s) s;
     let s = s\<lparr>m_acceptIoCtxList := []\<rparr>;
     let s = close_exit_event os s;
     let s = close_port os s;
     let s = close_listener os s;
     Some (True, removeAllClients s) }"

text \<open>In \<^verbatim>\<open>shutdown\<close> the lambda returns early for a request that cannot be cancelled and keeps its context.\<close>

fun shutdown_accepts :: "os \<Rightarrow> nat list \<Rightarrow> server \<Rightarrow> server option" where
  "shutdown_accepts os [] s = Some s"
| "shutdown_accepts os (a # as) s = do {
     x \<leftarrow> accept_ctx s a;
     let ((ret, _), s) = call os (Sys_CancelIoEx (m_acceptSocket x) (Ov_accept a)) s;
     if ret = 0 then shutdown_accepts os as s
     else do {
       let (_, s) = call os (Sys_closesocket (m_acceptSocket x)) s;
       s \<leftarrow> wait_completed os (Ov_accept a) s;
       shutdown_accepts os as (set_accept a None s) } }"

definition shutdown :: "os \<Rightarrow> server \<Rightarrow> (bool \<times> server) option" where
  "shutdown os s = do {
     let s = s\<lparr>m_bIsShutdown := True\<rparr>;
     l \<leftarrow> m_pListenCtx s;
     let ((ret, _), s) = call os (Sys_CancelIoEx (lc_socket l) Ov_null) s;
     if ret = 0 then Some (False, s)
     else do {
       let (_, s) = call os (Sys_closesocket (lc_socket l)) s;
       let s = s\<lparr>m_pListenCtx := Some (l\<lparr>lc_socket := INVALID_SOCKET\<rparr>)\<rparr>;
       s \<leftarrow> shutdown_accepts os (m_acceptIoCtxList s) s;
       Some (False, s\<lparr>m_acceptIoCtxList := []\<rparr>) } }"

definition IocpServer_dtor :: "os \<Rightarrow> server \<Rightarrow> server option" where
  "IocpServer_dtor os s = do {
     (_, s) \<leftarrow> stop os s;
     Some (snd (Net_unInit os s)) }"

end
