(* ===== verification/HttpServer.thy ===== *)
theory HttpServer
  imports IocpServer
begin

text \<open>
  The class \<^verbatim>\<open>HttpServer\<close> (HttpServer.cpp), the program's \<^verbatim>\<open>main\<close> (main.cpp) and the heartbeat timer
  (Timer.cpp).
\<close>

section \<open>HttpServer\<close>

text \<open>
  The loop of \<^verbatim>\<open>notifyPackageReceived\<close>. The decoder keeps the pointer and the length it was
  constructed with, although the loop removes the data from the input buffer; so every round reads
  the same bytes of the region again, as they are at that time. The loop is a partial function:
  a run that does not end has no result.
\<close>

partial_function (option) decode_loop :: "os \<Rightarrow> nat \<Rightarrow> HttpCodec \<Rightarrow> server \<Rightarrow> server option" where
  "decode_loop os c codec s = do {
     (ret, codec) \<leftarrow> HttpCodec_tryDecode (memory s) codec;
     s \<leftarrow> (if ret \<noteq> 0 then do {
         let resMsg = HttpCodec_responseMessage codec;
         (_, s) \<leftarrow> send os c (Lit resMsg) 0 (word_of_nat (length resMsg)) s;
         remove_inBuf os c s }
       else Some s);
     s \<leftarrow> (if ret < 0 then close_and_release os c s else Some s);
     if ret > 0 then decode_loop os c codec s else Some s }"

declare decode_loop.simps [code]

text \<open>
  The header length and the status of a new decoder are not initialised; both are assigned before
  they are read, and 0 stands for them here.
\<close>

definition HttpServer_notifyPackageReceived :: notifier where
  "HttpServer_notifyPackageReceived os c s = do {
     x \<leftarrow> client s c;
     let (p, i) = Buffer_getBuffer (cc_inBuf x) 0;
     decode_loop os c (HttpCodec_ctor 0 0 p i (Buffer_getBufferLen (cc_inBuf x))) s }"

text \<open>
  \<^verbatim>\<open>main\<close>: a server on port 5001 with the default limit. When it starts, the main thread sleeps for
  ever (\<open>None\<close> as exit code); otherwise the object is destroyed and the program returns 0.
\<close>

definition server_main :: "os \<Rightarrow> world \<Rightarrow> (int option \<times> server) option" where
  "server_main os w = do {
     let s = IocpServer_ctor os 5001 10000 w;
     (ret, s) \<leftarrow> start os s;
     if \<not> ret then do { s \<leftarrow> IocpServer_dtor os s; Some (Some 0, s) }
     else Some (None, s) }"

section \<open>Timer.cpp\<close>

text \<open>
  The scan over the connected clients: a close notice for every expired client, up to the first
  client that is not expired or the first notice that cannot be posted.
\<close>

fun heartbeat_scan :: "os \<Rightarrow> u32 \<Rightarrow> nat list \<Rightarrow> server \<Rightarrow> server option" where
  "heartbeat_scan os curTime [] s = Some s"
| "heartbeat_scan os curTime (c # cs) s = do {
     x \<leftarrow> client s c;
     if curTime - m_nLastHeartbeatTime x > 10 * 1000 then do {
       let ((ret, _), s) = call os (Sys_post_status (m_hComPort s) 0 (Key_client c) Ov_null) s;
       if ret = 0 then Some s else heartbeat_scan os curTime cs s }
     else Some s }"

definition heartbeat_round :: "os \<Rightarrow> server \<Rightarrow> server option" where
  "heartbeat_round os s =
     (let ((t, _), s) = call os Sys_GetTickCount s
      in heartbeat_scan os (word_of_int t) (m_connectedClientList s) s)"

text \<open>
  The thread: \<open>n\<close> bounds the rounds that are looked at, as the loop has no other end than a failing
  call. The result is the exit code, or \<open>None\<close> while the thread is still running.
\<close>

fun heartbeat_loop :: "os \<Rightarrow> HANDLE \<Rightarrow> nat \<Rightarrow> server \<Rightarrow> (int option \<times> server) option" where
  "heartbeat_loop os hTimer 0 s = Some (None, s)"
| "heartbeat_loop os hTimer (Suc n) s = do {
     let ((ret, _), s) = call os (Sys_wait_event hTimer) s;
     if ret \<noteq> 0 then Some (Some 1, s)
     else do {
       s \<leftarrow> heartbeat_round os s;
       let ((ret, _), s) = call os (Sys_set_timer hTimer) s;
       if ret = 0 then Some (Some 2, s) else heartbeat_loop os hTimer n s } }"

definition checkHeartbeatWorker :: "os \<Rightarrow> nat \<Rightarrow> server option \<Rightarrow> (int option \<times> server option) option" where
  "checkHeartbeatWorker os n arg = (case arg of
       None \<Rightarrow> Some (Some 0, None)
     | Some s \<Rightarrow> do {
         let ((h, _), s) = call os Sys_create_timer s;
         if (word_of_int h :: HANDLE) = 0 then Some (Some 1, Some s)
         else do {
           let ((ret, _), s) = call os (Sys_set_timer (word_of_int h)) s;
           if ret = 0 then Some (Some 2, Some s)
           else do {
             (code, s) \<leftarrow> heartbeat_loop os (word_of_int h) n s;
             Some (code, Some s) } } })"

end
