(* ===== verification/ServerInv.thy ===== *)
theory ServerInv
  imports HttpServer
begin

text \<open>
  What the server keeps true while it runs: the lists of client contexts, the connection count and
  its limit (\<open>server_inv\<close>), over every sequence of completions, of data the kernel delivers and of
  calls of the public functions; and the balance between the pending-request count of a context and
  the requests the kernel really holds for it.

  The interface between the completion machinery and the package handler of a derived class is the
  locale \<open>package_handler\<close>; it is interpreted for the echo handler of \<^verbatim>\<open>IocpServer\<close> and for the
  handler of \<^verbatim>\<open>HttpServer\<close>.
\<close>

section \<open>The invariant\<close>

definition live_sockets :: "server \<Rightarrow> nat" where
  "live_sockets s = length (filter (\<lambda>k. k \<noteq> INVALID_SOCKET) (map cc_socket (clients s)))"

text \<open>\<open>server_inv N B\<close>: the server was created with the limit \<open>N\<close>, and its count is at most \<open>B\<close>.\<close>

definition server_inv :: "u32 \<Rightarrow> nat \<Rightarrow> server \<Rightarrow> bool" where
  "server_inv N B s \<longleftrightarrow> distinct (m_connectedClientList s @ m_freeClientList s)
     \<and> set (m_connectedClientList s @ m_freeClientList s) \<subseteq> {..<length (clients s)}
     \<and> live_sockets s \<le> unat (m_nConnClientCnt s)
     \<and> unat (m_nConnClientCnt s) \<le> B \<and> m_nMaxConnClientCnt s = N"

text \<open>A step is \<^emph>\<open>quiet\<close> when it touches neither the lists nor the counts nor a client's socket.\<close>

definition quiet :: "server \<Rightarrow> server \<Rightarrow> bool" where
  "quiet s s' \<longleftrightarrow> m_connectedClientList s' = m_connectedClientList s \<and> m_freeClientList s' = m_freeClientList s
     \<and> m_nConnClientCnt s' = m_nConnClientCnt s \<and> m_nMaxConnClientCnt s' = m_nMaxConnClientCnt s
     \<and> map cc_socket (clients s') = map cc_socket (clients s)"

named_theorems quiets \<open>operations that are quiet\<close>

lemma quiet_refl [simp]: "quiet s s"
  by (simp add: quiet_def)

lemma quiet_trans [trans]: "quiet s s1 \<Longrightarrow> quiet s1 s2 \<Longrightarrow> quiet s s2"
  by (simp add: quiet_def)

lemma quiet_length: "quiet s s' \<Longrightarrow> length (clients s') = length (clients s)"
  unfolding quiet_def by (metis length_map)

lemma quiet_live: "quiet s s' \<Longrightarrow> live_sockets s' = live_sockets s"
  by (simp add: quiet_def live_sockets_def)

lemma quiet_inv: "quiet s s' \<Longrightarrow> server_inv N B s \<Longrightarrow> server_inv N B s'"
  using quiet_length [of s s'] quiet_live [of s s'] by (auto simp: server_inv_def quiet_def)

lemma client_SomeD: "client s c = Some x \<Longrightarrow> c < length (clients s) \<and> clients s ! c = x"
  by (auto simp: client_def split: if_splits)

lemma quiet_set_client [quiets]:
  assumes "client s c = Some x" and "cc_socket y = cc_socket x"
  shows "quiet s (set_client c y s)"
proof -
  have "map cc_socket ((clients s)[c := y]) = map cc_socket (clients s)"
    using client_SomeD [OF assms(1)] assms(2) by (simp add: map_update list_update_same_conv)
  then show ?thesis by (simp add: quiet_def set_client_def)
qed

lemma quiet_fields [quiets]:
  "quiet s (s\<lparr>trace := t\<rparr>)" "quiet s (s\<lparr>memory := m\<rparr>)" "quiet s (s\<lparr>kernel_io := k\<rparr>)"
  "quiet s (s\<lparr>accepts := a\<rparr>)" "quiet s (set_accept i v s)" "quiet s (destroy b s)"
  by (simp_all add: quiet_def set_accept_def destroy_def)

lemma quiet_call: "call os k s = (r, s') \<Longrightarrow> quiet s s'"
  by (auto simp: call_def quiet_def)

lemma client_world [simp]:
  "client (s\<lparr>trace := t\<rparr>) c = client s c" "client (s\<lparr>memory := m\<rparr>) c = client s c"
  "client (s\<lparr>kernel_io := k\<rparr>) c = client s c" "client (set_accept a v s) c = client s c"
  "client (destroy b s) c = client s c"
  by (simp_all add: client_def set_accept_def destroy_def)

lemma client_set_client [simp]:
  "client (set_client c x s) d = (if c = d \<and> c < length (clients s) then Some x else client s d)"
  by (auto simp: client_def set_client_def)

lemma quiet_enterIoLoop [quiets]: "enterIoLoop c s = Some s' \<Longrightarrow> quiet s s'"
  by (auto simp: enterIoLoop_def bind_eq_Some_conv quiet_set_client)

lemma quiet_exitIoLoop [quiets]: "exitIoLoop c s = Some (n, s') \<Longrightarrow> quiet s s'"
  by (auto simp: exitIoLoop_def bind_eq_Some_conv Let_def quiet_set_client)

lemma quiet_Net [quiets]:
  "Net_setLinger os k on t s = (b, s') \<Longrightarrow> quiet s s'"
  "Net_WSASocket os s = (k', s') \<Longrightarrow> quiet s s'"
  "Net_getpeername os k s = (a, s') \<Longrightarrow> quiet s s'"
  "Net_updateAcceptContext os k j s = (b, s') \<Longrightarrow> quiet s s'"
  "associateWithCompletionPort os k ck s = (h, s') \<Longrightarrow> quiet s s'"
  by (auto simp: Net_setLinger_def Net_WSASocket_def Net_getpeername_def Net_updateAcceptContext_def
      associateWithCompletionPort_def call_def quiet_def Let_def case_prod_unfold split: option.splits)

lemma quiet_postAccept [quiets]: "postAccept os a s = Some (b, s') \<Longrightarrow> quiet s s'"
  by (auto simp: postAccept_def Net_WSASocket_def call_def set_accept_def quiet_def Let_def bind_eq_Some_conv
      case_prod_unfold split: if_splits)

lemma quiet_postRecv [quiets]:
  assumes "postRecv os c s = Some (r, s')"
  shows "quiet s s'"
proof -
  from assms obtain x where x: "client s c = Some x" by (auto simp: postRecv_def bind_eq_Some_conv)
  let ?y = "x\<lparr>m_recvIoCtx := RecvIoContext_resetBuffer (m_recvIoCtx x)\<rparr>"
  have "quiet s (set_client c ?y s)" using x by (rule quiet_set_client) simp
  moreover from assms x have "quiet (set_client c ?y s) s'"
    by (auto simp: postRecv_def call_def quiet_def Let_def case_prod_unfold split: if_splits)
  ultimately show ?thesis by (rule quiet_trans)
qed

lemma quiet_postSend [quiets]: "postSend os c s = Some (r, s') \<Longrightarrow> quiet s s'"
  by (auto simp: postSend_def call_def quiet_def Let_def bind_eq_Some_conv case_prod_unfold split: if_splits)

lemma quiet_point_send [quiets]: "point_send c b s = Some s' \<Longrightarrow> quiet s s'"
  by (auto simp: point_send_def Buffer_getBuffer_def bind_eq_Some_conv Let_def quiet_set_client)

lemma quiet_set_outBuf [quiets]: "set_outBuf c b m s = Some s' \<Longrightarrow> quiet s s'"
  by (auto simp: set_outBuf_def bind_eq_Some_conv
      intro!: quiet_trans [OF quiet_fields(2) quiet_set_client])

lemma quiet_remove_inBuf [quiets]: "remove_inBuf os c s = Some s' \<Longrightarrow> quiet s s'"
  by (auto simp: remove_inBuf_def bind_eq_Some_conv
      intro!: quiet_trans [OF quiet_fields(2) quiet_set_client])

lemma quiet_notifyNewConnection [quiets]: "notifyNewConnection os c s = Some s' \<Longrightarrow> quiet s s'"
  by (auto simp: notifyNewConnection_def Net_getpeername_def call_def bind_eq_Some_conv Let_def case_prod_unfold
      intro!: quiet_trans [OF quiet_fields(1) quiet_set_client])

section \<open>Steps that change the lists and counts\<close>

lemma inv_removeClient: "server_inv N B s \<Longrightarrow> server_inv N B (removeClient c s)"
  by (auto simp: server_inv_def removeClient_def live_sockets_def distinct_removeAll)

lemma inv_releaseClientContext:
  "server_inv N B s \<Longrightarrow> releaseClientContext c s = Some s' \<Longrightarrow> server_inv N B s'"
  by (auto simp: releaseClientContext_def bind_eq_Some_conv dest!: quiet_exitIoLoop
      intro: inv_removeClient quiet_inv split: if_splits)

lemma live_close:
  assumes "client s c = Some x"
  shows "live_sockets (set_client c (x\<lparr>cc_socket := INVALID_SOCKET\<rparr>) s)
           = live_sockets s - (if cc_socket x = INVALID_SOCKET then 0 else 1)"
    and "cc_socket x \<noteq> INVALID_SOCKET \<Longrightarrow> 0 < live_sockets s"
proof -
  have c: "c < length (clients s)" "clients s ! c = x" using client_SomeD [OF assms] by auto
  define ys where "ys = map cc_socket (clients s)"
  have len: "c < length ys" and nth: "ys ! c = cc_socket x" using c by (simp_all add: ys_def)
  have split: "ys = take c ys @ ys ! c # drop (Suc c) ys" using len by (simp add: id_take_nth_drop)
  have upd: "ys[c := INVALID_SOCKET] = take c ys @ INVALID_SOCKET # drop (Suc c) ys"
    using len by (simp add: upd_conv_take_nth_drop)
  have f: "filter P ys = filter P (take c ys) @ (if P (ys ! c) then [ys ! c] else []) @ filter P (drop (Suc c) ys)" for P
    by (subst split) simp
  show "live_sockets (set_client c (x\<lparr>cc_socket := INVALID_SOCKET\<rparr>) s)
           = live_sockets s - (if cc_socket x = INVALID_SOCKET then 0 else 1)"
    using upd f [of "\<lambda>k. k \<noteq> INVALID_SOCKET"] nth
    by (simp add: live_sockets_def set_client_def map_update ys_def [symmetric])
  show "0 < live_sockets s" if "cc_socket x \<noteq> INVALID_SOCKET"
    using that f [of "\<lambda>k. k \<noteq> INVALID_SOCKET"] nth by (simp add: live_sockets_def ys_def [symmetric])
qed

lemma inv_closed_socket:
  assumes "server_inv N B s" and "client s c = Some x"
  shows "server_inv N B (set_client c (x\<lparr>cc_socket := INVALID_SOCKET\<rparr>) s)"
  using assms live_close(1) [OF assms(2)] by (auto simp: server_inv_def) (auto simp: set_client_def)

lemma inv_CloseClient:
  assumes "server_inv N B s" and "CloseClient os c s = Some s'"
  shows "server_inv N B s'"
proof -
  from assms(2) obtain x where x: "client s c = Some x" by (auto simp: CloseClient_def bind_eq_Some_conv)
  let ?s = "set_client c (x\<lparr>cc_socket := INVALID_SOCKET\<rparr>) s"
  have inv: "server_inv N B ?s" by (rule inv_closed_socket [OF assms(1) x])
  define s1 where "s1 = ?s\<lparr>trace := trace s @ [Sys_linger (cc_socket x) True 0, Sys_CancelIoEx (cc_socket x) Ov_null,
    Sys_closesocket (cc_socket x)]\<rparr>"
  have "quiet ?s s' \<or> (cc_socket x \<noteq> INVALID_SOCKET \<and> s' = s1\<lparr>m_nConnClientCnt := m_nConnClientCnt s1 - 1\<rparr>)"
    using assms(2) x
    by (auto simp: CloseClient_def Net_setLinger_def call_def Let_def quiet_def case_prod_unfold s1_def set_client_def
        split: if_splits)
  moreover have "quiet ?s s1" by (simp add: s1_def quiets)
  ultimately consider "quiet ?s s'"
    | "cc_socket x \<noteq> INVALID_SOCKET" "quiet ?s s1" "s' = s1\<lparr>m_nConnClientCnt := m_nConnClientCnt s1 - 1\<rparr>"
    by blast
  then show ?thesis
  proof cases
    case 1
    then show ?thesis using inv by (rule quiet_inv)
  next
    case 2
    have "live_sockets s1 = live_sockets s - 1" "0 < live_sockets s"
      using quiet_live [OF 2(2)] live_close [OF x] 2(1) by simp_all
    moreover have "m_nConnClientCnt s1 = m_nConnClientCnt s" "m_nMaxConnClientCnt s1 = m_nMaxConnClientCnt s"
      using 2(2) by (simp_all add: quiet_def set_client_def)
    moreover have "live_sockets s \<le> unat (m_nConnClientCnt s)" "unat (m_nConnClientCnt s) \<le> B"
      using assms(1) by (auto simp: server_inv_def)
    moreover have "server_inv N B s1" using quiet_inv [OF 2(2) inv] .
    moreover from calculation have "unat (m_nConnClientCnt s - 1) = unat (m_nConnClientCnt s) - 1"
      by (intro unat_minus_one) auto
    ultimately show ?thesis
      by (auto simp: server_inv_def 2(3) live_sockets_def word_le_nat_alt)
  qed
qed

lemma inv_close_and_release:
  "server_inv N B s \<Longrightarrow> close_and_release os c s = Some s' \<Longrightarrow> server_inv N B s'"
  by (auto simp: close_and_release_def bind_eq_Some_conv intro: inv_releaseClientContext inv_CloseClient)

lemma inv_set_client:
  "server_inv N B s \<Longrightarrow> client s c = Some x \<Longrightarrow> cc_socket y = cc_socket x \<Longrightarrow> server_inv N B (set_client c y s)"
  by (rule quiet_inv [OF quiet_set_client])

lemma inv_quiet_close:
  "server_inv N B s \<Longrightarrow> quiet s s1 \<Longrightarrow> close_and_release os c s1 = Some s' \<Longrightarrow> server_inv N B s'"
  by (blast intro: inv_close_and_release quiet_inv)

lemma inv_destroy [simp]: "server_inv N B (destroy b s) = server_inv N B s"
  by (simp add: server_inv_def destroy_def live_sockets_def)

lemma inv_send:
  assumes "server_inv N B s" and "send os c src si len s = Some (b, s')"
  shows "server_inv N B s'"
proof -
  from assms(2) obtain n sb m x where w: "Buffer_write (valloc os) (memory s) Buffer_ctor src si len = Some (n, sb, m)"
    "client s c = Some x" by (auto simp: send_def bind_eq_Some_conv Let_def)
  show ?thesis
  proof (cases "Buffer_getBufferLen (cc_outBuf x) = 0")
    case False
    with assms(2) w have "s' = destroy sb (set_client c (x\<lparr>m_outBufQueue := m_outBufQueue x @ [sb]\<rparr>) (s\<lparr>memory := m\<rparr>))"
      by (simp add: send_def)
    moreover have "quiet s (set_client c (x\<lparr>m_outBufQueue := m_outBufQueue x @ [sb]\<rparr>) (s\<lparr>memory := m\<rparr>))"
      using w(2) by (intro quiet_trans [OF quiet_fields(2) quiet_set_client]) auto
    ultimately show ?thesis using assms(1) by (simp add: quiet_inv)
  next
    case True
    with assms(2) w obtain s1 b' m' s2 s3 res s4 where steps: "enterIoLoop c (s\<lparr>memory := m\<rparr>) = Some s1"
      "set_outBuf c b' m' s1 = Some s2" "point_send c b' s2 = Some s3" "postSend os c s3 = Some (res, s4)"
      and s': "(if res = PostResultFailed then \<exists>s5. close_and_release os c s4 = Some s5 \<and> s' = destroy sb s5
         else s' = destroy sb s4)"
      by (auto simp: send_def bind_eq_Some_conv split: if_splits)
    have "quiet s s4"
      using quiet_trans [OF quiet_trans [OF quiet_trans [OF quiet_trans [OF quiet_fields(2)
        quiet_enterIoLoop [OF steps(1)]] quiet_set_outBuf [OF steps(2)]] quiet_point_send [OF steps(3)]]
        quiet_postSend [OF steps(4)]] .
    with s' assms(1) show ?thesis by (auto intro: quiet_inv inv_quiet_close split: if_splits)
  qed
qed

lemma inv_post_recv_or_close:
  "server_inv N B s \<Longrightarrow> post_recv_or_close os c s = Some s' \<Longrightarrow> server_inv N B s'"
  by (auto simp: post_recv_or_close_def bind_eq_Some_conv dest: quiet_postRecv
      intro: quiet_inv inv_quiet_close split: if_splits)

lemma inv_echo: "server_inv N B s \<Longrightarrow> echo os c s = Some s' \<Longrightarrow> server_inv N B s'"
  by (auto simp: echo_def bind_eq_Some_conv Buffer_getBuffer_def dest!: quiet_remove_inBuf
      intro: quiet_inv inv_send)

lemma inv_decode_loop:
  assumes "decode_loop os c codec s = Some s'" and "server_inv N B s"
  shows "server_inv N B s'"
proof -
  have "server_inv N B s \<longrightarrow> server_inv N B s'"
    using assms(1)
  proof (rule decode_loop.raw_induct [where P = "\<lambda>os c codec s s'. server_inv N B s \<longrightarrow> server_inv N B s'", rotated])
    fix loop os c codec s s'
    assume IH: "\<And>os c codec s s'. loop os c codec s = Some s' \<Longrightarrow> server_inv N B s \<longrightarrow> server_inv N B s'"
      and eq: "Option.bind (HttpCodec_tryDecode (memory s) codec) (\<lambda>(ret, codec).
        Option.bind (if ret \<noteq> 0 then let resMsg = HttpCodec_responseMessage codec
               in Option.bind (send os c (Lit resMsg) 0 (word_of_nat (length resMsg)) s) (\<lambda>(uu, s). remove_inBuf os c s)
          else Some s) (\<lambda>s. Option.bind (if ret < 0 then close_and_release os c s else Some s)
              (\<lambda>s. if 0 < ret then loop os c codec s else Some s))) = Some s'"
    show "server_inv N B s \<longrightarrow> server_inv N B s'"
      using eq IH
      by (auto simp: bind_eq_Some_conv Let_def dest!: quiet_remove_inBuf split: if_splits
          intro: inv_send quiet_inv inv_close_and_release) (meson inv_send quiet_inv inv_close_and_release)+
  qed
  with assms(2) show ?thesis by blast
qed

lemma inv_next_output:
  assumes "server_inv N B s" and "next_output os c n s = Some s'"
  shows "server_inv N B s'"
proof -
  from assms(2) obtain x r b m s1 where 1: "client s c = Some x" "set_outBuf c b m s = Some s1"
    and rest: "(if Buffer_getBufferLen b = 0 then do {
       (b, m) \<leftarrow> Buffer_clear (valloc os) (memory s1) b;
       s \<leftarrow> set_outBuf c b m s1;
       case m_outBufQueue x of
         q # qs \<Rightarrow> do {
           (b, m) \<leftarrow> Buffer_copy (valloc os) (memory s) b q;
           s \<leftarrow> set_outBuf c b m s;
           x \<leftarrow> client s c;
           Some (destroy q (set_client c (x\<lparr>m_outBufQueue := qs\<rparr>) s)) }
       | [] \<Rightarrow> releaseClientContext c s }
     else Some s1) = Some s'"
    by (auto simp: next_output_def bind_eq_Some_conv)
  have q1: "quiet s s1" by (rule quiet_set_outBuf [OF 1(2)])
  show ?thesis
  proof (cases "Buffer_getBufferLen b = 0")
    case False
    with rest q1 assms(1) show ?thesis by (auto intro: quiet_inv)
  next
    case True
    with rest obtain b2 m2 s2 where 2: "set_outBuf c b2 m2 s1 = Some s2"
      and rest2: "(case m_outBufQueue x of
         q # qs \<Rightarrow> do {
           (b, m) \<leftarrow> Buffer_copy (valloc os) (memory s2) b2 q;
           s \<leftarrow> set_outBuf c b m s2;
           x \<leftarrow> client s c;
           Some (destroy q (set_client c (x\<lparr>m_outBufQueue := qs\<rparr>) s)) }
       | [] \<Rightarrow> releaseClientContext c s2) = Some s'"
      by (auto simp: bind_eq_Some_conv)
    have "server_inv N B s2"
      using quiet_inv [OF quiet_trans [OF q1 quiet_set_outBuf [OF 2]] assms(1)] .
    show ?thesis
    proof (cases "m_outBufQueue x")
      case Nil
      with rest2 \<open>server_inv N B s2\<close> show ?thesis by (auto intro: inv_releaseClientContext)
    next
      case (Cons q qs)
      with rest2 obtain b3 m3 s3 y where 3: "set_outBuf c b3 m3 s2 = Some s3" "client s3 c = Some y"
        "s' = destroy q (set_client c (y\<lparr>m_outBufQueue := qs\<rparr>) s3)"
        by (auto simp: bind_eq_Some_conv)
      have "server_inv N B s3" using quiet_inv [OF quiet_set_outBuf [OF 3(1)] \<open>server_inv N B s2\<close>] .
      with 3(2,3) show ?thesis by (simp add: inv_set_client [OF _ 3(2)])
    qed
  qed
qed

lemma inv_handleSend:
  assumes "server_inv N B s" and "handleSend os c ov n s = Some (b, s')"
  shows "server_inv N B s'"
proof -
  from assms(2) obtain s1 x where 1: "next_output os c n s = Some s1" "client s1 c = Some x"
    by (auto simp: handleSend_def bind_eq_Some_conv)
  have inv: "server_inv N B s1" by (rule inv_next_output [OF assms(1) 1(1)])
  show ?thesis
  proof (cases "Buffer_getBufferLen (cc_outBuf x) = 0")
    case True
    with assms(2) 1 inv show ?thesis by (simp add: handleSend_def)
  next
    case False
    with assms(2) 1 obtain s2 r s3 where 2: "point_send ov (cc_outBuf x) s1 = Some s2" "postSend os c s2 = Some (r, s3)"
      and s': "(if r = PostResultFailed then close_and_release os c s3 else Some s3) = Some s'"
      by (auto simp: handleSend_def bind_eq_Some_conv)
    have "server_inv N B s3"
      using quiet_inv [OF quiet_trans [OF quiet_point_send [OF 2(1)] quiet_postSend [OF 2(2)]] inv] .
    with s' show ?thesis by (auto intro: inv_close_and_release split: if_splits)
  qed
qed

lemma inv_handleClose: "server_inv N B s \<Longrightarrow> handleClose os c s = Some (b, s') \<Longrightarrow> server_inv N B s'"
  by (auto simp: handleClose_def bind_eq_Some_conv intro: inv_close_and_release)

text \<open>A connection is accepted: the context comes from the free list, or it is new.\<close>

lemma live_set_client:
  assumes "client s c = Some x"
  shows "live_sockets (set_client c y s) \<le> live_sockets s + 1"
proof -
  have c: "c < length (clients s)" using client_SomeD [OF assms] by auto
  define ys where "ys = map cc_socket (clients s)"
  have len: "c < length ys" using c by (simp add: ys_def)
  have upd: "ys[c := cc_socket y] = take c ys @ cc_socket y # drop (Suc c) ys"
    using len by (simp add: upd_conv_take_nth_drop)
  have split: "ys = take c ys @ ys ! c # drop (Suc c) ys" using len by (simp add: id_take_nth_drop)
  have "length (filter P (ys[c := cc_socket y])) \<le> length (filter P ys) + 1" for P
    unfolding upd by (subst (3) split) simp
  then show ?thesis by (simp add: live_sockets_def set_client_def map_update ys_def [symmetric])
qed

lemma allocateClientContext_cases:
  assumes "allocateClientContext os sock s = Some (c, s')"
  obtains x where "m_freeClientList s = []" "c = length (clients s)" "cc_socket x = sock"
      "s' = s\<lparr>trace := trace s @ [Sys_GetTickCount], clients := clients s @ [x]\<rparr>"
    | y x fs where "m_freeClientList s = c # fs" "client s c = Some y" "m_nPendingIoCnt y = 0" "m_outBufQueue y = []"
      "m_nPendingIoCnt x = 0" "cc_socket x = sock"
      "s' = set_client c x (s\<lparr>m_freeClientList := fs, trace := trace s @ [Sys_GetTickCount]\<rparr>)"
proof (cases "m_freeClientList s")
  case Nil
  let ?x = "(ClientContext_ctor 0 sock)\<lparr>m_nLastHeartbeatTime := word_of_int (fst (sys os (trace s) Sys_GetTickCount))\<rparr>"
  have "c = length (clients s)" "s' = s\<lparr>trace := trace s @ [Sys_GetTickCount], clients := clients s @ [?x]\<rparr>"
    using assms Nil by (auto simp: allocateClientContext_def client_def ClientContext_reset_def ClientContext_ctor_def
        call_def set_client_def Let_def case_prod_unfold)
  then show ?thesis using that(1) [of ?x] Nil by (simp add: ClientContext_ctor_def)
next
  case (Cons f fs)
  let ?x = "\<lambda>y. y\<lparr>cc_socket := sock, cc_addr := zero_addr,
    m_nLastHeartbeatTime := word_of_int (fst (sys os (trace s) Sys_GetTickCount))\<rparr>"
  obtain y where y: "client s f = Some y" "m_nPendingIoCnt y = 0" "m_outBufQueue y = []" "c = f"
    "s' = set_client f (?x y) (s\<lparr>m_freeClientList := fs, trace := trace s @ [Sys_GetTickCount]\<rparr>)"
    using assms Cons
    by (auto simp: allocateClientContext_def client_def ClientContext_reset_def call_def
        set_client_def Let_def case_prod_unfold bind_eq_Some_conv split: if_splits)
  then show ?thesis using that(2) [of fs y "?x y"] Cons by simp
qed

lemma word_inc:
  fixes a :: u32
  assumes "unat a < n" and "n < 2 ^ 32"
  shows "unat (a + 1) = unat a + 1"
  using assms by (simp add: unat_word_ariths)

lemma allocateClientContext_inv:
  assumes "server_inv N B s" and "B + 1 < 2 ^ 32"
    and "allocateClientContext os sock (s\<lparr>m_nConnClientCnt := m_nConnClientCnt s + 1\<rparr>) = Some (c, s')"
  shows "server_inv N (B + 1) s' \<and> c \<notin> set (m_connectedClientList s' @ m_freeClientList s') \<and> c < length (clients s')"
proof -
  have inc: "unat (m_nConnClientCnt s + 1) = unat (m_nConnClientCnt s) + 1"
    using word_inc [OF _ assms(2), of "m_nConnClientCnt s"] assms(1) by (simp add: server_inv_def)
  from assms(3) show ?thesis
  proof (cases rule: allocateClientContext_cases)
    case (1 x)
    have "live_sockets s' \<le> live_sockets s + 1" by (simp add: 1 live_sockets_def)
    with 1 assms(1) inc show ?thesis
      by (auto simp: server_inv_def less_Suc_eq)
  next
    case (2 y x fs)
    let ?s = "s\<lparr>m_nConnClientCnt := m_nConnClientCnt s + 1, m_freeClientList := fs, trace := trace s @ [Sys_GetTickCount]\<rparr>"
    have s': "s' = set_client c x ?s" using 2(7) by simp
    have "client ?s c = Some y" using 2(2) by (simp add: client_def split: if_splits)
    from live_set_client [OF this, of x] have "live_sockets s' \<le> live_sockets s + 1"
      by (simp add: s' live_sockets_def)
    moreover have "length (clients s') = length (clients s)" "m_connectedClientList s' = m_connectedClientList s"
      "m_freeClientList s' = fs" "m_nConnClientCnt s' = m_nConnClientCnt s + 1"
      "m_nMaxConnClientCnt s' = m_nMaxConnClientCnt s"
      by (simp_all add: s' set_client_def)
    ultimately show ?thesis
      using 2(1) assms(1) inc by (auto simp: server_inv_def)
  qed
qed

lemma inv_addClient:
  "server_inv N B s \<Longrightarrow> c \<notin> set (m_connectedClientList s @ m_freeClientList s) \<Longrightarrow> c < length (clients s)
   \<Longrightarrow> server_inv N B (addClient c s)"
  by (auto simp: server_inv_def addClient_def live_sockets_def)

text \<open>The parts of \<^verbatim>\<open>handleAccept\<close>: only the last one raises the count, whatever it is by then.\<close>

lemma accept_admitted_quiet:
  "accept_admitted os a s = Some (b, s') \<Longrightarrow> quiet s s' \<and> (b \<longleftrightarrow> m_nConnClientCnt s < m_nMaxConnClientCnt s)"
  by (auto simp: accept_admitted_def Net_updateAcceptContext_def call_def quiet_def Let_def bind_eq_Some_conv case_prod_unfold not_le)

lemma quiet_accept_refuse:
  assumes "accept_refuse os a x s = Some (b, s')"
  shows "quiet s s'"
proof -
  let ?s = "set_accept a (Some (x\<lparr>m_acceptSocket := INVALID_SOCKET\<rparr>)) (s\<lparr>trace := trace s @ [Sys_closesocket (m_acceptSocket x)]\<rparr>)"
  from assms obtain r where "postAccept os a ?s = Some (r, s')"
    by (auto simp: accept_refuse_def call_def Let_def bind_eq_Some_conv case_prod_unfold)
  from quiet_trans [OF quiet_trans [OF quiet_fields(1) quiet_fields(5)] quiet_postAccept [OF this]] show ?thesis .
qed

lemma inv_accept_enter:
  assumes "server_inv N B s" and "B + 1 < 2 ^ 32" and "accept_enter os a x s = Some (b, s')"
  shows "server_inv N (B + 1) s'"
proof -
  from assms(3) obtain c s2 where
    al: "allocateClientContext os (m_acceptSocket x) (s\<lparr>m_nConnClientCnt := m_nConnClientCnt s + 1\<rparr>) = Some (c, s2)"
    by (auto simp: accept_enter_def bind_eq_Some_conv)
  note inv2 = allocateClientContext_inv [OF assms(1,2) al]
  obtain y where y: "client s2 c = Some y" using inv2 by (simp add: client_def)
  define s3 where "s3 = snd (associateWithCompletionPort os (cc_socket y) (Some (Key_client c)) s2)"
  define h where "h = fst (associateWithCompletionPort os (cc_socket y) (Some (Key_client c)) s2)"
  have q3: "quiet s2 s3" using quiet_Net(5) [of os "cc_socket y" "Some (Key_client c)" s2 h s3] by (simp add: h_def s3_def)
  show ?thesis
  proof (cases "h = 0")
    case True
    with assms(3) al y h_def s3_def have "s' = s3" by (auto simp: accept_enter_def case_prod_unfold Let_def bind_eq_Some_conv)
    with quiet_inv [OF q3] inv2 show ?thesis by simp
  next
    case nz: False
    with assms(3) al y h_def s3_def obtain s4 r s5 s6 where
      4: "enterIoLoop c s3 = Some s4" "postAccept os a s4 = Some (r, s5)" "notifyNewConnection os c s5 = Some s6"
        "post_recv_or_close os c (addClient c s6) = Some s'"
      by (auto simp: accept_enter_def case_prod_unfold Let_def bind_eq_Some_conv)
    have q: "quiet s2 s6" using quiet_trans [OF quiet_trans [OF quiet_trans [OF q3 quiet_enterIoLoop [OF 4(1)]]
        quiet_postAccept [OF 4(2)]] quiet_notifyNewConnection [OF 4(3)]] .
    have "server_inv N (B + 1) (addClient c s6)"
      using inv2 quiet_inv [OF q] quiet_length [OF q] q by (intro inv_addClient) (auto simp: quiet_def)
    with 4(4) show ?thesis by (blast intro: inv_post_recv_or_close)
  qed
qed

lemma server_inv_mono: "server_inv N B s \<Longrightarrow> B \<le> C \<Longrightarrow> server_inv N C s"
  by (auto simp: server_inv_def)

lemma server_inv_admitted:
  "server_inv N B s \<Longrightarrow> m_nConnClientCnt s < m_nMaxConnClientCnt s \<Longrightarrow> server_inv N (unat N - 1) s"
  by (auto simp: server_inv_def word_less_nat_alt)

text \<open>Done in one go, the handler keeps every bound that is not below the limit.\<close>

lemma inv_handleAccept:
  assumes "server_inv N B s" and "unat N \<le> B" and "handleAccept os a s = Some (b, s')"
  shows "server_inv N B s'"
proof -
  from assms(3) obtain x g s1 where 1: "accept_admitted os a s = Some (g, s1)"
    "(if g then accept_enter os a x s1 else accept_refuse os a x s1) = Some (b, s')"
    by (auto simp: handleAccept_def bind_eq_Some_conv)
  note q = accept_admitted_quiet [OF 1(1)]
  have inv1: "server_inv N B s1" using q assms(1) by (blast intro: quiet_inv)
  show ?thesis
  proof (cases g)
    case True
    have N: "0 < unat N" using q True assms(1) by (auto simp: server_inv_def word_less_nat_alt)
    have "m_nConnClientCnt s1 < m_nMaxConnClientCnt s1" using q True by (simp add: quiet_def)
    with inv1 have "server_inv N (unat N - 1) s1" by (rule server_inv_admitted)
    moreover have "unat N - 1 + 1 < 2 ^ 32" using N unat_less_2_32 [of N] by simp
    moreover have "accept_enter os a x s1 = Some (b, s')" using 1(2) True by simp
    ultimately have "server_inv N (unat N - 1 + 1) s'" by (rule inv_accept_enter)
    then show ?thesis by (rule server_inv_mono) (use N assms(2) in simp)
  next
    case False
    then show ?thesis using 1(2) inv1 by (auto dest: quiet_accept_refuse intro: quiet_inv)
  qed
qed

section \<open>The package handler as an interface\<close>

text \<open>
  What the completion machinery relies on: a package handler keeps the invariant. The worker then
  keeps it for every completion whatever.
\<close>

locale package_handler =
  fixes notify :: notifier
  assumes notify_inv: "notify os c s = Some s' \<Longrightarrow> server_inv N B s \<Longrightarrow> server_inv N B s'"
begin

lemma handleRecv_inv:
  assumes "server_inv N B s" and "handleRecv os notify c ov n s = Some (b, s')"
  shows "server_inv N B s'"
proof -
  from assms(2) obtain x y m s1 and r :: ClientContext where x: "client s c = Some x"
    and ap: "ClientContext_appendToBuffer (valloc os) (memory s) x (m_recvBuf (m_recvIoCtx r)) n = Some (y, m)"
    and s1: "notify os c (set_client c y (s\<lparr>memory := m\<rparr>)) = Some s1" "post_recv_or_close os c s1 = Some s'"
    by (auto simp: handleRecv_def bind_eq_Some_conv)
  have "cc_socket y = cc_socket x"
    using ap by (auto simp: ClientContext_appendToBuffer_def bind_eq_Some_conv split: if_splits)
  then have "quiet s (set_client c y (s\<lparr>memory := m\<rparr>))"
    using x by (intro quiet_trans [OF quiet_fields(2) quiet_set_client]) auto
  with assms(1) s1 notify_inv show ?thesis by (blast intro: quiet_inv inv_post_recv_or_close)
qed

lemma worker_round_inv:
  assumes "server_inv N B s" and "unat N \<le> B" and "worker_round os notify q s = Some (b, s')"
  shows "server_inv N B s'"
  using assms
  by (auto simp: worker_round_def bind_eq_Some_conv split: if_splits option.splits PostType.splits key.splits overlapped.splits
      intro: handleRecv_inv inv_handleSend inv_handleAccept inv_handleClose)

lemma IocpWorkerThread_inv:
  "server_inv N B s \<Longrightarrow> unat N \<le> B \<Longrightarrow> IocpWorkerThread os notify qs s = Some s' \<Longrightarrow> server_inv N B s'"
proof (induction qs arbitrary: s)
  case Nil
  then show ?case
    by (auto simp: IocpWorkerThread.simps call_def case_prod_unfold Let_def intro: quiet_inv [OF quiet_fields(1)] split: if_splits)
next
  case (Cons q qs)
  have "server_inv N B (s\<lparr>trace := t\<rparr>)" for t using Cons.prems(1) by (rule quiet_inv [OF quiet_fields(1)])
  with Cons show ?case
    by (subst (asm) (2) IocpWorkerThread.simps)
       (auto simp: call_def case_prod_unfold Let_def bind_eq_Some_conv intro: worker_round_inv split: if_splits)
qed

end

interpretation echo_handler: package_handler IocpServer_notifyPackageReceived
  by unfold_locales (auto simp: IocpServer_notifyPackageReceived_def intro: inv_echo)

interpretation http_handler: package_handler HttpServer_notifyPackageReceived
  by unfold_locales
     (auto simp: HttpServer_notifyPackageReceived_def Buffer_getBuffer_def bind_eq_Some_conv intro: inv_decode_loop)

section \<open>Reachable states\<close>

lemma quiet_start_parts:
  "ListenContext_ctor os p s = Some (l, s') \<Longrightarrow> quiet s s'"
  "getAcceptExPtr os s = Some (b, s') \<Longrightarrow> quiet s s'"
  "getAcceptExSockaddrs os s = Some (b, s') \<Longrightarrow> quiet s s'"
  by (auto simp: ListenContext_ctor_def getAcceptExPtr_def getAcceptExSockaddrs_def Net_WSASocket_def call_def
      quiet_def Let_def case_prod_unfold bind_eq_Some_conv split: if_splits)

lemma quiet_createListenClient: "createListenClient os p s = Some (b, s') \<Longrightarrow> quiet s s'"
proof -
  assume a: "createListenClient os p s = Some (b, s')"
  then obtain l s1 where 1: "ListenContext_ctor os p s = Some (l, s1)"
    by (auto simp: createListenClient_def bind_eq_Some_conv)
  have "quiet s1 s'"
    using a 1
    by (auto simp: createListenClient_def associateWithCompletionPort_def Net_bind_def Net_listen_def call_def
        Let_def case_prod_unfold bind_eq_Some_conv dest!: quiet_start_parts(2,3) split: if_splits)
       (auto simp: quiet_def)
  with quiet_start_parts(1) [OF 1] show ?thesis by (rule quiet_trans)
qed

lemma quiet_create_workers: "create_workers os n s = (b, s') \<Longrightarrow> quiet s s'"
proof (induction n arbitrary: s)
  case (Suc n)
  show ?case
  proof (cases "(word_of_int (fst (fst (call os Sys_begin_thread s))) :: HANDLE) = 0")
    case True
    with Suc.prems show ?thesis by (auto simp: call_def quiet_def Let_def case_prod_unfold)
  next
    case False
    with Suc.prems have "quiet (s\<lparr>trace := trace s @ [Sys_begin_thread],
        m_hWorkerThreads := m_hWorkerThreads s @ [word_of_int (fst (sys os (trace s) Sys_begin_thread))],
        m_nWorkerCnt := m_nWorkerCnt s + 1\<rparr>) s'"
      by (intro Suc.IH) (simp add: call_def Let_def case_prod_unfold)
    then show ?thesis by (simp add: quiet_def)
  qed
qed simp

lemma quiet_init_accepts: "init_accepts os n s = Some (b, s') \<Longrightarrow> quiet s s'"
proof (induction n arbitrary: s)
  case (Suc n)
  let ?s = "s\<lparr>accepts := accepts s @ [Some (AcceptIoContext_ctor 0)], m_acceptIoCtxList := m_acceptIoCtxList s @ [length (accepts s)]\<rparr>"
  from Suc.prems obtain g s1 where 1: "postAccept os (length (accepts s)) ?s = Some (g, s1)"
    and s': "(if g then init_accepts os n s1 else Some (False, s1)) = Some (b, s')"
    by (auto simp: bind_eq_Some_conv Let_def)
  have "quiet s ?s" by (simp add: quiet_def)
  from quiet_trans [OF this quiet_postAccept [OF 1]] s' Suc.IH show ?case
    by (auto intro: quiet_trans split: if_splits)
qed simp

lemma quiet_start: "start os s = Some (b, s') \<Longrightarrow> quiet s s'"
proof -
  assume a: "start os s = Some (b, s')"
  let ?s = "s\<lparr>trace := trace s @ [Sys_WSAStartup]\<rparr>"
  show ?thesis
  proof (cases "fst (sys os (trace s) Sys_WSAStartup) = 0")
    case False
    with a have "s' = ?s" by (auto simp: start_def Net_init_def call_def Let_def case_prod_unfold)
    then show ?thesis by (simp add: quiets)
  next
    case True
    with a obtain g s1 where 1: "createListenClient os (m_listenPort s) ?s = Some (g, s1)"
      by (auto simp: start_def Net_init_def call_def Let_def case_prod_unfold bind_eq_Some_conv)
    have q1: "quiet s s1" using quiet_trans [OF quiet_fields(1) quiet_createListenClient [OF 1]] .
    define s2 where "s2 = snd (createIocpWorker os s1)"
    have "quiet s1 s2"
      using quiet_trans [OF quiet_fields(1) quiet_create_workers [of os _ _ "fst (createIocpWorker os s1)" s2]]
      by (simp add: createIocpWorker_def call_def Let_def case_prod_unfold s2_def)
    with q1 have q2: "quiet s s2" by (rule quiet_trans)
    have "s' = s1 \<or> s' = s2 \<or> (\<exists>b. init_accepts os POST_ACCEPT_CNT s2 = Some (b, s'))"
      using a True 1
      by (cases g; cases "fst (createIocpWorker os s1)")
         (auto simp: start_def Net_init_def call_def Let_def case_prod_unfold initAcceptIoContext_def s2_def)
    with q1 q2 show ?thesis by (auto intro: quiet_trans dest: quiet_init_accepts)
  qed
qed

lemma quiet_wait_completed [quiets]:
  assumes "wait_completed os ov s = Some s'"
  shows "quiet s s'"
proof (rule wait_completed.raw_induct [where P = "\<lambda>os ov s s'. quiet s s'", OF _ assms], goal_cases)
  case (1 f os ov s s')
  then have "quiet s s' \<or> quiet (s\<lparr>trace := trace s @ [Sys_has_completed ov, Sys_Sleep 1]\<rparr>) s'"
    by (auto simp: call_def case_prod_unfold Let_def quiet_def split: if_splits)
  then show ?case by (auto simp: quiet_def)
qed

lemma quiet_shutdown_accepts: "shutdown_accepts os as s = Some s' \<Longrightarrow> quiet s s'"
proof (induction as arbitrary: s)
  case (Cons a as)
  then show ?case
    by (auto simp: call_def case_prod_unfold Let_def bind_eq_Some_conv set_accept_def dest!: quiet_wait_completed split: if_splits)
       (auto simp: quiet_def)
qed simp

lemma quiet_shutdown: "shutdown os s = Some (b, s') \<Longrightarrow> quiet s s'"
  by (auto simp: shutdown_def call_def case_prod_unfold Let_def bind_eq_Some_conv dest!: quiet_shutdown_accepts split: if_splits)
     (auto simp: quiet_def)

lemma quiet_stop_accepts: "stop_accepts os as s = Some s' \<Longrightarrow> quiet s s'"
proof (induction as arbitrary: s)
  case (Cons a as)
  then show ?case
    by (auto simp: call_def case_prod_unfold Let_def bind_eq_Some_conv set_accept_def dest!: quiet_wait_completed split: if_splits)
       (auto simp: quiet_def)
qed simp

lemma quiet_post_exits: "quiet s (post_exits os n s)"
proof (induction n arbitrary: s)
  case (Suc n)
  have "quiet s (s\<lparr>trace := trace s @ [Sys_post_status (m_hComPort s) 0 Key_exit Ov_null]\<rparr>)" by (simp add: quiets)
  from quiet_trans [OF this Suc] show ?case by (simp add: call_def)
qed simp

lemma quiet_close_handles: "quiet s (fold (close_handle os) hs s)"
proof (induction hs arbitrary: s)
  case (Cons h hs)
  have "quiet s (close_handle os h s)" by (simp add: close_handle_def call_def quiets)
  from quiet_trans [OF this Cons] show ?case by simp
qed simp

lemma inv_removeAllClients: "server_inv N B s \<Longrightarrow> server_inv N B (removeAllClients s)"
  by (auto simp: server_inv_def removeAllClients_def live_sockets_def)

lemma quiet_closings: "quiet s (close_listener os (close_port os (close_exit_event os s)))"
proof -
  have "quiet s (close_exit_event os s)" "quiet s (close_port os s)" "quiet s (close_listener os s)" for s
    by (simp_all add: close_exit_event_def close_port_def close_listener_def close_handle_def call_def quiet_def
        split: option.splits)
  then show ?thesis by (blast intro: quiet_trans)
qed

lemma inv_stop:
  assumes "server_inv N B s" and "stop os s = Some (b, s')"
  shows "server_inv N B s'"
proof -
  define s1 where "s1 = snd (exitIocpWorker os s)"
  have "quiet (s\<lparr>trace := t\<rparr>) (post_exits os n (s\<lparr>trace := t\<rparr>))" for t n by (rule quiet_post_exits)
  then have q1: "quiet s s1"
    by (auto simp: s1_def exitIocpWorker_def call_def Let_def case_prod_unfold quiet_def)
  from assms(2) obtain s2 where 2: "stop_accepts os (m_acceptIoCtxList (fold (close_handle os) (m_hWorkerThreads s1) s1))
      (fold (close_handle os) (m_hWorkerThreads s1) s1) = Some s2"
    by (auto simp: stop_def s1_def Let_def case_prod_unfold bind_eq_Some_conv)
  have q2: "quiet s s2"
    using quiet_trans [OF quiet_trans [OF q1 quiet_close_handles] quiet_stop_accepts [OF 2]] .
  from assms(2) 2 have s': "s' = removeAllClients (close_listener os (close_port os (close_exit_event os (s2\<lparr>m_acceptIoCtxList := []\<rparr>))))"
    by (simp add: stop_def s1_def [symmetric] Let_def case_prod_unfold)
  have "quiet s2 (s2\<lparr>m_acceptIoCtxList := []\<rparr>)" by (simp add: quiet_def)
  from quiet_trans [OF quiet_trans [OF q2 this] quiet_closings] s' assms(1) show ?thesis
    by (auto intro: inv_removeAllClients quiet_inv)
qed

lemma inv_ctor: "server_inv N B (IocpServer_ctor os p N w)"
  by (simp add: server_inv_def IocpServer_ctor_def call_def Let_def case_prod_unfold live_sockets_def)

text \<open>
  The states a server can be in. The kernel gives back a request it holds, with any outcome and any
  number of bytes, and the data of a receive stands in the context's array by then; a worker handles
  the completion. A close notice (Timer.cpp) may be posted for any client. The public functions
  may be called at any time.

  The handlers are steps, but the handling of an accepted connection is two: \<open>n\<close> is the number of workers that
  \<^verbatim>\<open>start\<close> has created, and \<open>ps\<close> lists the accepts of the workers that have passed the comparison with the limit
  and not yet incremented the count; any other steps come in between.
\<close>

definition key_of :: "overlapped \<Rightarrow> key" where
  "key_of ov = (case ov of Ov_recv c \<Rightarrow> Key_client c | Ov_send c \<Rightarrow> Key_client c | _ \<Rightarrow> Key_server)"

definition deliver :: "overlapped \<Rightarrow> string \<Rightarrow> server \<Rightarrow> server" where
  "deliver ov data s =
     (let s = s\<lparr>kernel_io := remove1 ov (kernel_io s)\<rparr> in
      case ov of
        Ov_recv c \<Rightarrow> (case client s c of None \<Rightarrow> s
          | Some x \<Rightarrow> set_client c (x\<lparr>m_recvIoCtx := (m_recvIoCtx x)\<lparr>m_recvBuf := splice (m_recvBuf (m_recvIoCtx x)) 0 data\<rparr>\<rparr>) s)
      | _ \<Rightarrow> s)"

inductive reach :: "os \<Rightarrow> notifier \<Rightarrow> 16 word \<Rightarrow> u32 \<Rightarrow> nat \<Rightarrow> server \<Rightarrow> nat list \<Rightarrow> bool" for os notify port maxcnt n where
  reach_start: "start os (IocpServer_ctor os port maxcnt w) = Some (b, s) \<Longrightarrow> m_nWorkerCnt s = n \<Longrightarrow> reach os notify port maxcnt n s []"
| reach_admit: "reach os notify port maxcnt n s ps \<Longrightarrow> length ps < n \<Longrightarrow> Ov_accept a \<in> set (kernel_io s) \<Longrightarrow> \<not> m_bIsShutdown s \<Longrightarrow>
    accept_admitted os a (deliver (Ov_accept a) [] s) = Some (True, s') \<Longrightarrow> reach os notify port maxcnt n s' (a # ps)"
| reach_enter: "reach os notify port maxcnt n s ps \<Longrightarrow> a \<in> set ps \<Longrightarrow> accept_ctx s a = Some x \<Longrightarrow>
    accept_enter os a x s = Some (b, s') \<Longrightarrow> reach os notify port maxcnt n s' (remove1 a ps)"
| reach_complete: "reach os notify port maxcnt n s ps \<Longrightarrow> length ps < n \<Longrightarrow> ov \<in> set (kernel_io s) \<Longrightarrow> length data \<le> IO_BUF_SIZE \<Longrightarrow>
    worker_round os notify \<lparr>cq_ret = r, cq_bytes = k, cq_key = key_of ov, cq_ov = ov\<rparr> (deliver ov data s) = Some (b, s')
    \<Longrightarrow> reach os notify port maxcnt n s' ps"
| reach_notice: "reach os notify port maxcnt n s ps \<Longrightarrow> length ps < n \<Longrightarrow>
    worker_round os notify \<lparr>cq_ret = True, cq_bytes = 0, cq_key = Key_client c, cq_ov = Ov_null\<rparr> s = Some (b, s')
    \<Longrightarrow> reach os notify port maxcnt n s' ps"
| reach_send: "reach os notify port maxcnt n s ps \<Longrightarrow> send os c src si len s = Some (b, s') \<Longrightarrow> reach os notify port maxcnt n s' ps"
| reach_shutdown: "reach os notify port maxcnt n s ps \<Longrightarrow> shutdown os s = Some (b, s') \<Longrightarrow> reach os notify port maxcnt n s' ps"
| reach_stop: "reach os notify port maxcnt n s ps \<Longrightarrow> stop os s = Some (b, s') \<Longrightarrow> reach os notify port maxcnt n s' ps"

lemma quiet_deliver: "quiet s (deliver ov data s)"
  by (auto simp: deliver_def Let_def quiets intro: quiet_trans [OF quiet_fields(3) quiet_set_client]
      split: overlapped.splits option.splits)

text \<open>The bound on the count while \<open>ps\<close> are on their way.\<close>

definition count_bound :: "u32 \<Rightarrow> nat \<Rightarrow> nat list \<Rightarrow> nat" where
  "count_bound N n ps = unat N + (n - 1) - length ps"

context package_handler
begin

lemma reach_inv:
  assumes "reach os notify port maxcnt n s ps" and "unat maxcnt + n \<le> 2 ^ 32"
  shows "server_inv maxcnt (count_bound maxcnt n ps) s \<and> length ps \<le> unat maxcnt + (n - 1)"
  using assms(1)
proof induction
  case (reach_start w b s)
  then show ?case by (auto intro: quiet_inv inv_ctor dest: quiet_start)
next
  case (reach_admit s ps a s')
  have q: "quiet s s'" and less: "m_nConnClientCnt s' < m_nMaxConnClientCnt s'"
    using accept_admitted_quiet [OF reach_admit(5)] quiet_deliver by (auto intro: quiet_trans simp: quiet_def)
  have "server_inv maxcnt (unat maxcnt - 1) s'" using quiet_inv [OF q] reach_admit.IH less by (blast intro: server_inv_admitted)
  moreover have "0 < unat maxcnt" using less calculation by (auto simp: server_inv_def word_less_nat_alt)
  ultimately show ?case using reach_admit(2) by (auto simp: count_bound_def intro: server_inv_mono)
next
  case (reach_enter s ps a x b s')
  then obtain m where l: "length (remove1 a ps) = m" "length ps = Suc m"
    by (metis One_nat_def Suc_pred length_pos_if_in_set length_remove1)
  have "length ps \<le> unat maxcnt + (n - 1)" using reach_enter.IH by blast
  then have "count_bound maxcnt n ps + 1 = count_bound maxcnt n (remove1 a ps)" unfolding count_bound_def l by arith
  moreover have "count_bound maxcnt n ps + 1 < 2 ^ 32"
    using reach_enter.IH assms(2) l(2) unat_less_2_32 [of maxcnt] unfolding count_bound_def by arith
  ultimately have "server_inv maxcnt (count_bound maxcnt n (remove1 a ps)) s'"
    using inv_accept_enter [OF _ _ reach_enter(4)] reach_enter.IH by metis
  then show ?case using reach_enter.IH l by simp
next
  case (reach_complete s ps ov data r k b s')
  then have "unat maxcnt \<le> count_bound maxcnt n ps" by (auto simp: count_bound_def)
  then show ?case using reach_complete by (blast intro: worker_round_inv quiet_inv quiet_deliver)
next
  case (reach_notice s ps c b s')
  then have "unat maxcnt \<le> count_bound maxcnt n ps" by (auto simp: count_bound_def)
  then show ?case using reach_notice by (blast intro: worker_round_inv)
next
  case (reach_send s ps c src si len b s')
  then show ?case by (blast intro: inv_send)
next
  case (reach_shutdown s ps b s')
  then show ?case by (blast intro: quiet_inv dest: quiet_shutdown)
next
  case (reach_stop s ps b s')
  then show ?case by (blast intro: inv_stop)
qed

end

text \<open>
  C2. What the HTTP server keeps true of its clients, in every state that its \<open>n\<close> workers reach without a fault,
  whatever the operating system answers, in whatever order requests complete, and with any number of workers
  standing between the comparison of the count and its increment: no client context is in a list twice or in both
  lists, the lists only hold allocated contexts, the connection count is at least the number of contexts with
  a socket, so that it never wraps around below zero, and the count together with the connections on their way to
  it exceeds the limit by at most \<open>n - 1\<close>; with one worker it never exceeds the limit.
\<close>

theorem connection_lists_and_count:
  assumes "reach os HttpServer_notifyPackageReceived port maxcnt n s ps" and "unat maxcnt + n \<le> 2 ^ 32"
  shows "distinct (m_connectedClientList s @ m_freeClientList s)
     \<and> set (m_connectedClientList s @ m_freeClientList s) \<subseteq> {..<length (clients s)}
     \<and> live_sockets s \<le> unat (m_nConnClientCnt s)
     \<and> unat (m_nConnClientCnt s) + length ps \<le> unat maxcnt + (n - 1) \<and> m_nMaxConnClientCnt s = maxcnt"
  using http_handler.reach_inv [OF assms] by (auto simp: server_inv_def count_bound_def)

text \<open>Operating systems on which every call succeeds, with one processor or with two.\<close>

definition good_os :: os where
  "good_os = \<lparr>sys = (\<lambda>tr k. (if k = Sys_WSAStartup then 0 else 1, 0)),
              sockaddr_of = (\<lambda>tr k. zero_addr), valloc = win32_alloc\<rparr>"

definition two_cpu_os :: os where
  "two_cpu_os = good_os\<lparr>sys := (\<lambda>tr k. (if k = Sys_WSAStartup then 0 else if k = Sys_processor_count then 2 else 1, 0))\<rparr>"

definition obliging :: "int \<Rightarrow> os \<Rightarrow> bool" where
  "obliging p os \<longleftrightarrow> (\<forall>tr k. sys os tr k = (if k = Sys_WSAStartup then 0 else if k = Sys_processor_count then p else 1, 0))"

lemma good_os_sel [simp]:
  "sys good_os tr k = (if k = Sys_WSAStartup then 0 else 1, 0)" "valloc good_os = win32_alloc"
  "sockaddr_of good_os tr k = zero_addr"
  by (simp_all add: good_os_def)

lemma obliging_os: "obliging 1 good_os" "obliging 2 two_cpu_os"
  by (simp_all add: obliging_def two_cpu_os_def)

lemma obliging_sys:
  assumes "obliging p os"
  shows "k \<noteq> Sys_WSAStartup \<Longrightarrow> k \<noteq> Sys_processor_count \<Longrightarrow> sys os tr k = (1, 0)" and "sys os tr Sys_WSAStartup = (0, 0)"
    and "sys os tr Sys_processor_count = (p, 0)"
  using assms by (simp_all add: obliging_def)

text \<open>A server that can accept: what every step of accepting leaves as it is.\<close>

definition accepting :: "server \<Rightarrow> bool" where
  "accepting s \<longleftrightarrow> m_lpfnAcceptEx s \<and> m_pListenCtx s \<noteq> None \<and> \<not> m_bIsShutdown s
     \<and> (\<forall>i < length (accepts s). \<exists>x. accepts s ! i = Some x \<and> m_acceptSocket x \<noteq> INVALID_SOCKET)"

lemma accepting_ctx: "accepting s \<Longrightarrow> a < length (accepts s) \<Longrightarrow> \<exists>x. accept_ctx s a = Some x \<and> m_acceptSocket x \<noteq> INVALID_SOCKET"
  by (simp add: accepting_def accept_ctx_def)

lemma obliging_postAccept:
  assumes "obliging p os" and "a < length (accepts s)" and "accepting s"
  shows "\<exists>tr x. postAccept os a s = Some (True, (set_accept a (Some x) s)\<lparr>trace := tr, kernel_io := kernel_io s @ [Ov_accept a]\<rparr>)
     \<and> m_acceptSocket x \<noteq> INVALID_SOCKET"
proof -
  obtain x l where x: "accept_ctx s a = Some x" "m_pListenCtx s = Some l" and ex: "m_lpfnAcceptEx s"
    using assms(2,3) by (auto simp: accepting_def accept_ctx_def)
  let ?x = "(AcceptIoContext_resetBuffer x)\<lparr>m_acceptSocket := 1\<rparr>"
  let ?tr = "trace s @ [Sys_WSASocket, Sys_AcceptEx (lc_socket l) 1 a]"
  have "postAccept os a s = Some (True, (set_accept a (Some ?x) s)\<lparr>trace := ?tr, kernel_io := kernel_io s @ [Ov_accept a]\<rparr>)"
    unfolding postAccept_def x(1) Net_WSASocket_def call_def
    using x(2) ex by (simp add: set_accept_def obliging_sys [OF assms(1)] SOCKET_ERROR_def)
  moreover have "m_acceptSocket ?x \<noteq> INVALID_SOCKET" by (simp add: INVALID_SOCKET_def)
  ultimately show ?thesis by blast
qed

lemma accepting_set_accept:
  assumes "accepting s" and "m_acceptSocket x \<noteq> INVALID_SOCKET"
  shows "accepting ((set_accept a (Some x) s)\<lparr>trace := tr, kernel_io := k\<rparr>)"
proof -
  have "\<exists>y. (accepts s)[a := Some x] ! i = Some y \<and> m_acceptSocket y \<noteq> INVALID_SOCKET" if "i < length (accepts s)" for i
    using assms that by (cases "i = a") (auto simp: accepting_def)
  then show ?thesis using assms(1) by (simp add: accepting_def set_accept_def)
qed

lemma obliging_init_accepts:
  assumes "obliging p os" and "accepting s"
  shows "\<exists>s'. init_accepts os n s = Some (True, s') \<and> accepting s' \<and> m_nWorkerCnt s' = m_nWorkerCnt s
     \<and> kernel_io s' = kernel_io s @ map Ov_accept [length (accepts s) ..< length (accepts s) + n]
     \<and> length (accepts s') = length (accepts s) + n"
  using assms(2)
proof (induction n arbitrary: s)
  case (Suc n)
  let ?a = "length (accepts s)"
  let ?s = "s\<lparr>accepts := accepts s @ [Some (AcceptIoContext_ctor 0)], m_acceptIoCtxList := m_acceptIoCtxList s @ [?a]\<rparr>"
  have ok: "accepting ?s"
    using Suc.prems by (auto simp: accepting_def nth_append less_Suc_eq AcceptIoContext_ctor_def INVALID_SOCKET_def)
  then obtain tr x where 1: "postAccept os ?a ?s
      = Some (True, (set_accept ?a (Some x) ?s)\<lparr>trace := tr, kernel_io := kernel_io ?s @ [Ov_accept ?a]\<rparr>)" "m_acceptSocket x \<noteq> INVALID_SOCKET"
    using obliging_postAccept [OF assms(1), of ?a ?s] by auto
  define s1 where "s1 = (set_accept ?a (Some x) ?s)\<lparr>trace := tr, kernel_io := kernel_io ?s @ [Ov_accept ?a]\<rparr>"
  have s1: "length (accepts s1) = Suc ?a" "m_nWorkerCnt s1 = m_nWorkerCnt s" "kernel_io s1 = kernel_io s @ [Ov_accept ?a]" "accepting s1"
    using accepting_set_accept [OF ok 1(2)] by (simp_all add: s1_def) (simp_all add: set_accept_def)
  have "[?a ..< ?a + Suc n] = ?a # [Suc ?a ..< Suc ?a + n]" by (simp add: upt_conv_Cons del: upt_Suc)
  moreover have "init_accepts os (Suc n) s = init_accepts os n s1" unfolding s1_def using 1(1) by (simp add: Let_def)
  ultimately show ?case using Suc.IH [OF s1(4)] s1(1-3) by (auto simp del: upt_Suc)
qed simp

lemma obliging_create_workers:
  assumes "obliging p os"
  shows "\<exists>tr hs. create_workers os n s = (True, s\<lparr>trace := tr, m_hWorkerThreads := hs, m_nWorkerCnt := m_nWorkerCnt s + n\<rparr>)"
proof (induction n arbitrary: s)
  case 0
  then show ?case by (intro exI [of _ "trace s"] exI [of _ "m_hWorkerThreads s"]) simp
next
  case (Suc n)
  from Suc [of "s\<lparr>trace := trace s @ [Sys_begin_thread], m_hWorkerThreads := m_hWorkerThreads s @ [1],
      m_nWorkerCnt := Suc (m_nWorkerCnt s)\<rparr>"]
  show ?case using assms by (auto simp: call_def obliging_sys)
qed

lemma obliging_start:
  assumes "obliging p os"
  shows "\<exists>s. start os (IocpServer_ctor os port maxcnt w) = Some (True, s) \<and> accepting s
     \<and> m_nWorkerCnt s = nat p \<and> kernel_io s = map Ov_accept [0 ..< 10] \<and> length (accepts s) = 10"
proof -
  let ?s0 = "IocpServer_ctor os port maxcnt w"
  have s0: "accepts ?s0 = []" "kernel_io ?s0 = []" "\<not> m_bIsShutdown ?s0" "m_nWorkerCnt ?s0 = 0"
    by (simp_all add: IocpServer_ctor_def call_def case_prod_unfold Let_def)
  let ?s = "?s0\<lparr>trace := trace ?s0 @ [Sys_WSAStartup]\<rparr>"
  obtain s1 l where 1: "createListenClient os (m_listenPort ?s) ?s = Some (True, s1)" "m_lpfnAcceptEx s1" "m_pListenCtx s1 = Some l"
    "accepts s1 = []" "kernel_io s1 = []" "\<not> m_bIsShutdown s1" "m_nWorkerCnt s1 = 0"
    using s0 assms
    by (simp add: createListenClient_def ListenContext_ctor_def Net_WSASocket_def Net_bind_def Net_listen_def obliging_sys
        associateWithCompletionPort_def getAcceptExPtr_def getAcceptExSockaddrs_def call_def SOCKET_ERROR_def Let_def)
  obtain tr hs where 2: "createIocpWorker os s1 = (True, s1\<lparr>trace := tr, m_hWorkerThreads := hs, m_nWorkerCnt := nat p\<rparr>)"
    using obliging_create_workers [OF assms, of "nat p" "s1\<lparr>trace := trace s1 @ [Sys_processor_count]\<rparr>"]
      1(7) obliging_sys(3) [OF assms] by (auto simp: createIocpWorker_def call_def simp del: create_workers.simps)
  let ?s2 = "s1\<lparr>trace := tr, m_hWorkerThreads := hs, m_nWorkerCnt := nat p\<rparr>"
  have "accepting ?s2" using 1 by (simp add: accepting_def)
  from obliging_init_accepts [OF assms this, of POST_ACCEPT_CNT] 1 2 show ?thesis
    by (auto simp: start_def Net_init_def call_def initAcceptIoContext_def obliging_sys(2) [OF assms] POST_ACCEPT_CNT_def)
qed

lemma good_start: "\<exists>s. start good_os (IocpServer_ctor good_os port maxcnt w) = Some (True, s)"
  using obliging_start [OF obliging_os(1)] by blast

text \<open>A worker is past the comparison; the connection enters.\<close>

lemma obliging_admit:
  assumes "accepting s" and "a < length (accepts s)" and "m_nConnClientCnt s < m_nMaxConnClientCnt s"
  shows "\<exists>tr. accept_admitted os a (deliver (Ov_accept a) [] s) = Some (True, s\<lparr>kernel_io := remove1 (Ov_accept a) (kernel_io s), trace := tr\<rparr>)"
proof -
  obtain x l where "accepts s ! a = Some x" "m_pListenCtx s = Some l" using assms(1,2) by (auto simp: accepting_def)
  then show ?thesis
    using assms by (auto simp: accept_admitted_def accept_ctx_def deliver_def Net_updateAcceptContext_def call_def case_prod_unfold Let_def)
qed

lemma obliging_enter:
  assumes os: "obliging p os" and s: "accepting s" "a < length (accepts s)" "m_freeClientList s = []"
    and x: "m_acceptSocket x \<noteq> INVALID_SOCKET"
  shows "\<exists>s'. accept_enter os a x s = Some (True, s') \<and> accepting s' \<and> length (accepts s') = length (accepts s) \<and> m_freeClientList s' = []
     \<and> m_nConnClientCnt s' = m_nConnClientCnt s + 1 \<and> m_connectedClientList s' = m_connectedClientList s @ [length (clients s)]
     \<and> length (clients s') = length (clients s) + 1"
proof -
  let ?c = "length (clients s)"
  obtain y tr where 1: "allocateClientContext os (m_acceptSocket x) (s\<lparr>m_nConnClientCnt := m_nConnClientCnt s + 1\<rparr>)
      = Some (?c, s\<lparr>m_nConnClientCnt := m_nConnClientCnt s + 1, trace := tr, clients := clients s @ [y]\<rparr>)" "cc_socket y = m_acceptSocket x"
    using s(3) by (auto simp: allocateClientContext_def client_def ClientContext_reset_def ClientContext_ctor_def call_def set_client_def
        case_prod_unfold Let_def)
  let ?y = "y\<lparr>m_nPendingIoCnt := m_nPendingIoCnt y + 1\<rparr>"
  define s1 where "s1 = s\<lparr>m_nConnClientCnt := m_nConnClientCnt s + 1, clients := clients s @ [?y],
     trace := tr @ [Sys_associate (m_acceptSocket x) (m_hComPort s) (Key_client ?c)]\<rparr>"
  have s1: "accepting s1" "a < length (accepts s1)" using s by (simp_all add: s1_def accepting_def)
  from obliging_postAccept [OF os s1(2,1)] obtain tr2 z where
    2: "postAccept os a s1 = Some (True, (set_accept a (Some z) s1)\<lparr>trace := tr2, kernel_io := kernel_io s1 @ [Ov_accept a]\<rparr>)"
       "m_acceptSocket z \<noteq> INVALID_SOCKET" by blast
  define s2 where "s2 = (set_accept a (Some z) s1)\<lparr>trace := tr2, kernel_io := kernel_io s1 @ [Ov_accept a]\<rparr>"
  have s2: "accepting s2" "length (accepts s2) = length (accepts s)" "clients s2 = clients s @ [?y]" "m_freeClientList s2 = []"
    "m_connectedClientList s2 = m_connectedClientList s" "m_nConnClientCnt s2 = m_nConnClientCnt s + 1"
    using accepting_set_accept [OF s1(1) 2(2)] s(3) by (simp_all add: s2_def) (simp_all add: s1_def set_accept_def)
  define w where "w = ?y\<lparr>cc_addr := sockaddr_of os (trace s2) (Sys_getpeername (m_acceptSocket x))\<rparr>"
  define s3 where "s3 = addClient ?c (set_client ?c w (s2\<lparr>trace := trace s2 @ [Sys_getpeername (m_acceptSocket x)]\<rparr>))"
  have s3: "accepting s3" "length (accepts s3) = length (accepts s)" "client s3 ?c = Some w" "cc_socket w = m_acceptSocket x" "m_freeClientList s3 = []"
    "m_connectedClientList s3 = m_connectedClientList s @ [?c]" "m_nConnClientCnt s3 = m_nConnClientCnt s + 1" "length (clients s3) = ?c + 1"
    using s2 1(2) by (simp_all add: s3_def addClient_def set_client_def accepting_def client_def w_def)
  have assoc: "associateWithCompletionPort os (m_acceptSocket x) (Some (Key_client ?c)) t = (1, t\<lparr>trace := trace t @ [Sys_associate (m_acceptSocket x) (m_hComPort t) (Key_client ?c)]\<rparr>)"
    for t :: server using os by (simp add: associateWithCompletionPort_def call_def obliging_sys)
  have enter: "enterIoLoop ?c (s\<lparr>m_nConnClientCnt := m_nConnClientCnt s + 1, clients := clients s @ [y], trace := t\<rparr>)
      = Some (s\<lparr>m_nConnClientCnt := m_nConnClientCnt s + 1, clients := clients s @ [?y], trace := t\<rparr>)" for t
    by (simp add: enterIoLoop_def client_def set_client_def)
  have notify: "notifyNewConnection os ?c s2 = Some (set_client ?c w (s2\<lparr>trace := trace s2 @ [Sys_getpeername (m_acceptSocket x)]\<rparr>))"
    using s2(3) 1(2) os by (simp add: notifyNewConnection_def Net_getpeername_def call_def client_def w_def obliging_sys SOCKET_ERROR_def)
  have "accept_enter os a x s = map_option (Pair True) (post_recv_or_close os ?c s3)"
    using 1 2(1) assoc enter notify
    by (simp add: accept_enter_def client_def s1_def s2_def s3_def map_conv_bind_option comp_def)
  moreover have "post_recv_or_close os ?c s3
     = Some (set_client ?c (w\<lparr>m_recvIoCtx := RecvIoContext_resetBuffer (m_recvIoCtx w)\<rparr>)
         (s3\<lparr>trace := trace s3 @ [Sys_WSARecv (m_acceptSocket x) IO_BUF_SIZE ?c], kernel_io := kernel_io s3 @ [Ov_recv ?c]\<rparr>))"
    using s3(3,4) x os by (simp add: post_recv_or_close_def postRecv_def call_def obliging_sys SOCKET_ERROR_def set_client_def Let_def)
  ultimately show ?thesis using s3 by (simp add: set_client_def accepting_def)
qed

text \<open>Two workers find room for one connection each, and two connections enter a server with the limit 1.\<close>

theorem connection_lists_and_count_witness:
  "\<exists>s. reach two_cpu_os HttpServer_notifyPackageReceived 5001 1 2 s [] \<and> m_connectedClientList s = [0, 1]
     \<and> m_nConnClientCnt s = 2 \<and> m_nMaxConnClientCnt s = 1 \<and> live_sockets s \<le> 2"
proof -
  let ?os = two_cpu_os and ?h = HttpServer_notifyPackageReceived
  let ?s = "IocpServer_ctor ?os 5001 1 \<lparr>trace = [], memory = []\<rparr>"
  obtain s where s: "start ?os ?s = Some (True, s)" "accepting s" "m_nWorkerCnt s = 2" "kernel_io s = map Ov_accept [0 ..< 10]" "length (accepts s) = 10"
    using obliging_start [OF obliging_os(2), of 5001 1 "\<lparr>trace = [], memory = []\<rparr>"] by (auto simp: two_cpu_os_def)
  have s': "m_nConnClientCnt s = 0" "m_nMaxConnClientCnt s = 1" "m_freeClientList s = []" "m_connectedClientList s = []" "clients s = []"
    using quiet_start [OF s(1)] by (auto simp: quiet_def IocpServer_ctor_def call_def case_prod_unfold Let_def)
  from obliging_admit [OF s(2), of 0 ?os] s s' obtain tr1 where
    1: "accept_admitted ?os 0 (deliver (Ov_accept 0) [] s) = Some (True, s\<lparr>kernel_io := remove1 (Ov_accept 0) (kernel_io s), trace := tr1\<rparr>)" by auto
  define s1 where "s1 = s\<lparr>kernel_io := remove1 (Ov_accept 0) (kernel_io s), trace := tr1\<rparr>"
  have s1: "accepting s1" "length (accepts s1) = 10" "m_nConnClientCnt s1 < m_nMaxConnClientCnt s1" "Ov_accept 1 \<in> set (kernel_io s1)" "\<not> m_bIsShutdown s1"
    using s s' by (auto simp: s1_def accepting_def)
  from obliging_admit [OF s1(1), of 1 ?os] s1 obtain tr2 where
    2: "accept_admitted ?os 1 (deliver (Ov_accept 1) [] s1) = Some (True, s1\<lparr>kernel_io := remove1 (Ov_accept 1) (kernel_io s1), trace := tr2\<rparr>)" by auto
  define s2 where "s2 = s1\<lparr>kernel_io := remove1 (Ov_accept 1) (kernel_io s1), trace := tr2\<rparr>"
  have s2: "accepting s2" "length (accepts s2) = 10" "m_freeClientList s2 = []" "m_connectedClientList s2 = []" "clients s2 = []" "m_nConnClientCnt s2 = 0"
    using s s' by (auto simp: s2_def s1_def accepting_def)
  obtain x where x: "accept_ctx s2 0 = Some x" "m_acceptSocket x \<noteq> INVALID_SOCKET" using accepting_ctx [OF s2(1), of 0] s2(2) by auto
  from obliging_enter [OF obliging_os(2) s2(1) _ s2(3) x(2), of 0] s2 obtain s3 where
    3: "accept_enter ?os 0 x s2 = Some (True, s3)" "accepting s3" "length (accepts s3) = 10" "m_freeClientList s3 = []"
      "m_connectedClientList s3 = [0]" "length (clients s3) = 1" "m_nConnClientCnt s3 = 1" by auto
  obtain y where y: "accept_ctx s3 1 = Some y" "m_acceptSocket y \<noteq> INVALID_SOCKET" using accepting_ctx [OF 3(2), of 1] 3(3) by auto
  from obliging_enter [OF obliging_os(2) 3(2) _ 3(4) y(2), of 1] 3 obtain s4 where
    4: "accept_enter ?os 1 y s3 = Some (True, s4)" "m_connectedClientList s4 = [0, 1]" "m_nConnClientCnt s4 = 2" by auto
  have r0: "reach ?os ?h 5001 1 2 s []" using s(1,3) by (rule reach_start)
  have r1: "reach ?os ?h 5001 1 2 s1 [0]"
    unfolding s1_def by (rule reach_admit [OF r0 _ _ _ 1]) (use s in \<open>simp_all add: accepting_def\<close>)
  have r2: "reach ?os ?h 5001 1 2 s2 [1, 0]"
    unfolding s2_def by (rule reach_admit [OF r1 _ _ _ 2]) (use s1 in simp_all)
  have "reach ?os ?h 5001 1 2 s3 (remove1 0 [1, 0])" by (rule reach_enter [OF r2 _ x(1) 3(1)]) simp
  then have r3: "reach ?os ?h 5001 1 2 s3 [1]" by simp
  have "reach ?os ?h 5001 1 2 s4 (remove1 1 [1])" by (rule reach_enter [OF r3 _ y(1) 4(1)]) simp
  then have r: "reach ?os ?h 5001 1 2 s4 []" by simp
  from connection_lists_and_count [OF r] 4 r show ?thesis by auto
qed

end
