(* ===== verification/Pending.thy ===== *)
theory Pending
  imports ServerInv
begin

text \<open>
  The pending-request count of a client context (\<^verbatim>\<open>m_nPendingIoCnt\<close>, ``avoids access violation''): a
  context may be recycled when no request is outstanding for it. The \<^emph>\<open>balance\<close> of a context is its
  count less the number of requests the kernel holds for it. Each operation moves the balance of
  its client by a known amount, so what a handler does to it is a sum.
\<close>

section \<open>Balance\<close>

definition held :: "server \<Rightarrow> nat \<Rightarrow> nat" where
  "held s c = count_list (kernel_io s) (Ov_recv c) + count_list (kernel_io s) (Ov_send c)"

definition balance :: "server \<Rightarrow> nat \<Rightarrow> u32" where
  "balance s c = (case client s c of None \<Rightarrow> 0 | Some x \<Rightarrow> m_nPendingIoCnt x - word_of_nat (held s c))"

definition moves :: "server \<Rightarrow> server \<Rightarrow> nat \<Rightarrow> u32 \<Rightarrow> bool" where
  "moves s s' c k \<longleftrightarrow> length (clients s) \<le> length (clients s')
     \<and> (\<forall>d < length (clients s). balance s' d = balance s d + (if d = c then k else 0))"

definition same_pending :: "server \<Rightarrow> server \<Rightarrow> bool" where
  "same_pending s s' \<longleftrightarrow> map m_nPendingIoCnt (clients s') = map m_nPendingIoCnt (clients s)
     \<and> kernel_io s' = kernel_io s"

lemma moves_trans: "moves s s1 c k \<Longrightarrow> moves s1 s2 c j \<Longrightarrow> moves s s2 c (k + j)"
  by (auto simp: moves_def)

lemma moves_trans0: "moves s s1 c 0 \<Longrightarrow> moves s1 s2 c j \<Longrightarrow> moves s s2 c j"
  using moves_trans [of s s1 c 0 s2 j] by simp

lemma moves_refl [simp]: "moves s s c 0"
  by (simp add: moves_def)

lemma same_pending_refl [simp]: "same_pending s s"
  by (simp add: same_pending_def)

lemma same_pending_trans: "same_pending s s1 \<Longrightarrow> same_pending s1 s2 \<Longrightarrow> same_pending s s2"
  by (simp add: same_pending_def)

lemma same_moves:
  assumes "same_pending s s'"
  shows "moves s s' c 0"
proof -
  have len: "length (clients s') = length (clients s)"
    using assms unfolding same_pending_def by (metis length_map)
  have "m_nPendingIoCnt (clients s' ! d) = m_nPendingIoCnt (clients s ! d)" if "d < length (clients s)" for d
    using that len assms unfolding same_pending_def by (metis nth_map)
  with len assms show ?thesis by (simp add: moves_def balance_def client_def held_def same_pending_def)
qed

lemma same_set_client:
  assumes "client s c = Some x" and "m_nPendingIoCnt y = m_nPendingIoCnt x"
  shows "same_pending s (set_client c y s)"
proof -
  have "map m_nPendingIoCnt ((clients s)[c := y]) = map m_nPendingIoCnt (clients s)"
    using client_SomeD [OF assms(1)] assms(2) by (simp add: map_update list_update_same_conv)
  then show ?thesis by (simp add: same_pending_def set_client_def)
qed

lemma same_fields:
  "same_pending s (s\<lparr>trace := t\<rparr>)" "same_pending s (s\<lparr>memory := m\<rparr>)" "same_pending s (destroy b s)"
  "same_pending s (s\<lparr>m_nConnClientCnt := n\<rparr>)" "same_pending s (removeClient c s)" "same_pending s (addClient c s)"
  by (simp_all add: same_pending_def destroy_def removeClient_def addClient_def)

lemma moves_count:
  assumes "client s c = Some x"
  shows "moves s (set_client c (x\<lparr>m_nPendingIoCnt := m_nPendingIoCnt x + k\<rparr>) s) c k"
  using client_SomeD [OF assms] by (auto simp: moves_def balance_def held_def client_def set_client_def)

lemma moves_enterIoLoop: "enterIoLoop c s = Some s' \<Longrightarrow> moves s s' c 1"
  by (auto simp: enterIoLoop_def bind_eq_Some_conv intro: moves_count)

lemma moves_exitIoLoop: "exitIoLoop c s = Some (n, s') \<Longrightarrow> moves s s' c (-1)"
  using moves_count [of s c _ "-1"] by (auto simp: exitIoLoop_def bind_eq_Some_conv Let_def)

lemma moves_releaseClientContext: "releaseClientContext c s = Some s' \<Longrightarrow> moves s s' c (-1)"
  using moves_trans [OF moves_exitIoLoop [of c s] same_moves [OF same_fields(5)]]
  by (auto simp: releaseClientContext_def bind_eq_Some_conv dest: moves_exitIoLoop)

lemma same_CloseClient:
  assumes "CloseClient os c s = Some s'"
  shows "same_pending s s'"
proof -
  from assms obtain x where x: "client s c = Some x" by (auto simp: CloseClient_def bind_eq_Some_conv)
  let ?s = "set_client c (x\<lparr>cc_socket := INVALID_SOCKET\<rparr>) s"
  have "same_pending s ?s" using x by (rule same_set_client) simp
  moreover have "same_pending ?s s'"
    using assms x by (auto simp: CloseClient_def Net_setLinger_def call_def Let_def same_pending_def case_prod_unfold
        split: if_splits)
  ultimately show ?thesis by (rule same_pending_trans)
qed

lemma moves_close_and_release: "close_and_release os c s = Some s' \<Longrightarrow> moves s s' c (-1)"
  by (auto simp: close_and_release_def bind_eq_Some_conv
      intro: moves_trans0 [OF same_moves [OF same_CloseClient] moves_releaseClientContext])

lemma moves_held:
  assumes "ov = Ov_recv c \<or> ov = Ov_send c"
  shows "moves s (s\<lparr>kernel_io := kernel_io s @ [ov]\<rparr>) c (-1)"
  using assms by (auto simp: moves_def balance_def held_def client_def)

lemma moves_postRecv:
  assumes "postRecv os c s = Some (r, s')"
  shows "moves s s' c (if r = PostResultSuccesful then -1 else 0)"
proof -
  from assms obtain x where x: "client s c = Some x" by (auto simp: postRecv_def bind_eq_Some_conv)
  let ?y = "x\<lparr>m_recvIoCtx := RecvIoContext_resetBuffer (m_recvIoCtx x)\<rparr>"
  let ?s = "set_client c ?y s" and ?k = "Sys_WSARecv (cc_socket x) IO_BUF_SIZE c"
  have 1: "moves s ?s c 0" using x by (intro same_moves same_set_client) auto
  have 2: "moves ?s (?s\<lparr>trace := trace s @ [?k]\<rparr>) c 0" by (intro same_moves same_fields)
  have 3: "moves s (?s\<lparr>trace := trace s @ [?k], kernel_io := kernel_io s @ [Ov_recv c]\<rparr>) c (-1)"
    using moves_trans0 [OF moves_trans0 [OF 1 2] moves_held [of "Ov_recv c" c]] by (simp add: set_client_def)
  show ?thesis using assms x 1 moves_trans0 [OF 1 2] 3
    by (auto simp: postRecv_def call_def Let_def case_prod_unfold set_client_def split: if_splits)
qed

lemma moves_postSend:
  assumes "postSend os c s = Some (r, s')"
  shows "moves s s' c (if r = PostResultSuccesful then -1 else 0)"
    and "r = PostResultInvalidSocket \<longleftrightarrow> (\<exists>x. client s c = Some x \<and> cc_socket x = INVALID_SOCKET)"
proof -
  have 2: "moves s (s\<lparr>trace := t\<rparr>) c 0" for t by (intro same_moves same_fields)
  have 3: "moves s (s\<lparr>trace := t, kernel_io := kernel_io s @ [Ov_send c]\<rparr>) c (-1)" for t
    using moves_trans0 [OF 2 moves_held [of "Ov_send c" c]] by simp
  show "moves s s' c (if r = PostResultSuccesful then -1 else 0)"
    using assms 2 3 by (auto simp: postSend_def call_def Let_def case_prod_unfold bind_eq_Some_conv split: if_splits)
  show "r = PostResultInvalidSocket \<longleftrightarrow> (\<exists>x. client s c = Some x \<and> cc_socket x = INVALID_SOCKET)"
    using assms by (auto simp: postSend_def Let_def case_prod_unfold bind_eq_Some_conv split: if_splits)
qed

lemma same_parts:
  "point_send c b s = Some s' \<Longrightarrow> same_pending s s'"
  "set_outBuf c b m s = Some s' \<Longrightarrow> same_pending s s'"
  "remove_inBuf os c s = Some s' \<Longrightarrow> same_pending s s'"
  by (auto simp: point_send_def set_outBuf_def remove_inBuf_def Buffer_getBuffer_def bind_eq_Some_conv Let_def
      intro!: same_set_client same_pending_trans [OF same_fields(2) same_set_client])

lemma moves_post_recv_or_close:
  assumes "post_recv_or_close os c s = Some s'"
  shows "moves s s' c (-1)"
proof -
  from assms obtain r s1 where 1: "postRecv os c s = Some (r, s1)"
    and s': "(if r = PostResultFailed \<or> r = PostResultInvalidSocket then close_and_release os c s1 else Some s1) = Some s'"
    by (auto simp: post_recv_or_close_def bind_eq_Some_conv)
  show ?thesis using moves_postRecv [OF 1] s' moves_trans0 [OF _ moves_close_and_release [of os c s1 s']]
    by (cases r) auto
qed

section \<open>What the handlers do to the balance\<close>

text \<open>\<open>dead s c\<close>: the client has no socket any more.\<close>

definition dead :: "server \<Rightarrow> nat \<Rightarrow> bool" where
  "dead s c \<longleftrightarrow> (\<exists>x. client s c = Some x \<and> cc_socket x = INVALID_SOCKET)"

lemma quiet_dead: "quiet s s' \<Longrightarrow> dead s' c = dead s c"
proof -
  assume q: "quiet s s'"
  then have "cc_socket (clients s' ! c) = cc_socket (clients s ! c)" if "c < length (clients s)"
    using that quiet_length [OF q] unfolding quiet_def by (metis nth_map)
  then show ?thesis using quiet_length [OF q] by (auto simp: dead_def client_def split: if_splits)
qed

text \<open>\<^verbatim>\<open>send\<close> leaves the balance as it is, or raises it by one when the socket is already closed.\<close>

lemma moves_send:
  assumes "send os c src si len s = Some (b, s')"
  shows "moves s s' c 0 \<or> (moves s s' c 1 \<and> dead s' c)"
proof -
  from assms obtain n sb m x where w: "Buffer_write (valloc os) (memory s) Buffer_ctor src si len = Some (n, sb, m)"
    "client s c = Some x" by (auto simp: send_def bind_eq_Some_conv Let_def)
  show ?thesis
  proof (cases "Buffer_getBufferLen (cc_outBuf x) = 0")
    case False
    let ?s = "set_client c (x\<lparr>m_outBufQueue := m_outBufQueue x @ [sb]\<rparr>) (s\<lparr>memory := m\<rparr>)"
    from False assms w have "s' = destroy sb ?s" by (simp add: send_def)
    moreover have "same_pending s ?s"
      using w(2) by (intro same_pending_trans [OF same_fields(2) same_set_client]) auto
    ultimately have "same_pending s s'" using same_pending_trans same_fields(3) by blast
    then show ?thesis by (blast intro: same_moves)
  next
    case True
    with assms w obtain s1 b' m' s2 s3 res s4 where steps: "enterIoLoop c (s\<lparr>memory := m\<rparr>) = Some s1"
      "set_outBuf c b' m' s1 = Some s2" "point_send c b' s2 = Some s3" "postSend os c s3 = Some (res, s4)"
      and s': "(if res = PostResultFailed then \<exists>s5. close_and_release os c s4 = Some s5 \<and> s' = destroy sb s5
         else s' = destroy sb s4)"
      by (auto simp: send_def bind_eq_Some_conv split: if_splits)
    have "moves s s3 c 1"
      using moves_trans [OF moves_trans0 [OF same_moves [OF same_fields(2)] moves_enterIoLoop [OF steps(1)]]
        same_moves [OF same_pending_trans [OF same_parts(2) [OF steps(2)] same_parts(1) [OF steps(3)]]]] by simp
    from moves_trans [OF this moves_postSend(1) [OF steps(4)]]
    have m4: "moves s s4 c (1 + (if res = PostResultSuccesful then -1 else 0))" .
    note md = moves_trans [OF _ same_moves [OF same_fields(3)]]
    show ?thesis
    proof (cases res)
      case PostResultSuccesful
      with m4 s' md [of s s4 c 0] show ?thesis by auto
    next
      case PostResultFailed
      with s' obtain s5 where "close_and_release os c s4 = Some s5" "s' = destroy sb s5" by auto
      with m4 PostResultFailed moves_trans [OF m4 moves_close_and_release] md [of s s5 c 0] show ?thesis by auto
    next
      case PostResultInvalidSocket
      with s' have "s' = destroy sb s4" by auto
      moreover have "dead s3 c" using moves_postSend(2) [OF steps(4)] PostResultInvalidSocket by (simp add: dead_def)
      then have "dead s4 c" using quiet_dead [OF quiet_postSend [OF steps(4)]] by simp
      ultimately have "dead s' c" by (simp add: dead_def)
      with m4 PostResultInvalidSocket \<open>s' = destroy sb s4\<close> md [of s s4 c 1] show ?thesis by auto
    qed
  qed
qed

lemma moves_echo:
  assumes "echo os c s = Some s'"
  shows "moves s s' c 0 \<or> (moves s s' c 1 \<and> dead s' c)"
proof -
  from assms obtain src si len b s1 where 1: "send os c src si len s = Some (b, s1)" "remove_inBuf os c s1 = Some s'"
    by (auto simp: echo_def Buffer_getBuffer_def bind_eq_Some_conv)
  have m: "moves s1 s' c 0" by (rule same_moves [OF same_parts(3) [OF 1(2)]])
  have "dead s' c = dead s1 c" by (rule quiet_dead [OF quiet_remove_inBuf [OF 1(2)]])
  with moves_send [OF 1(1)] moves_trans [OF _ m] show ?thesis by fastforce
qed

lemma dead_CloseClient:
  assumes "CloseClient os c s = Some s'"
  shows "dead s' c"
proof -
  from assms obtain x where x: "client s c = Some x" by (auto simp: CloseClient_def bind_eq_Some_conv)
  let ?s = "set_client c (x\<lparr>cc_socket := INVALID_SOCKET\<rparr>) s"
  have "clients s' = clients ?s"
    using assms x by (auto simp: CloseClient_def Net_setLinger_def call_def Let_def case_prod_unfold split: if_splits)
  then show ?thesis using client_SomeD [OF x] by (auto simp: dead_def client_def set_client_def)
qed

lemma clients_removeClient [simp]: "clients (removeClient c s) = clients s"
  by (simp add: removeClient_def)

lemma dead_release: "releaseClientContext c s = Some s' \<Longrightarrow> dead s' d = dead s d"
proof -
  assume "releaseClientContext c s = Some s'"
  then obtain n s1 where 1: "exitIoLoop c s = Some (n, s1)" "clients s' = clients s1"
    by (auto simp: releaseClientContext_def bind_eq_Some_conv split: if_splits)
  have "dead s1 d = dead s d" by (rule quiet_dead [OF quiet_exitIoLoop [OF 1(1)]])
  moreover have "dead s' d = dead s1 d" using 1(2) by (simp add: dead_def client_def)
  ultimately show ?thesis by simp
qed

lemma dead_close_and_release: "close_and_release os c s = Some s' \<Longrightarrow> dead s' c"
  by (auto simp: close_and_release_def bind_eq_Some_conv dest: dead_release dead_CloseClient)

lemma dead_post_recv_or_close:
  assumes "post_recv_or_close os c s = Some s'" and "dead s c"
  shows "dead s' c"
proof -
  from assms(1) obtain r s1 where 1: "postRecv os c s = Some (r, s1)"
    and s': "(if r = PostResultFailed \<or> r = PostResultInvalidSocket then close_and_release os c s1 else Some s1) = Some s'"
    by (auto simp: post_recv_or_close_def bind_eq_Some_conv)
  with assms(2) quiet_dead [OF quiet_postRecv [OF 1]] show ?thesis
    by (auto intro: dead_close_and_release split: if_splits)
qed

lemma moves_handleClose: "handleClose os c s = Some (b, s') \<Longrightarrow> moves s s' c (-1)"
  by (auto simp: handleClose_def bind_eq_Some_conv intro: moves_close_and_release)

lemma moves_handleRecv_echo:
  assumes "handleRecv os IocpServer_notifyPackageReceived c ov n s = Some (b, s')"
  shows "moves s s' c (-1) \<or> (moves s s' c 0 \<and> dead s' c)"
proof -
  from assms obtain x y m s1 and r :: ClientContext where x: "client s c = Some x"
    and ap: "ClientContext_appendToBuffer (valloc os) (memory s) x (m_recvBuf (m_recvIoCtx r)) n = Some (y, m)"
    and s1: "echo os c (set_client c y (s\<lparr>memory := m\<rparr>)) = Some s1" "post_recv_or_close os c s1 = Some s'"
    by (auto simp: handleRecv_def IocpServer_notifyPackageReceived_def bind_eq_Some_conv)
  have "m_nPendingIoCnt y = m_nPendingIoCnt x"
    using ap by (auto simp: ClientContext_appendToBuffer_def bind_eq_Some_conv split: if_splits)
  then have "moves s (set_client c y (s\<lparr>memory := m\<rparr>)) c 0"
    using x by (intro same_moves same_pending_trans [OF same_fields(2) same_set_client]) auto
  from moves_echo [OF s1(1)] moves_trans0 [OF this]
  have "moves s s1 c 0 \<or> (moves s s1 c 1 \<and> dead s1 c)" by blast
  then show ?thesis
    using moves_trans [OF _ moves_post_recv_or_close [OF s1(2)], of s]
      dead_post_recv_or_close [OF s1(2)] by fastforce
qed

lemma client_exitIoLoop:
  "exitIoLoop c s = Some (n, s') \<Longrightarrow> client s c = Some x \<Longrightarrow> \<exists>y. client s' c = Some y \<and> cc_outBuf y = cc_outBuf x"
  using client_SomeD [of s c x] by (auto simp: exitIoLoop_def bind_eq_Some_conv Let_def)

lemma client_removeClient [simp]: "client (removeClient c s) d = client s d"
  by (simp add: client_def)

lemma client_release:
  "releaseClientContext c s = Some s' \<Longrightarrow> client s c = Some x \<Longrightarrow> \<exists>y. client s' c = Some y \<and> cc_outBuf y = cc_outBuf x"
  by (auto simp: releaseClientContext_def bind_eq_Some_conv dest!: client_exitIoLoop split: if_splits)

lemma Buffer_clear_len: "Buffer_clear va m b = Some (b', m') \<Longrightarrow> Buffer_getBufferLen b' = 0"
  by (auto simp: Buffer_clear_def Buffer_deallocateBuffer_def Buffer_move_def Buffer_getBufferLen_def Let_def
      bind_eq_Some_conv case_prod_unfold split: if_splits)

lemma client_set_outBuf:
  "set_outBuf c b m s = Some s' \<Longrightarrow> \<exists>x. client s' c = Some x \<and> cc_outBuf x = b"
  by (auto simp: set_outBuf_def bind_eq_Some_conv dest: client_SomeD)

lemma moves_next_output:
  assumes "next_output os c n s = Some s'"
  shows "moves s s' c 0 \<or> (moves s s' c (-1) \<and> (\<exists>x. client s' c = Some x \<and> Buffer_getBufferLen (cc_outBuf x) = 0))"
proof -
  from assms obtain x b m s1 where 1: "client s c = Some x" "set_outBuf c b m s = Some s1"
    and rest: "(if Buffer_getBufferLen b = 0 then do {
       (b, m) \<leftarrow> Buffer_clear (valloc os) (memory s1) b;
       s \<leftarrow> set_outBuf c b m s1;
       case m_outBufQueue x of
         q # qs \<Rightarrow> do {
           (b, m) \<leftarrow> Buffer_copy (valloc os) (memory s) b q;
           s \<leftarrow> set_outBuf c b m s;
           x \<leftarrow> client s c;
           Some (destroy q (set_client c (x\<lparr>m_outBufQueue := qs\<rparr>) s)) }
       | [] \<Rightarrow> releaseClientContext c s }
     else Some s1) = Some s'"
    by (auto simp: next_output_def bind_eq_Some_conv)
  have m1: "same_pending s s1" by (rule same_parts(2) [OF 1(2)])
  show ?thesis
  proof (cases "Buffer_getBufferLen b = 0")
    case False
    with rest m1 show ?thesis by (auto intro: same_moves)
  next
    case True
    with rest obtain b2 m2 s2 where 2: "Buffer_clear (valloc os) (memory s1) b = Some (b2, m2)" "set_outBuf c b2 m2 s1 = Some s2"
      and rest2: "(case m_outBufQueue x of
         q # qs \<Rightarrow> do {
           (b, m) \<leftarrow> Buffer_copy (valloc os) (memory s2) b2 q;
           s \<leftarrow> set_outBuf c b m s2;
           x \<leftarrow> client s c;
           Some (destroy q (set_client c (x\<lparr>m_outBufQueue := qs\<rparr>) s)) }
       | [] \<Rightarrow> releaseClientContext c s2) = Some s'"
      by (auto simp: bind_eq_Some_conv)
    have m2: "same_pending s s2" by (rule same_pending_trans [OF m1 same_parts(2) [OF 2(2)]])
    show ?thesis
    proof (cases "m_outBufQueue x")
      case Nil
      with rest2 have r: "releaseClientContext c s2 = Some s'" by simp
      obtain y where "client s2 c = Some y" "cc_outBuf y = b2" using client_set_outBuf [OF 2(2)] by blast
      with client_release [OF r] Buffer_clear_len [OF 2(1)]
      have "\<exists>x. client s' c = Some x \<and> Buffer_getBufferLen (cc_outBuf x) = 0" by fastforce
      with moves_trans0 [OF same_moves [OF m2] moves_releaseClientContext [OF r]] show ?thesis by simp
    next
      case (Cons q qs)
      with rest2 obtain b3 m3 s3 y where 3: "set_outBuf c b3 m3 s2 = Some s3" "client s3 c = Some y"
        "s' = destroy q (set_client c (y\<lparr>m_outBufQueue := qs\<rparr>) s3)"
        by (auto simp: bind_eq_Some_conv)
      have "same_pending s3 (set_client c (y\<lparr>m_outBufQueue := qs\<rparr>) s3)" using 3(2) by (rule same_set_client) simp
      with 3(3) have "same_pending s3 s'" using same_pending_trans same_fields(3) by blast
      with same_pending_trans [OF m2 same_parts(2) [OF 3(1)]] show ?thesis
        by (blast intro: same_moves same_pending_trans)
    qed
  qed
qed

lemma moves_handleSend:
  assumes "handleSend os c ov n s = Some (b, s')"
  shows "moves s s' c (-1) \<or> moves s s' c 0"
proof -
  from assms obtain s1 x where 1: "next_output os c n s = Some s1" "client s1 c = Some x"
    by (auto simp: handleSend_def bind_eq_Some_conv)
  note m1 = moves_next_output [OF 1(1)]
  show ?thesis
  proof (cases "Buffer_getBufferLen (cc_outBuf x) = 0")
    case True
    with assms 1 have "s' = s1" by (simp add: handleSend_def)
    with m1 show ?thesis by blast
  next
    case False
    with assms 1 obtain s2 r s3 where 2: "point_send ov (cc_outBuf x) s1 = Some s2" "postSend os c s2 = Some (r, s3)"
      and s': "(if r = PostResultFailed then close_and_release os c s3 else Some s3) = Some s'"
      by (auto simp: handleSend_def bind_eq_Some_conv)
    from m1 False 1(2) have "moves s s1 c 0" by auto
    from moves_trans0 [OF moves_trans0 [OF this same_moves [OF same_parts(1) [OF 2(1)]]] moves_postSend(1) [OF 2(2)]]
    have "moves s s3 c (if r = PostResultSuccesful then -1 else 0)" .
    with s' moves_trans0 [OF _ moves_close_and_release, of s s3 c os s'] show ?thesis by (cases r) auto
  qed
qed

lemma same_postAccept:
  assumes "postAccept os a s = Some (b, s')"
  shows "moves s s' c 0"
  using assms
  by (auto simp: postAccept_def Net_WSASocket_def call_def set_accept_def moves_def balance_def held_def client_def
      Let_def bind_eq_Some_conv case_prod_unfold split: if_splits)

lemma same_notifyNewConnection: "notifyNewConnection os c s = Some s' \<Longrightarrow> same_pending s s'"
  by (auto simp: notifyNewConnection_def Net_getpeername_def call_def bind_eq_Some_conv Let_def case_prod_unfold
      intro!: same_pending_trans [OF same_fields(1) same_set_client])

lemma moves_allocate:
  assumes "allocateClientContext os sock s = Some (c, s')"
  shows "moves s s' c 0"
  using assms
proof (cases rule: allocateClientContext_cases)
  case (1 x)
  then show ?thesis by (auto simp: moves_def balance_def held_def client_def nth_append)
next
  case (2 y x fs)
  then show ?thesis
    by (auto simp: moves_def balance_def held_def client_def set_client_def nth_list_update split: if_splits)
qed

lemma moves_other: "moves s s' c 0 \<Longrightarrow> moves s s' d 0"
  by (simp add: moves_def)

lemma moves_handleAccept:
  assumes "handleAccept os a s = Some (b, s')"
  shows "moves s s' c 0"
proof -
  from assms obtain x l where x: "accept_ctx s a = Some x" "m_pListenCtx s = Some l"
    by (auto simp: handleAccept_parts bind_eq_Some_conv)
  define s1 where "s1 = s\<lparr>trace := trace s @ [Sys_update_accept (lc_socket l) (m_acceptSocket x)]\<rparr>"
  have m1: "moves s s1 d 0" for d unfolding s1_def by (intro same_moves same_fields)
  have upd: "snd (Net_updateAcceptContext os (lc_socket l) (m_acceptSocket x) s) = s1"
    by (simp add: Net_updateAcceptContext_def call_def case_prod_unfold s1_def)
  show ?thesis
  proof (cases "m_nConnClientCnt s1 \<ge> m_nMaxConnClientCnt s1")
    case True
    let ?s2 = "set_accept a (Some (x\<lparr>m_acceptSocket := INVALID_SOCKET\<rparr>))
      (s1\<lparr>trace := trace s1 @ [Sys_closesocket (m_acceptSocket x)]\<rparr>)"
    from True assms x upd obtain r where "postAccept os a ?s2 = Some (r, s')"
      by (auto simp: handleAccept_parts call_def case_prod_unfold Let_def bind_eq_Some_conv)
    moreover have "moves s1 ?s2 c 0" by (intro same_moves) (simp add: same_pending_def set_accept_def)
    ultimately show ?thesis using moves_trans0 [OF moves_trans0 [OF m1]] same_postAccept by blast
  next
    case False
    let ?s = "s1\<lparr>m_nConnClientCnt := m_nConnClientCnt s1 + 1\<rparr>"
    from False assms x upd obtain e s2 y where
      al: "allocateClientContext os (m_acceptSocket x) ?s = Some (e, s2)" "client s2 e = Some y"
      by (auto simp: handleAccept_parts case_prod_unfold Let_def bind_eq_Some_conv)
    have m2: "moves s s2 e 0"
      using moves_trans0 [OF moves_trans0 [OF m1 same_moves [OF same_fields(4)]] moves_allocate [OF al(1)]] .
    define s3 where "s3 = snd (associateWithCompletionPort os (cc_socket y) (Some (Key_client e)) s2)"
    have "same_pending s2 s3"
      by (simp add: s3_def associateWithCompletionPort_def call_def case_prod_unfold Let_def same_pending_def)
    with m2 have m3: "moves s s3 e 0" by (blast intro: moves_trans0 same_moves)
    have "moves s s' e 0"
    proof (cases "fst (associateWithCompletionPort os (cc_socket y) (Some (Key_client e)) s2) = 0")
      case True
      with False assms x upd al s3_def have "s' = s3"
        by (auto simp: handleAccept_parts case_prod_unfold Let_def bind_eq_Some_conv)
      with m3 show ?thesis by simp
    next
      case nz: False
      with False assms x upd al s3_def obtain s4 r s5 s6 where
        4: "enterIoLoop e s3 = Some s4" "postAccept os a s4 = Some (r, s5)" "notifyNewConnection os e s5 = Some s6"
          "post_recv_or_close os e (addClient e s6) = Some s'"
        by (auto simp: handleAccept_parts case_prod_unfold Let_def bind_eq_Some_conv)
      have "moves s s4 e 1" using moves_trans0 [OF m3 moves_enterIoLoop [OF 4(1)]] .
      from moves_trans [OF this same_postAccept [OF 4(2), of e]] have "moves s s5 e 1" by simp
      from moves_trans [OF this same_moves [OF same_pending_trans [OF same_notifyNewConnection [OF 4(3)] same_fields(6)], of e e]]
      have "moves s (addClient e s6) e 1" by simp
      from moves_trans [OF this moves_post_recv_or_close [OF 4(4)]] show ?thesis by simp
    qed
    then show ?thesis by (rule moves_other)
  qed
qed

lemma moves_deliver:
  assumes "ov \<in> set (kernel_io s)" and "key_of ov = Key_client c"
  shows "moves s (deliver ov data s) c 1"
proof -
  let ?s = "s\<lparr>kernel_io := remove1 ov (kernel_io s)\<rparr>"
  have ov: "ov = Ov_recv c \<or> ov = Ov_send c" using assms(2) by (auto simp: key_of_def split: overlapped.splits)
  obtain ys zs where k: "kernel_io s = ys @ ov # zs" "ov \<notin> set ys" using split_list_first [OF assms(1)] by blast
  then have "moves s ?s c 1"
    using ov by (auto simp: moves_def balance_def held_def client_def remove1_append)
  moreover have "same_pending ?s (deliver ov data s)"
    by (auto simp: deliver_def Let_def intro: same_set_client split: overlapped.splits option.splits)
  ultimately show ?thesis using moves_trans [OF _ same_moves] by fastforce
qed

lemma moves_deliver_accept: "key_of ov = Key_server \<Longrightarrow> moves s (deliver ov data s) c 0"
  by (auto simp: deliver_def key_of_def moves_def balance_def held_def client_def split: overlapped.splits)

text \<open>
  C3. In the echo server no completion takes more away from a context than it was given: when a
  request the kernel held has completed and been handled, with any outcome and whatever the
  operating system answers, the balance of every existing context (its pending count less the
  requests the kernel still holds for it) is what it was before, or one more.
\<close>

theorem never_over_released:
  assumes "ov \<in> set (kernel_io s)"
    and "worker_round os IocpServer_notifyPackageReceived \<lparr>cq_ret = r, cq_bytes = n, cq_key = key_of ov, cq_ov = ov\<rparr>
           (deliver ov data s) = Some (b, s')"
    and "d < length (clients s)"
  shows "balance s' d = balance s d \<or> balance s' d = balance s d + 1"
proof (cases "key_of ov")
  case (Key_client c)
  let ?s = "deliver ov data s"
  have "moves ?s s' c (-1) \<or> moves ?s s' c 0"
    using assms(2) Key_client
    by (auto simp: worker_round_def bind_eq_Some_conv key_of_def split: if_splits option.splits PostType.splits overlapped.splits
        dest: moves_handleRecv_echo moves_handleSend moves_handleClose)
  with moves_trans [OF moves_deliver [OF assms(1) Key_client, of data]] have "moves s s' c 0 \<or> moves s s' c 1"
    by fastforce
  with assms(3) show ?thesis by (auto simp: moves_def split: if_splits)
next
  case Key_server
  let ?s = "deliver ov data s"
  have "moves ?s s' d 0"
    using assms(2) Key_server
    by (auto simp: worker_round_def bind_eq_Some_conv key_of_def split: if_splits option.splits PostType.splits overlapped.splits
        intro: moves_handleAccept)
  with moves_trans0 [OF moves_deliver_accept [OF Key_server]] have "moves s s' d 0" by blast
  with assms(3) show ?thesis by (simp add: moves_def)
next
  case Key_exit
  then show ?thesis by (simp add: key_of_def split: overlapped.splits)
qed

text \<open>One client whose receive fails: the connection is closed and the context becomes free.\<close>

definition one_client :: server where
  "one_client = (IocpServer_ctor good_os 5001 10000 \<lparr>trace = [], memory = []\<rparr>)
     \<lparr>clients := [(ClientContext_ctor 0 7)\<lparr>m_nPendingIoCnt := 1\<rparr>], m_connectedClientList := [0],
      m_nConnClientCnt := 1, kernel_io := [Ov_recv 0]\<rparr>"

theorem never_over_released_witness:
  "\<exists>s'. worker_round good_os IocpServer_notifyPackageReceived
       \<lparr>cq_ret = False, cq_bytes = 0, cq_key = key_of (Ov_recv 0), cq_ov = Ov_recv 0\<rparr> (deliver (Ov_recv 0) [] one_client) = Some (True, s')
     \<and> m_freeClientList s' = [0] \<and> (balance s' 0 = balance one_client 0 \<or> balance s' 0 = balance one_client 0 + 1)"
proof -
  obtain s' where s': "worker_round good_os IocpServer_notifyPackageReceived
       \<lparr>cq_ret = False, cq_bytes = 0, cq_key = key_of (Ov_recv 0), cq_ov = Ov_recv 0\<rparr> (deliver (Ov_recv 0) [] one_client) = Some (True, s')"
    and "m_freeClientList s' = [0]"
    by (simp add: one_client_def IocpServer_ctor_def call_def worker_round_def deliver_def key_of_def handleClose_def
        close_and_release_def CloseClient_def client_def set_client_def Net_setLinger_def releaseClientContext_def
        exitIoLoop_def removeClient_def ClientContext_ctor_def INVALID_SOCKET_def SOCKET_ERROR_def Let_def)
  moreover have "Ov_recv 0 \<in> set (kernel_io one_client)" "0 < length (clients one_client)"
    by (simp_all add: one_client_def)
  ultimately show ?thesis using never_over_released [OF _ s'] by blast
qed

end
