(* ===== verification/Serving.thy ===== *)
theory Serving
  imports Pending
begin

text \<open>
  What the HTTP server does with the data of one connection, from the completion of a receive to the
  bytes handed to \<^verbatim>\<open>WSASend\<close>: the reply to a complete request, and the runs in which the handlers
  lose track of a context or of memory.
\<close>

section \<open>Sending while no output is pending\<close>

text \<open>\<open>accepted os tr k\<close>: the overlapped request \<open>k\<close> is taken by the kernel.\<close>

definition accepted :: "os \<Rightarrow> oscall list \<Rightarrow> oscall \<Rightarrow> bool" where
  "accepted os tr k \<longleftrightarrow> \<not> (fst (sys os tr k) = SOCKET_ERROR \<and> snd (sys os tr k) \<noteq> WSA_IO_PENDING)"

text \<open>
  \<open>keeps m b m'\<close>: every region but the one of \<open>b\<close> is in \<open>m'\<close> as in \<open>m\<close>.
\<close>

definition keeps :: "mem \<Rightarrow> Buffer \<Rightarrow> mem \<Rightarrow> bool" where
  "keeps m b m' \<longleftrightarrow> (\<forall>bl xs. bl \<noteq> m_pBegin b \<longrightarrow> block_of m bl = Some xs \<longrightarrow> block_of m' bl = Some xs)"

lemma keeps_rep: "keeps m b m' \<Longrightarrow> m_pBegin c \<noteq> m_pBegin b \<Longrightarrow> Buffer_rep m c xs k \<Longrightarrow> Buffer_rep m' c xs k"
  by (auto simp: Buffer_rep_def keeps_def split: base.splits)

lemma Buffer_dtor_block: "bl \<noteq> m_pBegin b \<Longrightarrow> block_of (Buffer_dtor m b) bl = block_of m bl"
  by (simp add: Buffer_dtor_def virtual_free_block)

text \<open>The local buffer of \<^verbatim>\<open>send\<close> holds the message, in a region that did not exist before.\<close>

lemma sendBuf_ok:
  assumes "alloc_ok va" and "length msg \<le> 2 ^ 30"
  shows "\<exists>sb m1 zs. Buffer_write va m Buffer_ctor (Lit msg) 0 (word_of_nat (length msg)) = Some (word_of_nat (length msg), sb, m1)
     \<and> Buffer_rep m1 sb zs (length msg) \<and> take (length msg) zs = msg \<and> fits (length zs) \<and> own_step m Buffer_ctor m1 sb
     \<and> (zs = [] \<or> (\<exists>a \<ge> length m. m_pBegin sb = Heap a \<and> a < length m1))"
proof -
  let ?n = "word_of_nat (length msg) :: u32"
  have n: "unat ?n = length msg" using assms(2) by (simp add: unat_word_of_nat)
  have ld: "load_n m (Lit msg) 0 (unat ?n) = Some msg" by (simp add: n load_n_Lit)
  let ?zs = "splice (grown (length msg) 0 []) 0 msg"
  obtain sb m1 where w: "Buffer_write va m Buffer_ctor (Lit msg) 0 ?n = Some (?n, sb, m1)"
    "Buffer_rep m1 sb ?zs (length msg)" "own_step m Buffer_ctor m1 sb"
    using Buffer_write_ok [OF assms(1) Buffer_ctor_rep _ _ ld] n assms(2) ld
    by (auto simp: Buffer_ctor_def fits_def)
  have len: "length ?zs = up1024 (length msg)"
    using up1024_bounds [of "length msg"] by (simp add: grown_def)
  have "take (length msg) ?zs = msg" by (simp add: splice_def)
  moreover have "fits (length ?zs)"
    using len assms(2) up1024_bounds(2) [of "length msg"] by (simp add: fits_def)
  moreover have "?zs = [] \<or> (\<exists>a \<ge> length m. m_pBegin sb = Heap a \<and> a < length m1)"
    using Buffer_rep_block(5) [OF w(2)] w(3) by (auto simp: own_step_def Buffer_ctor_def)
  ultimately show ?thesis using w by blast
qed

text \<open>
  \<^verbatim>\<open>send\<close> with an empty output buffer: the message is copied into it, \<^verbatim>\<open>WSASend\<close> is given exactly the
  message, the request is counted, and no other region changes.
\<close>

lemma send_first:
  assumes va: "alloc_ok (valloc os)" and x: "client s c = Some x" and ob: "Buffer_rep (memory s) (cc_outBuf x) ys 0"
    and msg: "length msg \<le> 2 ^ 30" and sock: "cc_socket x \<noteq> INVALID_SOCKET"
    and sent: "accepted os (trace s) (Sys_WSASend (cc_socket x) msg c)"
  shows "\<exists>b m' w zs. send os c (Lit msg) 0 (word_of_nat (length msg)) s = Some (True,
       set_client c (x\<lparr>m_nPendingIoCnt := m_nPendingIoCnt x + 1, cc_outBuf := b, m_sendIoCtx := w\<rparr>)
         (s\<lparr>memory := m', trace := trace s @ [Sys_WSASend (cc_socket x) msg c], kernel_io := kernel_io s @ [Ov_send c]\<rparr>))
     \<and> m_postType w = m_postType (m_sendIoCtx x)
     \<and> Buffer_rep m' b zs (length msg) \<and> take (length msg) zs = msg \<and> keeps (memory s) (cc_outBuf x) m'
     \<and> (m_pBegin b = m_pBegin (cc_outBuf x) \<or> m_pBegin b = Null \<or> (\<exists>a \<ge> length (memory s). m_pBegin b = Heap a))"
proof -
  let ?n = "word_of_nat (length msg) :: u32"
  have n: "unat ?n = length msg" using msg by (simp add: unat_word_of_nat)
  obtain sb m1 qs where 1: "Buffer_write (valloc os) (memory s) Buffer_ctor (Lit msg) 0 ?n = Some (?n, sb, m1)"
    "Buffer_rep m1 sb qs (length msg)" "take (length msg) qs = msg" "fits (length qs)" "own_step (memory s) Buffer_ctor m1 sb"
    "qs = [] \<or> (\<exists>a \<ge> length (memory s). m_pBegin sb = Heap a \<and> a < length m1)"
    using sendBuf_ok [OF va msg, of "memory s"] by blast
  have ob1: "Buffer_rep m1 (cc_outBuf x) ys 0"
  proof (cases "m_pBegin (cc_outBuf x) = Null")
    case True
    then show ?thesis using ob by (simp add: Buffer_rep_def)
  next
    case False
    then show ?thesis using own_step_rep [OF 1(5) _ ob] by (simp add: Buffer_ctor_def)
  qed
  have ne: "qs = [] \<or> m_pBegin sb \<noteq> m_pBegin (cc_outBuf x)"
    using 1(6) Buffer_rep_block(5) [OF ob] by auto
  obtain b m2 zs where 2: "Buffer_copy (valloc os) m1 (cc_outBuf x) sb = Some (b, m2)" "Buffer_rep m2 b zs (length msg)"
    "take (length msg) zs = msg" "own_step m1 (cc_outBuf x) m2 b"
    using Buffer_copy_ok [OF va ob1 1(2,4) ne] 1(3) by auto
  have blen: "Buffer_getBufferLen b = ?n"
    using Buffer_rep_len [OF 2(2)] n by (metis unsigned_word_eqI)
  have bytes: "load_n m2 (m_pBegin b) 0 (length msg) = Some msg"
    using Buffer_rep_load [OF 2(2), of 0 "length msg"] Buffer_rep_block(3) [OF 2(2)] 2(3) by simp
  have olen: "Buffer_getBufferLen (cc_outBuf x) = 0" using Buffer_rep_len [OF ob] by (simp add: unat_eq_0)
  let ?w = "(m_sendIoCtx x)\<lparr>m_wsaBuf := Wsa_at (m_pBegin b) ?n\<rparr>"
  let ?m = "Buffer_dtor m2 sb"
  have "send os c (Lit msg) 0 ?n s = Some (True,
       set_client c (x\<lparr>m_nPendingIoCnt := m_nPendingIoCnt x + 1, cc_outBuf := b, m_sendIoCtx := ?w\<rparr>)
         (s\<lparr>memory := ?m, trace := trace s @ [Sys_WSASend (cc_socket x) msg c], kernel_io := kernel_io s @ [Ov_send c]\<rparr>))"
    using 1(1) 2(1) x sock sent blen bytes n olen client_SomeD [OF x]
    by (auto simp: send_def enterIoLoop_def set_outBuf_def point_send_def postSend_def Buffer_getBuffer_def wsa_bytes_def
        call_def accepted_def case_prod_unfold destroy_def set_client_def client_def Let_def)
  moreover have "m_pBegin sb = Null \<or> m_pBegin b \<noteq> m_pBegin sb"
  proof -
    have "m_pBegin sb = Null \<or> (\<exists>a \<ge> length (memory s). m_pBegin sb = Heap a \<and> a < length m1)"
      using 1(6) Buffer_rep_block(5) [OF 1(2)] 1(5) by (auto simp: own_step_def Buffer_ctor_def)
    then show ?thesis using 2(4) Buffer_rep_block(5) [OF ob] by (auto simp: own_step_def)
  qed
  then have "Buffer_rep ?m b zs (length msg)"
    using 2(2) Buffer_dtor_block [of "m_pBegin b" sb m2] by (auto simp: Buffer_rep_def Buffer_dtor_def split: base.splits)
  moreover have "keeps (memory s) (cc_outBuf x) ?m" unfolding keeps_def
  proof (intro allI impI)
    fix bl xs assume bl: "bl \<noteq> m_pBegin (cc_outBuf x)" "block_of (memory s) bl = Some xs"
    have "block_of m1 bl = Some xs"
      using own_step_block [OF 1(5) _ bl(2)] bl(2) by (cases "bl = Null") (auto simp: Buffer_ctor_def)
    then have "block_of m2 bl = Some xs" using own_step_block [OF 2(4) bl(1)] by blast
    moreover have "bl = Null \<or> bl \<noteq> m_pBegin sb"
      using 1(5) bl(2) by (auto simp: own_step_def Buffer_ctor_def split: if_splits)
    ultimately show "block_of ?m bl = Some xs"
      using Buffer_dtor_block [of bl sb m2] by (auto simp: Buffer_dtor_def)
  qed
  moreover have "length (memory s) \<le> length m1" using 1(5) by (simp add: own_step_def)
  then have "m_pBegin b = m_pBegin (cc_outBuf x) \<or> m_pBegin b = Null \<or> (\<exists>a \<ge> length (memory s). m_pBegin b = Heap a)"
    using 2(4) le_trans unfolding own_step_def by blast
  moreover have "m_postType ?w = m_postType (m_sendIoCtx x)" by simp
  ultimately show ?thesis using 2(3) by blast
qed

section \<open>One round of the decoder\<close>

lemma Buffer_remove_all:
  assumes "Buffer_rep m b xs k" and "0 < k"
  shows "\<exists>m'. Buffer_remove va m b (Buffer_getBufferLen b) = Some (Buffer_getBufferLen b, b\<lparr>m_pEnd := 0\<rparr>, m')
     \<and> Buffer_rep m' (b\<lparr>m_pEnd := 0\<rparr>) (shifted k xs) 0 \<and> own_step m b m' (b\<lparr>m_pEnd := 0\<rparr>)"
proof -
  let ?n = "Buffer_getBufferLen b"
  have n: "unat ?n = k" using Buffer_rep_len [OF assms(1)] .
  have k: "k \<le> length xs" using Buffer_rep_block(3) [OF assms(1)] .
  have e: "m_pEnd b - uint ?n = 0" using Buffer_rep_block(2) [OF assms(1)] n uint_nat [of ?n] by simp
  obtain m1 where 1: "move_memory m (m_pBegin b) 0 (m_pBegin b) (uint ?n) (unat (Buffer_getMemSize b - ?n)) = Some m1"
    "Buffer_rep m1 (b\<lparr>m_pEnd := 0\<rparr>) (shifted k xs) 0" "own_step m b m1 (b\<lparr>m_pEnd := 0\<rparr>)"
    using Buffer_shift_ok [OF assms(1), of ?n] n e by auto
  have nz: "?n \<noteq> 0" using n assms(2) by auto
  have le: "\<not> ?n > Buffer_getMemSize b" using n k Buffer_rep_memsize [OF assms(1)] by (simp add: word_less_nat_alt)
  have ms: "unat (Buffer_getMemSize (b\<lparr>m_pEnd := 0\<rparr>)) = length xs"
    using Buffer_rep_memsize [OF assms(1)] by (simp add: Buffer_getMemSize_def)
  have "Buffer_deallocateBuffer va m1 (b\<lparr>m_pEnd := 0\<rparr>) (Buffer_getBufferLen (b\<lparr>m_pEnd := 0\<rparr>)) = Some (0, b\<lparr>m_pEnd := 0\<rparr>, m1)"
  proof -
    have "0 < length xs" using k assms(2) by linarith
    then show ?thesis using ms by (simp add: Buffer_deallocateBuffer_def Buffer_getBufferLen_def round_1024_def word_less_nat_alt)
  qed
  then have "Buffer_remove va m b ?n = Some (?n, b\<lparr>m_pEnd := 0\<rparr>, m1)"
    using 1(1) nz le e by (simp add: Buffer_remove_def)
  with 1 show ?thesis by blast
qed

text \<open>The decoder reads the first \<open>k\<close> bytes of the region, whatever the buffer says its data are.\<close>

definition region_codec :: "base \<Rightarrow> nat \<Rightarrow> HttpCodec \<Rightarrow> bool" where
  "region_codec p k codec \<longleftrightarrow> m_inBuf codec = Slice_dn p 0 (word_of_nat k)"

lemma region_slice:
  assumes "block_of m p = Some xs" and "k \<le> length xs" and "length xs < 2 ^ 31" and "region_codec p k codec"
  shows "Slice_wf m (m_inBuf codec)" and "Slice_str m (m_inBuf codec) = take k xs"
proof -
  have "uint (word_of_nat k :: u32) = int k" using assms(2,3) by (simp add: uint_nat unat_word_of_nat)
  then show "Slice_wf m (m_inBuf codec)" and "Slice_str m (m_inBuf codec) = take k xs"
    using assms by (auto simp: region_codec_def Slice_wf_def Slice_str_def Slice_dn_def window_def)
qed

lemma decode_region:
  assumes "block_of m p = Some xs" and "k \<le> length xs" and "length xs < 2 ^ 31" and "region_codec p k codec"
  shows "\<exists>ret codec'. HttpCodec_tryDecode m codec = Some (ret, codec') \<and> region_codec p k codec'
     \<and> implements codec (take k xs) ret codec' (decode_spec (m_headers (m_req codec)) (take k xs))"
  using tryDecode_ok [OF region_slice(1) [OF assms]] region_slice(2) [OF assms] assms(4)
  by (auto simp: region_codec_def)

text \<open>
  The client context after its request was answered: the reply is in the output buffer and the input
  buffer is empty.
\<close>

definition replied :: "nat \<Rightarrow> ClientContext \<Rightarrow> string \<Rightarrow> server \<Rightarrow> ClientContext \<Rightarrow> server \<Rightarrow> bool" where
  "replied c x zs s x' s' \<longleftrightarrow>
     (\<exists>b m w. x' = x\<lparr>m_nPendingIoCnt := m_nPendingIoCnt x + 1, cc_outBuf := b, m_sendIoCtx := w, cc_inBuf := (cc_inBuf x)\<lparr>m_pEnd := 0\<rparr>\<rparr>
       \<and> s' = set_client c x' (s\<lparr>trace := trace s @ [Sys_WSASend (cc_socket x) reply_text c],
           kernel_io := kernel_io s @ [Ov_send c], memory := m\<rparr>))
     \<and> m_postType (m_sendIoCtx x') = m_postType (m_sendIoCtx x)
     \<and> Buffer_rep (memory s') (cc_inBuf x') zs 0 \<and> m_pBegin (cc_inBuf x') \<noteq> m_pBegin (cc_outBuf x')
     \<and> (\<exists>qs. Buffer_rep (memory s') (cc_outBuf x') qs (length reply_text) \<and> take (length reply_text) qs = reply_text)"

lemma length_reply_text: "length reply_text = 66"
  by (simp add: reply_text_def CRLF_def)

lemma decode_loop_reply:
  assumes va: "alloc_ok (valloc os)" and x: "client s c = Some x" and sock: "cc_socket x \<noteq> INVALID_SOCKET"
    and ib: "Buffer_rep (memory s) (cc_inBuf x) xs k" and ob: "Buffer_rep (memory s) (cc_outBuf x) ys 0"
    and ne: "m_pBegin (cc_inBuf x) \<noteq> m_pBegin (cc_outBuf x)"
    and codec: "region_codec (m_pBegin (cc_inBuf x)) k codec"
    and dec: "decode_spec (m_headers (m_req codec)) (take k xs) = Reply"
    and sent: "accepted os (trace s) (Sys_WSASend (cc_socket x) reply_text c)"
  shows "\<exists>codec' x' s'. decode_loop os c codec s = decode_loop os c codec' s' \<and> region_codec (m_pBegin (cc_inBuf x)) k codec'
     \<and> m_outBuf codec' = reply_text \<and> replied c x (shifted k xs) s x' s'"
proof -
  note xs = Buffer_rep_block [OF ib]
  obtain ret codec' where 1: "HttpCodec_tryDecode (memory s) codec = Some (ret, codec')" "region_codec (m_pBegin (cc_inBuf x)) k codec'"
    "implements codec (take k xs) ret codec' Reply"
    using decode_region [OF xs(1,3,4) codec] dec by auto
  have k0: "0 < k" using decode_Reply_nonempty [OF dec] by auto
  then have ret: "ret > 0" "m_outBuf codec' = reply_text" using 1(3) xs(3) by (auto simp: implements_def)
  obtain a where a: "m_pBegin (cc_inBuf x) = Heap a" "a < length (memory s)" using xs(3,5) k0 by auto
  obtain b m1 w zs where 2: "send os c (Lit reply_text) 0 (word_of_nat (length reply_text)) s = Some (True,
       set_client c (x\<lparr>m_nPendingIoCnt := m_nPendingIoCnt x + 1, cc_outBuf := b, m_sendIoCtx := w\<rparr>)
         (s\<lparr>memory := m1, trace := trace s @ [Sys_WSASend (cc_socket x) reply_text c], kernel_io := kernel_io s @ [Ov_send c]\<rparr>))"
    "Buffer_rep m1 b zs (length reply_text)" "take (length reply_text) zs = reply_text" "keeps (memory s) (cc_outBuf x) m1"
    "m_postType w = m_postType (m_sendIoCtx x)"
    "m_pBegin b = m_pBegin (cc_outBuf x) \<or> m_pBegin b = Null \<or> (\<exists>a \<ge> length (memory s). m_pBegin b = Heap a)"
    using send_first [OF va x ob _ sock sent] by (auto simp: length_reply_text)
  have bne: "m_pBegin (cc_inBuf x) \<noteq> m_pBegin b" using 2(6) ne a by auto
  have "Buffer_rep m1 (cc_inBuf x) xs k" using keeps_rep [OF 2(4) ne ib] .
  from Buffer_remove_all [OF this k0] obtain m2 where
    3: "Buffer_remove (valloc os) m1 (cc_inBuf x) (Buffer_getBufferLen (cc_inBuf x))
         = Some (Buffer_getBufferLen (cc_inBuf x), (cc_inBuf x)\<lparr>m_pEnd := 0\<rparr>, m2)"
    "Buffer_rep m2 ((cc_inBuf x)\<lparr>m_pEnd := 0\<rparr>) (shifted k xs) 0" "own_step m1 (cc_inBuf x) m2 ((cc_inBuf x)\<lparr>m_pEnd := 0\<rparr>)"
    by blast
  have ob2: "Buffer_rep m2 b zs (length reply_text)" using own_step_rep [OF 3(3) _ 2(2)] bne by simp
  let ?x = "x\<lparr>m_nPendingIoCnt := m_nPendingIoCnt x + 1, cc_outBuf := b, m_sendIoCtx := w, cc_inBuf := (cc_inBuf x)\<lparr>m_pEnd := 0\<rparr>\<rparr>"
  let ?s = "set_client c ?x (s\<lparr>trace := trace s @ [Sys_WSASend (cc_socket x) reply_text c],
           kernel_io := kernel_io s @ [Ov_send c], memory := m2\<rparr>)"
  have "decode_loop os c codec s = decode_loop os c codec' ?s"
    using 1(1) ret 2(1) 3(1) client_SomeD [OF x]
    by (subst decode_loop.simps) (simp add: HttpCodec_responseMessage_def remove_inBuf_def client_def set_client_def Let_def)
  moreover have "replied c x (shifted k xs) s ?x ?s"
    unfolding replied_def using 3(2) ob2 2(3,5) bne by (auto simp: set_client_def)
  ultimately show ?thesis using 1(2) ret(2) by blast
qed

lemma decode_loop_incomplete:
  assumes "Buffer_rep (memory s) b xs j" and "k \<le> length xs" and "region_codec (m_pBegin b) k codec"
    and "decode_spec (m_headers (m_req codec)) (take k xs) = Incomplete"
  shows "decode_loop os c codec s = Some s"
  using decode_region [OF Buffer_rep_block(1) [OF assms(1)] assms(2) Buffer_rep_block(4) [OF assms(1)] assms(3)] assms(4)
  by (subst decode_loop.simps) (auto simp: implements_def)

section \<open>A whole exchange\<close>

text \<open>
  A connection that waits for a request: both buffers are empty, the region of the input buffer is
  all zero, nothing is queued, and the pending receive is its only request.
\<close>

definition idle :: "server \<Rightarrow> nat \<Rightarrow> ClientContext \<Rightarrow> nat \<Rightarrow> bool" where
  "idle s c x L \<longleftrightarrow> client s c = Some x \<and> cc_socket x \<noteq> INVALID_SOCKET
     \<and> Buffer_rep (memory s) (cc_inBuf x) (replicate L NUL) 0 \<and> (\<exists>ys. Buffer_rep (memory s) (cc_outBuf x) ys 0)
     \<and> (L = 0 \<and> m_pBegin (cc_inBuf x) = Null \<or> 1024 \<le> L \<and> m_pBegin (cc_inBuf x) \<noteq> m_pBegin (cc_outBuf x))
     \<and> m_outBufQueue x = [] \<and> m_nPendingIoCnt x = 1
     \<and> m_postType (m_recvIoCtx x) = RECV_EVENT \<and> m_postType (m_sendIoCtx x) = SEND_EVENT"

lemma hdr_end_NUL: "hdr_end (replicate k NUL) = None"
  by (induction k) (simp_all add: CRLF_def)

lemma shifted_zero: "2 * k \<le> k + j \<Longrightarrow> length msg = k \<Longrightarrow> shifted k (msg @ replicate j NUL) = replicate (k + j) NUL"
  by (simp add: shifted_def replicate_add [symmetric] add.commute)

lemma notify_reply:
  assumes va: "alloc_ok (valloc os)" and x: "client s c = Some x" and sock: "cc_socket x \<noteq> INVALID_SOCKET"
    and ib: "Buffer_rep (memory s) (cc_inBuf x) (msg @ replicate j NUL) (length msg)" and j: "length msg \<le> j"
    and ob: "Buffer_rep (memory s) (cc_outBuf x) ys 0" and ne: "m_pBegin (cc_inBuf x) \<noteq> m_pBegin (cc_outBuf x)"
    and dec: "decode_spec Map.empty msg = Reply"
    and sent: "accepted os (trace s) (Sys_WSASend (cc_socket x) reply_text c)"
  shows "\<exists>x' s'. HttpServer_notifyPackageReceived os c s = Some s' \<and> replied c x (replicate (length msg + j) NUL) s x' s'"
proof -
  let ?k = "length msg"
  have len: "Buffer_getBufferLen (cc_inBuf x) = word_of_nat ?k"
    using Buffer_rep_len [OF ib] by (metis of_nat_unat ucast_id)
  define codec where "codec = HttpCodec_ctor 0 0 (m_pBegin (cc_inBuf x)) 0 (word_of_nat ?k)"
  have "region_codec (m_pBegin (cc_inBuf x)) ?k codec" "m_headers (m_req codec) = Map.empty"
    by (simp_all add: codec_def HttpCodec_ctor_def region_codec_def)
  with decode_loop_reply [OF va x sock ib ob ne, of codec] dec sent obtain codec' x' s' where
    1: "decode_loop os c codec s = decode_loop os c codec' s'" "region_codec (m_pBegin (cc_inBuf x)) ?k codec'"
      "replied c x (replicate (?k + j) NUL) s x' s'"
    using shifted_zero [of ?k j msg] j by auto
  from 1(3) have rep: "Buffer_rep (memory s') (cc_inBuf x') (replicate (?k + j) NUL) 0" "m_pBegin (cc_inBuf x') = m_pBegin (cc_inBuf x)"
    by (auto simp: replied_def)
  have "decode_loop os c codec' s' = Some s'"
    by (rule decode_loop_incomplete [OF rep(1), of ?k])
       (use 1(2) rep(2) in \<open>simp_all add: decode_spec_def hdr_end_NUL min_absorb1\<close>)
  with 1 show ?thesis
    by (auto simp: HttpServer_notifyPackageReceived_def x Buffer_getBuffer_def len codec_def)
qed

text \<open>The request arrives in an idle connection: the region holds it, followed by zeros only.\<close>

lemma rep_other:
  assumes "own_step m b m' b'" and "m_pBegin c = Null \<or> m_pBegin c \<noteq> m_pBegin b" and "Buffer_rep m c xs k"
  shows "Buffer_rep m' c xs k"
  using own_step_rep [OF assms(1) _ assms(3)] assms(2,3) by (auto simp: Buffer_rep_def)

lemma splice_zero:
  assumes "L = 0 \<or> 1024 \<le> L" and "0 < length msg" and "length msg \<le> 1024"
  shows "splice (grown (length msg) 0 (replicate L NUL)) 0 msg = msg @ replicate (max 1024 L - length msg) NUL"
proof -
  have "(length msg + 1023) div 1024 = 1" by (rule div_nat_eqI) (use assms(2,3) in \<open>simp_all add: Suc_le_eq\<close>)
  then have "up1024 (length msg) = 1024" by (simp add: up1024_def)
  with assms show ?thesis by (auto simp: grown_def splice_def max_def)
qed

lemma request_arrives:
  assumes va: "alloc_ok (valloc os)" and i: "idle s c x L" and ob: "Buffer_rep (memory s) (cc_outBuf x) ys 0"
    and msg: "0 < length msg" "length msg \<le> 1024" and buf: "length msg \<le> length buf" "take (length msg) buf = msg"
  shows "\<exists>b m' j. ClientContext_appendToBuffer (valloc os) (memory s) x buf (word_of_nat (length msg)) = Some (x\<lparr>cc_inBuf := b\<rparr>, m')
     \<and> Buffer_rep m' b (msg @ replicate j NUL) (length msg) \<and> length msg + j = max 1024 L
     \<and> Buffer_rep m' (cc_outBuf x) ys 0 \<and> m_pBegin b \<noteq> m_pBegin (cc_outBuf x)"
proof -
  let ?n = "word_of_nat (length msg) :: u32"
  define j where "j = max 1024 L - length msg"
  have n: "unat ?n = length msg" using msg by (simp add: unat_word_of_nat)
  have ib: "Buffer_rep (memory s) (cc_inBuf x) (replicate L NUL) 0" using i by (simp add: idle_def)
  have L: "L = 0 \<or> 1024 \<le> L" using i by (auto simp: idle_def)
  have ld: "load_n (memory s) (Lit buf) 0 (unat ?n) = Some msg" using buf by (simp add: n load_n_Lit)
  have "Lit buf \<noteq> m_pBegin (cc_inBuf x)" using Buffer_rep_block(5) [OF ib] by auto
  with Buffer_write_ok [OF va ib _ _ ld] msg obtain b m1 where
    1: "Buffer_write (valloc os) (memory s) (cc_inBuf x) (Lit buf) 0 ?n = Some (?n, b, m1)"
      "Buffer_rep m1 b (msg @ replicate j NUL) (length msg)" "own_step (memory s) (cc_inBuf x) m1 b"
    using n by (auto simp: splice_zero [OF L msg] fits_def j_def)
  have j: "length msg + j = max 1024 L" using msg by (auto simp: j_def)
  have ob': "Buffer_rep m1 (cc_outBuf x) ys 0" using rep_other [OF 1(3) _ ob] i by (auto simp: idle_def)
  moreover have "m_pBegin b \<noteq> m_pBegin (cc_outBuf x)"
    using Buffer_rep_block(5) [OF 1(2)] Buffer_rep_block(5) [OF ob] 1(3) msg(1) i by (auto simp: idle_def own_step_def)
  ultimately show ?thesis using 1(1,2) j n buf(1) by (auto simp: ClientContext_appendToBuffer_def)
qed

text \<open>The request is handled: the reply is sent and the next receive is posted.\<close>

lemma handleRecv_reply:
  assumes va: "alloc_ok (valloc os)" and i: "idle s c x L" and msg: "length msg \<le> 512" "decode_spec Map.empty msg = Reply"
    and buf: "length msg \<le> length (m_recvBuf (m_recvIoCtx x))" "take (length msg) (m_recvBuf (m_recvIoCtx x)) = msg"
    and sent: "accepted os (trace s) (Sys_WSASend (cc_socket x) reply_text c)"
    and recv: "accepted os (trace s @ [Sys_WSASend (cc_socket x) reply_text c]) (Sys_WSARecv (cc_socket x) IO_BUF_SIZE c)"
  shows "\<exists>s1 x0 m0 x1 s2 L'. 1024 \<le> L' \<and> s1 = set_client c x0 (s\<lparr>memory := m0\<rparr>) \<and> (\<exists>b. x0 = x\<lparr>cc_inBuf := b\<rparr>)
     \<and> replied c x0 (replicate L' NUL) s1 x1 s2
     \<and> handleRecv os HttpServer_notifyPackageReceived c c (word_of_nat (length msg)) s = Some (True,
         set_client c (x1\<lparr>m_recvIoCtx := RecvIoContext_resetBuffer (m_recvIoCtx x1)\<rparr>)
           (s2\<lparr>trace := trace s2 @ [Sys_WSARecv (cc_socket x) IO_BUF_SIZE c], kernel_io := kernel_io s2 @ [Ov_recv c]\<rparr>))"
proof -
  have x: "client s c = Some x" "cc_socket x \<noteq> INVALID_SOCKET" using i by (auto simp: idle_def)
  obtain ys where ob: "Buffer_rep (memory s) (cc_outBuf x) ys 0" using i by (auto simp: idle_def)
  have "0 < length msg" using decode_Reply_nonempty [OF msg(2)] by simp
  from request_arrives [OF va i ob this _ buf] msg(1) obtain b m0 j where
    1: "ClientContext_appendToBuffer (valloc os) (memory s) x (m_recvBuf (m_recvIoCtx x)) (word_of_nat (length msg)) = Some (x\<lparr>cc_inBuf := b\<rparr>, m0)"
      "Buffer_rep m0 b (msg @ replicate j NUL) (length msg)" "length msg \<le> j" "1024 \<le> length msg + j"
      "Buffer_rep m0 (cc_outBuf x) ys 0" "m_pBegin b \<noteq> m_pBegin (cc_outBuf x)" by fastforce
  let ?x = "x\<lparr>cc_inBuf := b\<rparr>"
  let ?s = "set_client c ?x (s\<lparr>memory := m0\<rparr>)"
  have "client ?s c = Some ?x" using client_SomeD [OF x(1)] by (simp add: client_def set_client_def)
  with notify_reply [OF va, of ?s c ?x msg j ys] 1 x(2) msg(2) sent obtain x1 s2 where
    2: "HttpServer_notifyPackageReceived os c ?s = Some s2" "replied c ?x (replicate (length msg + j) NUL) ?s x1 s2"
    by (auto simp: set_client_def)
  have 3: "client s2 c = Some x1" "cc_socket x1 = cc_socket x" "trace s2 = trace s @ [Sys_WSASend (cc_socket x) reply_text c]"
    using 2(2) client_SomeD [OF x(1)] by (auto simp: replied_def client_def set_client_def)
  have "handleRecv os HttpServer_notifyPackageReceived c c (word_of_nat (length msg)) s = Some (True,
         set_client c (x1\<lparr>m_recvIoCtx := RecvIoContext_resetBuffer (m_recvIoCtx x1)\<rparr>)
           (s2\<lparr>trace := trace s2 @ [Sys_WSARecv (cc_socket x) IO_BUF_SIZE c], kernel_io := kernel_io s2 @ [Ov_recv c]\<rparr>))"
    using x 1(1) 2(1) 3 recv
    by (auto simp: handleRecv_def post_recv_or_close_def postRecv_def call_def accepted_def case_prod_unfold set_client_def Let_def)
  with 1(4) 2(2) show ?thesis by blast
qed

text \<open>The whole output was sent and nothing is queued: the buffer is emptied and the request's count is given back.\<close>

lemma handleSend_last:
  assumes va: "alloc_ok (valloc os)" and x: "client s c = Some x" and q: "m_outBufQueue x = []" and n: "m_nPendingIoCnt x = 2"
    and ob: "Buffer_rep (memory s) (cc_outBuf x) qs k" and k: "0 < k"
  shows "\<exists>b m. handleSend os c c (word_of_nat k) s = Some (False,
       set_client c (x\<lparr>cc_outBuf := b, m_nPendingIoCnt := 1\<rparr>) (s\<lparr>memory := m\<rparr>))
     \<and> (\<exists>ys. Buffer_rep m b ys 0) \<and> own_step (memory s) (cc_outBuf x) m b"
proof -
  have len: "Buffer_getBufferLen (cc_outBuf x) = word_of_nat k"
    using Buffer_rep_len [OF ob] by (metis of_nat_unat ucast_id)
  from Buffer_remove_all [OF ob k, of "valloc os"] obtain m1 where
    1: "Buffer_remove (valloc os) (memory s) (cc_outBuf x) (word_of_nat k) = Some (word_of_nat k, (cc_outBuf x)\<lparr>m_pEnd := 0\<rparr>, m1)"
      "Buffer_rep m1 ((cc_outBuf x)\<lparr>m_pEnd := 0\<rparr>) (shifted k qs) 0" "own_step (memory s) (cc_outBuf x) m1 ((cc_outBuf x)\<lparr>m_pEnd := 0\<rparr>)"
    by (auto simp: len)
  from Buffer_clear_ok [OF va 1(2)] obtain b m2 where
    2: "Buffer_clear (valloc os) m1 ((cc_outBuf x)\<lparr>m_pEnd := 0\<rparr>) = Some (b, m2)" "Buffer_rep m2 b (fitted 1024 0 (shifted k qs)) 0"
      "own_step m1 ((cc_outBuf x)\<lparr>m_pEnd := 0\<rparr>) m2 b" by blast
  have "Buffer_getBufferLen ((cc_outBuf x)\<lparr>m_pEnd := 0\<rparr>) = 0" "Buffer_getBufferLen b = 0"
    using Buffer_rep_len [OF 1(2)] Buffer_rep_len [OF 2(2)] by (simp_all add: unat_eq_0)
  then have "handleSend os c c (word_of_nat k) s = Some (False, set_client c (x\<lparr>cc_outBuf := b, m_nPendingIoCnt := 1\<rparr>) (s\<lparr>memory := m2\<rparr>))"
    using x 1(1) 2(1) q n client_SomeD [OF x]
    by (auto simp: handleSend_def next_output_def set_outBuf_def releaseClientContext_def exitIoLoop_def client_def set_client_def Let_def)
  with 2(2) own_step_trans [OF 1(3) 2(3)] show ?thesis by blast
qed

text \<open>
  One exchange as the worker thread sees it: the receive completes with the request, later the send
  completes with all the bytes of the reply.
\<close>

definition exchange :: "os \<Rightarrow> nat \<Rightarrow> string \<Rightarrow> server \<Rightarrow> server option" where
  "exchange os c msg s = do {
     (_, s) \<leftarrow> worker_round os HttpServer_notifyPackageReceived
       \<lparr>cq_ret = True, cq_bytes = word_of_nat (length msg), cq_key = Key_client c, cq_ov = Ov_recv c\<rparr> (deliver (Ov_recv c) msg s);
     (_, s) \<leftarrow> worker_round os HttpServer_notifyPackageReceived
       \<lparr>cq_ret = True, cq_bytes = word_of_nat (length reply_text), cq_key = Key_client c, cq_ov = Ov_send c\<rparr> (deliver (Ov_send c) [] s);
     Some s }"

fun exchanges :: "os \<Rightarrow> nat \<Rightarrow> string list \<Rightarrow> server \<Rightarrow> server option" where
  "exchanges os c [] s = Some s"
| "exchanges os c (msg # msgs) s = do { s \<leftarrow> exchange os c msg s; exchanges os c msgs s }"

definition waiting :: "server \<Rightarrow> nat \<Rightarrow> SOCKET \<Rightarrow> bool" where
  "waiting s c sock \<longleftrightarrow> (\<exists>x L. idle s c x L \<and> cc_socket x = sock)
     \<and> Ov_recv c \<in> set (kernel_io s) \<and> Ov_send c \<notin> set (kernel_io s)"

definition takes_all :: "os \<Rightarrow> bool" where
  "takes_all os \<longleftrightarrow> (\<forall>tr sock bytes n c. accepted os tr (Sys_WSASend sock bytes c) \<and> accepted os tr (Sys_WSARecv sock n c))"

lemma idle_deliver:
  assumes "idle s c x L"
  shows "\<exists>x'. idle (deliver (Ov_recv c) msg s) c x' L \<and> cc_socket x' = cc_socket x \<and> length msg \<le> length (m_recvBuf (m_recvIoCtx x'))
     \<and> take (length msg) (m_recvBuf (m_recvIoCtx x')) = msg \<and> m_postType (m_recvIoCtx x') = RECV_EVENT"
proof -
  let ?x = "x\<lparr>m_recvIoCtx := (m_recvIoCtx x)\<lparr>m_recvBuf := splice (m_recvBuf (m_recvIoCtx x)) 0 msg\<rparr>\<rparr>"
  have x: "client s c = Some x" using assms by (simp add: idle_def)
  then have d: "deliver (Ov_recv c) msg s = set_client c ?x (s\<lparr>kernel_io := remove1 (Ov_recv c) (kernel_io s)\<rparr>)"
    by (simp add: deliver_def client_def split: if_splits)
  have "idle (deliver (Ov_recv c) msg s) c ?x L"
    using assms client_SomeD [OF x] unfolding d idle_def by (simp add: client_def set_client_def)
  moreover have "m_postType (m_recvIoCtx ?x) = RECV_EVENT" using assms by (simp add: idle_def)
  ultimately show ?thesis by (intro exI [of _ ?x]) (simp add: splice_def)
qed

lemma post_type_of_client:
  "client s c = Some x \<Longrightarrow> post_type_of s (Ov_recv c) = Some (m_postType (m_recvIoCtx x))"
  "client s c = Some x \<Longrightarrow> post_type_of s (Ov_send c) = Some (m_postType (m_sendIoCtx x))"
  by (simp_all add: post_type_of_def)

lemma exchange_ok:
  assumes va: "alloc_ok (valloc os)" and os: "takes_all os" and w: "waiting s c sock"
    and msg: "length msg \<le> 512" "decode_spec Map.empty msg = Reply"
  shows "\<exists>s'. exchange os c msg s = Some s' \<and> waiting s' c sock
     \<and> trace s' = trace s @ [Sys_WSASend sock reply_text c, Sys_WSARecv sock IO_BUF_SIZE c]"
proof -
  let ?s = "deliver (Ov_recv c) msg s"
  from w obtain x L where "idle s c x L" "cc_socket x = sock" by (auto simp: waiting_def)
  with idle_deliver [of s c x L msg] obtain x where i: "idle ?s c x L" "cc_socket x = sock" "length msg \<le> length (m_recvBuf (m_recvIoCtx x))"
    "take (length msg) (m_recvBuf (m_recvIoCtx x)) = msg" "m_postType (m_recvIoCtx x) = RECV_EVENT" by metis
  have tr: "trace ?s = trace s" by (auto simp: deliver_def set_client_def Let_def split: option.splits)
  have nz: "(word_of_nat (length msg) :: u32) \<noteq> 0"
    using msg decode_Reply_nonempty [OF msg(2)] by (auto simp: word_of_nat_eq_0_iff dest!: dvd_imp_le)
  from handleRecv_reply [OF va i(1) msg i(3,4)] os i(2) obtain s1 x0 m0 x1 s2 L' b where
    1: "1024 \<le> L'" "s1 = set_client c x0 (?s\<lparr>memory := m0\<rparr>)" "x0 = x\<lparr>cc_inBuf := b\<rparr>" "replied c x0 (replicate L' NUL) s1 x1 s2"
      "handleRecv os HttpServer_notifyPackageReceived c c (word_of_nat (length msg)) ?s = Some (True,
         set_client c (x1\<lparr>m_recvIoCtx := RecvIoContext_resetBuffer (m_recvIoCtx x1)\<rparr>)
           (s2\<lparr>trace := trace s2 @ [Sys_WSARecv sock IO_BUF_SIZE c], kernel_io := kernel_io s2 @ [Ov_recv c]\<rparr>))"
    unfolding takes_all_def by blast
  define x3 where "x3 = x1\<lparr>m_recvIoCtx := RecvIoContext_resetBuffer (m_recvIoCtx x1)\<rparr>"
  define s3 where "s3 = set_client c x3 (s2\<lparr>trace := trace s2 @ [Sys_WSARecv sock IO_BUF_SIZE c], kernel_io := kernel_io s2 @ [Ov_recv c]\<rparr>)"
  let ?t = "deliver (Ov_send c) [] s3"
  have c: "c < length (clients ?s)" "client ?s c = Some x" using i(1) client_SomeD by (auto simp: idle_def)
  have t: "client ?t c = Some x3" "memory ?t = memory s2" "trace ?t = trace s @ [Sys_WSASend sock reply_text c, Sys_WSARecv sock IO_BUF_SIZE c]"
    "kernel_io ?t = remove1 (Ov_send c) (kernel_io ?s @ [Ov_send c, Ov_recv c])"
    using 1(2,3,4) c(1) tr i(2) by (auto simp: s3_def deliver_def replied_def client_def set_client_def)
  have k: "Ov_send c \<notin> set (kernel_io ?s)" using w notin_set_remove1
    by (fastforce simp: waiting_def deliver_def set_client_def Let_def split: option.splits)
  have 3: "m_outBufQueue x3 = []" "m_nPendingIoCnt x3 = 2" "cc_socket x3 = sock" "m_postType (m_recvIoCtx x3) = RECV_EVENT"
    "m_postType (m_sendIoCtx x3) = SEND_EVENT"
    using 1(3,4) i by (auto simp: x3_def replied_def idle_def RecvIoContext_resetBuffer_def)
  from 1(4) obtain qs where bufs: "Buffer_rep (memory ?t) (cc_outBuf x3) qs (length reply_text)"
    "Buffer_rep (memory ?t) (cc_inBuf x3) (replicate L' NUL) 0" "m_pBegin (cc_inBuf x3) \<noteq> m_pBegin (cc_outBuf x3)"
    by (auto simp: replied_def t(2) x3_def)
  from handleSend_last [OF va t(1) 3(1,2) bufs(1)] obtain b' m' ys where
    4: "handleSend os c c (word_of_nat (length reply_text)) ?t = Some (False, set_client c (x3\<lparr>cc_outBuf := b', m_nPendingIoCnt := 1\<rparr>) (?t\<lparr>memory := m'\<rparr>))"
      "Buffer_rep m' b' ys 0" "own_step (memory ?t) (cc_outBuf x3) m' b'" by (auto simp: length_reply_text)
  let ?x = "x3\<lparr>cc_outBuf := b', m_nPendingIoCnt := 1\<rparr>" and ?u = "set_client c (x3\<lparr>cc_outBuf := b', m_nPendingIoCnt := 1\<rparr>) (?t\<lparr>memory := m'\<rparr>)"
  have "exchange os c msg s = Some ?u"
    using 1(5) 4(1) nz post_type_of_client [OF c(2)] post_type_of_client [OF t(1)] 3(4,5) i(5)
    by (simp add: exchange_def worker_round_def s3_def x3_def length_reply_text)
  moreover have "Buffer_rep m' (cc_inBuf x3) (replicate L' NUL) 0" using own_step_rep [OF 4(3) bufs(3,2)] .
  moreover have "m_pBegin (cc_inBuf x3) \<noteq> m_pBegin b'"
    using Buffer_rep_block(5) [OF bufs(2)] 4(3) bufs(3) 1(1) by (auto simp: own_step_def)
  moreover have "client ?u c = Some ?x" using client_SomeD [OF t(1)] by (simp add: client_def set_client_def)
  ultimately show ?thesis
    using 4(2) 3 t(3,4) k 1(1) i(1,2) by (auto simp: waiting_def idle_def remove1_append set_client_def)
qed

section \<open>The properties\<close>

text \<open>
  C1. Keep-alive: over one connection the HTTP server answers every one of any number of requests.
  From a connection that waits for data, when each of the texts received is a request that the
  specification of decoding answers, of at most 512 bytes and each in one receive, and the system
  accepts the sends and receives, the worker thread handles all the completions without fault; the
  calls it makes are, for each request, one \<^verbatim>\<open>WSASend\<close> of exactly the reply and one \<^verbatim>\<open>WSARecv\<close> on
  that socket, and the connection waits for data again.
\<close>

theorem keep_alive:
  assumes "alloc_ok (valloc os)" and "takes_all os" and "waiting s c sock"
    and "\<forall>msg \<in> set msgs. length msg \<le> 512 \<and> decode_spec Map.empty msg = Reply"
  shows "\<exists>s'. exchanges os c msgs s = Some s' \<and> waiting s' c sock
     \<and> trace s' = trace s @ concat (map (\<lambda>msg. [Sys_WSASend sock reply_text c, Sys_WSARecv sock IO_BUF_SIZE c]) msgs)"
  using assms(3,4)
proof (induction msgs arbitrary: s)
  case (Cons msg msgs)
  from exchange_ok [OF assms(1,2) Cons.prems(1), of msg] Cons.prems(2) obtain s1 where
    1: "exchange os c msg s = Some s1" "waiting s1 c sock"
      "trace s1 = trace s @ [Sys_WSASend sock reply_text c, Sys_WSARecv sock IO_BUF_SIZE c]" by auto
  with Cons.IH [OF 1(2)] Cons.prems(2) show ?case by auto
qed simp

lemma one_client_idle: "idle one_client 0 ((ClientContext_ctor 0 7)\<lparr>m_nPendingIoCnt := 1\<rparr>) 0"
  using Buffer_ctor_rep [of "[]"]
  by (auto simp: idle_def one_client_def client_def ClientContext_ctor_def IocpServer_ctor_def call_def
      INVALID_SOCKET_def RecvIoContext_ctor_def IoContext_ctor_def Buffer_ctor_def)

lemma one_client_waiting: "waiting one_client 0 7"
proof -
  have "cc_socket ((ClientContext_ctor 0 7)\<lparr>m_nPendingIoCnt := 1\<rparr>) = 7" by (simp add: ClientContext_ctor_def)
  with one_client_idle show ?thesis by (auto simp: waiting_def one_client_def)
qed

lemma good_os_takes_all: "takes_all good_os"
  by (simp add: takes_all_def accepted_def SOCKET_ERROR_def)

theorem keep_alive_witness:
  "\<exists>s'. exchanges good_os 0 [sample_get, sample_get] one_client = Some s' \<and> waiting s' 0 7"
proof -
  have "length sample_get \<le> 512" by (simp add: sample_get_def CRLF_def)
  with keep_alive [of good_os one_client 0 7 "[sample_get, sample_get]"] one_client_waiting good_os_takes_all decode_sample_get
  show ?thesis by auto
qed

text \<open>A released region stays released.\<close>

definition freed :: "mem \<Rightarrow> nat \<Rightarrow> bool" where
  "freed m a \<longleftrightarrow> a < length m \<and> m ! a = None"

lemma freed_store_n: "store_n m d di ds = Some m' \<Longrightarrow> freed m a \<Longrightarrow> freed m' a"
  by (cases "(m, d, di, ds)" rule: store_n.cases) (auto simp: freed_def nth_list_update split: if_splits option.splits)

lemma freed_move_memory: "move_memory m d di src si n = Some m' \<Longrightarrow> freed m a \<Longrightarrow> freed m' a"
  by (auto simp: move_memory_def bind_eq_Some_conv intro: freed_store_n)

lemma freed_free: "freed m a \<Longrightarrow> freed (virtual_free m p) a"
  by (cases p) (simp_all add: freed_def, metis nth_list_update_eq nth_list_update_neq)

lemma freed_alloc: "freed m a \<Longrightarrow> freed (snd (virtual_alloc va m n)) a"
  by (auto simp: freed_def virtual_alloc_def nth_append)

lemma freed_Buffer_move: "Buffer_move va m b n = Some (r, b', m') \<Longrightarrow> freed m a \<Longrightarrow> freed m' a"
  using freed_alloc [of m a va n]
  by (auto simp: Buffer_move_def Let_def case_prod_unfold bind_eq_Some_conv dest: freed_move_memory intro: freed_free split: if_splits)

lemma freed_clear: "Buffer_clear va m b = Some (b', m') \<Longrightarrow> freed m a \<Longrightarrow> freed m' a"
  by (auto simp: Buffer_clear_def Buffer_deallocateBuffer_def Let_def bind_eq_Some_conv dest: freed_Buffer_move split: if_splits)

lemma freed_remove: "Buffer_remove va m b n = Some (r, b', m') \<Longrightarrow> freed m a \<Longrightarrow> freed m' a"
  by (auto simp: Buffer_remove_def Buffer_deallocateBuffer_def Let_def bind_eq_Some_conv
      dest: freed_Buffer_move freed_move_memory split: if_splits)

lemma copy_freed:
  assumes "freed m a" and "m_pBegin q = Heap a" and "Buffer_getBufferLen q \<noteq> 0"
  shows "Buffer_copy va m b q = None"
proof -
  have "move_memory m' p 0 (Heap a) 0 (unat (Buffer_getBufferLen q)) = None" if "freed m' a" for m' p
    using that assms(3) by (simp add: freed_def move_memory_def load_n_def unat_eq_0)
  moreover have "freed m2 a" if "Buffer_clear va m b = Some (b1, m1)" "Buffer_reallocateBuffer va m1 b1 n = Some (r, b2, m2)" for b1 m1 n r b2 m2
    using freed_clear [OF that(1) assms(1)] that(2)
    by (auto simp: Buffer_reallocateBuffer_def dest: freed_Buffer_move split: if_splits)
  ultimately show ?thesis
    by (cases "Buffer_copy va m b q") (auto simp: Buffer_copy_def assms(2) Let_def bind_eq_Some_conv)
qed

text \<open>\<^verbatim>\<open>send\<close> with pending output: the buffer is queued and its memory is released.\<close>

lemma send_queued:
  assumes va: "alloc_ok (valloc os)" and x: "client s c = Some x" and ob: "Buffer_getBufferLen (cc_outBuf x) \<noteq> 0"
    and msg: "msg \<noteq> []" "length msg \<le> 2 ^ 30"
  shows "\<exists>sb m' a. send os c (Lit msg) 0 (word_of_nat (length msg)) s
       = Some (True, set_client c (x\<lparr>m_outBufQueue := m_outBufQueue x @ [sb]\<rparr>) (s\<lparr>memory := m'\<rparr>))
     \<and> m_pBegin sb = Heap a \<and> freed m' a \<and> Buffer_getBufferLen sb \<noteq> 0
     \<and> (\<forall>b xs k. Buffer_rep (memory s) b xs k \<longrightarrow> Buffer_rep m' b xs k)"
proof -
  let ?n = "word_of_nat (length msg) :: u32"
  obtain sb m1 zs where 1: "Buffer_write (valloc os) (memory s) Buffer_ctor (Lit msg) 0 ?n = Some (?n, sb, m1)"
    "Buffer_rep m1 sb zs (length msg)" "own_step (memory s) Buffer_ctor m1 sb" "zs = [] \<or> (\<exists>a \<ge> length (memory s). m_pBegin sb = Heap a \<and> a < length m1)"
    using sendBuf_ok [OF va msg(2), of "memory s"] by blast
  have "zs \<noteq> []" using Buffer_rep_block(3) [OF 1(2)] msg(1) by auto
  with 1(4) obtain a where a: "a \<ge> length (memory s)" "m_pBegin sb = Heap a" "a < length m1" by blast
  have "Buffer_rep (m1[a := None]) b xs k" if "Buffer_rep (memory s) b xs k" for b xs k
    using rep_other [OF 1(3) _ that] Buffer_rep_block(5) [OF that] a(1) by (auto simp: Buffer_ctor_def Buffer_rep_def split: base.splits)
  moreover have "send os c (Lit msg) 0 ?n s
       = Some (True, set_client c (x\<lparr>m_outBufQueue := m_outBufQueue x @ [sb]\<rparr>) (s\<lparr>memory := m1[a := None]\<rparr>))"
    using 1(1) ob x a(2) by (auto simp: send_def destroy_def Buffer_dtor_def client_def set_client_def Let_def split: if_splits)
  moreover have "Buffer_getBufferLen sb \<noteq> 0" using Buffer_rep_len [OF 1(2)] msg(1) by auto
  ultimately show ?thesis using a(2,3) by (fastforce simp: freed_def)
qed

text \<open>
  C15. A message that has to be queued is lost, and the server reads freed memory: when the output
  buffer of a connection is not empty, \<^verbatim>\<open>send\<close> reports success, but the memory of the buffer it queues
  is released as it returns; when the pending output has been sent, \<^verbatim>\<open>handleSend\<close> takes the queued
  buffer and copies from that memory, which is an invalid access.
\<close>

theorem queued_output_faults:
  assumes "alloc_ok (valloc os)" and "client s c = Some x" and "Buffer_rep (memory s) (cc_outBuf x) qs k" and "0 < k"
    and "m_outBufQueue x = []" and "msg \<noteq> []" and "length msg \<le> 2 ^ 30"
  shows "\<exists>s1. send os c (Lit msg) 0 (word_of_nat (length msg)) s = Some (True, s1)
     \<and> handleSend os c c (word_of_nat k) s1 = None"
proof -
  have len: "Buffer_getBufferLen (cc_outBuf x) = word_of_nat k" "Buffer_getBufferLen (cc_outBuf x) \<noteq> 0"
    using Buffer_rep_len [OF assms(3)] assms(4) by (metis of_nat_unat ucast_id, auto)
  obtain sb m a where 1: "send os c (Lit msg) 0 (word_of_nat (length msg)) s = Some (True, set_client c (x\<lparr>m_outBufQueue := [sb]\<rparr>) (s\<lparr>memory := m\<rparr>))"
    "m_pBegin sb = Heap a" "freed m a" "Buffer_getBufferLen sb \<noteq> 0" "Buffer_rep m (cc_outBuf x) qs k"
    using send_queued [OF assms(1,2) len(2) assms(6,7)] assms(3,5) by auto
  obtain m2 where 2: "Buffer_remove (valloc os) m (cc_outBuf x) (word_of_nat k) = Some (word_of_nat k, (cc_outBuf x)\<lparr>m_pEnd := 0\<rparr>, m2)"
    "Buffer_rep m2 ((cc_outBuf x)\<lparr>m_pEnd := 0\<rparr>) (shifted k qs) 0"
    using Buffer_remove_all [OF 1(5) assms(4), of "valloc os"] by (auto simp: len(1))
  obtain b m3 where 3: "Buffer_clear (valloc os) m2 ((cc_outBuf x)\<lparr>m_pEnd := 0\<rparr>) = Some (b, m3)"
    using Buffer_clear_ok [OF assms(1) 2(2)] by blast
  have "Buffer_copy (valloc os) m3 b sb = None"
    using freed_clear [OF 3 freed_remove [OF 2(1) 1(3)]] 1(2,4) by (rule copy_freed)
  moreover have "Buffer_getBufferLen ((cc_outBuf x)\<lparr>m_pEnd := 0\<rparr>) = 0"
    using Buffer_rep_len [OF 2(2)] by (simp add: unat_eq_0)
  ultimately have "next_output os c (word_of_nat k) (set_client c (x\<lparr>m_outBufQueue := [sb]\<rparr>) (s\<lparr>memory := m\<rparr>)) = None"
    using 2(1) 3 client_SomeD [OF assms(2)] by (auto simp: next_output_def set_outBuf_def client_def set_client_def)
  with 1(1) show ?thesis by (auto simp: handleSend_def)
qed

theorem queued_output_faults_witness:
  "\<exists>s1. send good_os 0 (Lit ''hi'') 0 (word_of_nat (length ''hi''))
       (one_client\<lparr>memory := [Some ''abc''], clients := [(ClientContext_ctor 0 7)\<lparr>m_nPendingIoCnt := 2,
          cc_outBuf := \<lparr>m_pBegin = Heap 0, m_pEnd = 3, m_nSize = 3\<rparr>\<rparr>]\<rparr>) = Some (True, s1)
     \<and> handleSend good_os 0 0 (word_of_nat 3) s1 = None"
  by (rule queued_output_faults) (auto simp: client_def Buffer_rep_def ClientContext_ctor_def)

section \<open>Rejected requests\<close>

text \<open>The calls that end a connection succeed.\<close>

definition closes_all :: "os \<Rightarrow> bool" where
  "closes_all os \<longleftrightarrow> (\<forall>tr sock. fst (sys os tr (Sys_linger sock True 0)) \<noteq> SOCKET_ERROR
     \<and> fst (sys os tr (Sys_CancelIoEx sock Ov_null)) \<noteq> 0)"

text \<open>The calls that close the socket of a connection.\<close>

definition closing_calls :: "SOCKET \<Rightarrow> oscall list" where
  "closing_calls sock = (if sock = INVALID_SOCKET then [] else [Sys_linger sock True 0, Sys_CancelIoEx sock Ov_null, Sys_closesocket sock])"

text \<open>Closing and releasing a connection on which \<open>n\<close> requests are counted.\<close>

lemma close_and_release_ok:
  assumes "closes_all os" and "client s c = Some x"
  shows "\<exists>n. close_and_release os c s = Some ((if sint (m_nPendingIoCnt x - 1) \<le> 0 then removeClient c else id)
     (set_client c (x\<lparr>cc_socket := INVALID_SOCKET, m_nPendingIoCnt := m_nPendingIoCnt x - 1\<rparr>) 
       (s\<lparr>trace := trace s @ closing_calls (cc_socket x), m_nConnClientCnt := n\<rparr>)))"
proof (cases "cc_socket x = INVALID_SOCKET")
  case True
  then show ?thesis
    using client_SomeD [OF assms(2)]
    by (intro exI [of _ "m_nConnClientCnt s"])
       (simp add: closing_calls_def close_and_release_def CloseClient_def releaseClientContext_def exitIoLoop_def client_def set_client_def Let_def)
next
  case False
  then show ?thesis
    using client_SomeD [OF assms(2)] assms(1)
    by (intro exI [of _ "m_nConnClientCnt s - 1"])
       (simp add: closing_calls_def close_and_release_def CloseClient_def releaseClientContext_def exitIoLoop_def client_def set_client_def
          Net_setLinger_def call_def closes_all_def case_prod_unfold Let_def)
qed

text \<open>What a rejected request leaves: the socket is closed, the empty reply is still with the kernel.\<close>

definition rejected :: "nat \<Rightarrow> server \<Rightarrow> server \<Rightarrow> bool" where
  "rejected c s s' \<longleftrightarrow> (\<exists>x. client s' c = Some x \<and> cc_socket x = INVALID_SOCKET \<and> m_nPendingIoCnt x = 1)
     \<and> kernel_io s' = kernel_io s @ [Ov_send c] \<and> m_connectedClientList s' = m_connectedClientList s
     \<and> m_freeClientList s' = m_freeClientList s"

lemma notify_reject:
  assumes va: "alloc_ok (valloc os)" and os: "takes_all os" "closes_all os"
    and x: "client s c = Some x" and sock: "cc_socket x \<noteq> INVALID_SOCKET" and n: "m_nPendingIoCnt x = 1"
    and ib: "Buffer_rep (memory s) (cc_inBuf x) xs k" and ob: "Buffer_rep (memory s) (cc_outBuf x) ys 0"
    and ne: "m_pBegin (cc_inBuf x) \<noteq> m_pBegin (cc_outBuf x)" and dec: "decode_spec Map.empty (take k xs) = Reject st"
  shows "\<exists>s'. HttpServer_notifyPackageReceived os c s = Some s' \<and> rejected c s s'"
proof -
  note xs = Buffer_rep_block [OF ib]
  have len: "Buffer_getBufferLen (cc_inBuf x) = word_of_nat k"
    using Buffer_rep_len [OF ib] by (metis of_nat_unat ucast_id)
  define codec where "codec = HttpCodec_ctor 0 0 (m_pBegin (cc_inBuf x)) 0 (word_of_nat k)"
  have codec: "region_codec (m_pBegin (cc_inBuf x)) k codec" "m_headers (m_req codec) = Map.empty" "m_outBuf codec = []"
    by (simp_all add: codec_def HttpCodec_ctor_def region_codec_def)
  obtain ret codec' where 1: "HttpCodec_tryDecode (memory s) codec = Some (ret, codec')" "ret = -1" "m_outBuf codec' = []"
    using decode_region [OF xs(1,3,4) codec(1)] dec codec(2,3) by (auto simp: implements_def)
  have k0: "0 < k" using dec by (cases k) (auto simp: decode_spec_def)
  obtain b m1 w where 2: "send os c (Lit []) 0 (word_of_nat 0) s = Some (True,
       set_client c (x\<lparr>m_nPendingIoCnt := m_nPendingIoCnt x + 1, cc_outBuf := b, m_sendIoCtx := w\<rparr>)
         (s\<lparr>memory := m1, trace := trace s @ [Sys_WSASend (cc_socket x) [] c], kernel_io := kernel_io s @ [Ov_send c]\<rparr>))"
    "keeps (memory s) (cc_outBuf x) m1"
    using send_first [OF va x ob _ sock, of "[]"] os(1) by (auto simp: takes_all_def)
  have "Buffer_rep m1 (cc_inBuf x) xs k" using keeps_rep [OF 2(2) ne ib] .
  from Buffer_remove_all [OF this k0] obtain m2 where
    3: "Buffer_remove (valloc os) m1 (cc_inBuf x) (Buffer_getBufferLen (cc_inBuf x))
         = Some (Buffer_getBufferLen (cc_inBuf x), (cc_inBuf x)\<lparr>m_pEnd := 0\<rparr>, m2)" by blast
  let ?x = "x\<lparr>m_nPendingIoCnt := m_nPendingIoCnt x + 1, cc_outBuf := b, m_sendIoCtx := w, cc_inBuf := (cc_inBuf x)\<lparr>m_pEnd := 0\<rparr>\<rparr>"
  let ?s = "set_client c ?x (s\<lparr>trace := trace s @ [Sys_WSASend (cc_socket x) [] c], kernel_io := kernel_io s @ [Ov_send c], memory := m2\<rparr>)"
  have loop: "decode_loop os c codec s = close_and_release os c ?s"
    using 1 2(1) 3 client_SomeD [OF x]
    by (subst decode_loop.simps) (simp add: HttpCodec_responseMessage_def remove_inBuf_def client_def set_client_def Let_def)
  have "client ?s c = Some ?x" using client_SomeD [OF x] by (simp add: client_def set_client_def)
  from close_and_release_ok [OF os(2) this] obtain s' where "close_and_release os c ?s = Some s'" "rejected c s s'"
    using client_SomeD [OF x] n by (auto simp: rejected_def client_def set_client_def)
  with loop x show ?thesis
    by (auto simp: HttpServer_notifyPackageReceived_def Buffer_getBuffer_def len codec_def)
qed

lemma handleRecv_reject:
  assumes va: "alloc_ok (valloc os)" and os: "takes_all os" "closes_all os" and i: "idle s c x L"
    and msg: "length msg \<le> 512" "decode_spec Map.empty msg = Reject st"
    and buf: "length msg \<le> length (m_recvBuf (m_recvIoCtx x))" "take (length msg) (m_recvBuf (m_recvIoCtx x)) = msg"
    and c: "c \<in> set (m_connectedClientList s)"
  shows "\<exists>s' x'. handleRecv os HttpServer_notifyPackageReceived c c (word_of_nat (length msg)) s = Some (True, s')
     \<and> client s' c = Some x' \<and> cc_socket x' = INVALID_SOCKET \<and> m_nPendingIoCnt x' = 0
     \<and> m_freeClientList s' = m_freeClientList s @ [c] \<and> c \<notin> set (m_connectedClientList s') \<and> kernel_io s' = kernel_io s @ [Ov_send c]"
proof -
  have x: "client s c = Some x" "cc_socket x \<noteq> INVALID_SOCKET" "m_nPendingIoCnt x = 1" using i by (auto simp: idle_def)
  obtain ys where ob: "Buffer_rep (memory s) (cc_outBuf x) ys 0" using i by (auto simp: idle_def)
  have "0 < length msg" using msg(2) by (cases msg) (auto simp: decode_spec_def)
  from request_arrives [OF va i ob this _ buf] msg(1) obtain b m0 j where
    1: "ClientContext_appendToBuffer (valloc os) (memory s) x (m_recvBuf (m_recvIoCtx x)) (word_of_nat (length msg)) = Some (x\<lparr>cc_inBuf := b\<rparr>, m0)"
      "Buffer_rep m0 b (msg @ replicate j NUL) (length msg)" "Buffer_rep m0 (cc_outBuf x) ys 0" "m_pBegin b \<noteq> m_pBegin (cc_outBuf x)" by force
  let ?x = "x\<lparr>cc_inBuf := b\<rparr>"
  let ?s = "set_client c ?x (s\<lparr>memory := m0\<rparr>)"
  have "client ?s c = Some ?x" using client_SomeD [OF x(1)] by (simp add: client_def set_client_def)
  from notify_reject [OF va os this, of "msg @ replicate j NUL" "length msg" ys st] 1 x(2,3) msg(2) obtain s1 where
    2: "HttpServer_notifyPackageReceived os c ?s = Some s1" "rejected c ?s s1" by (auto simp: set_client_def)
  from 2(2) obtain x1 where x1: "client s1 c = Some x1" "cc_socket x1 = INVALID_SOCKET" "m_nPendingIoCnt x1 = 1"
    by (auto simp: rejected_def)
  let ?x1 = "x1\<lparr>m_recvIoCtx := RecvIoContext_resetBuffer (m_recvIoCtx x1)\<rparr>"
  let ?s1 = "set_client c ?x1 s1"
  have "client ?s1 c = Some ?x1" using client_SomeD [OF x1(1)] by (simp add: client_def set_client_def)
  from close_and_release_ok [OF os(2) this] obtain s2 x2 where
    3: "close_and_release os c ?s1 = Some s2" "client s2 c = Some x2" "cc_socket x2 = INVALID_SOCKET" "m_nPendingIoCnt x2 = 0"
      "m_freeClientList s2 = m_freeClientList s @ [c]" "c \<notin> set (m_connectedClientList s2)" "kernel_io s2 = kernel_io s @ [Ov_send c]"
    using client_SomeD [OF x1(1)] x1(2,3) 2(2) c by (auto simp: rejected_def removeClient_def client_def set_client_def)
  have "handleRecv os HttpServer_notifyPackageReceived c c (word_of_nat (length msg)) s = Some (True, s2)"
    using x(1) 1(1) 2(1) x1 3(1) by (simp add: handleRecv_def post_recv_or_close_def postRecv_def Let_def)
  with 3 show ?thesis by blast
qed

text \<open>
  C12. A rejected request breaks the reuse of its context. When the text received on a connection is a
  request that the specification of decoding rejects, the connection is released twice: its context
  is put on the free list while the kernel still holds its (empty) reply. When that send completes as
  cancelled, the pending count of the free context becomes -1, and the assertion of
  \<^verbatim>\<open>ClientContext::reset\<close> stops the server at the next connection that is given this context.
\<close>

theorem rejected_request_breaks_reuse:
  assumes "alloc_ok (valloc os)" and "takes_all os" and "closes_all os" and "waiting s c sock"
    and "length msg \<le> 512" and "decode_spec Map.empty msg = Reject st"
    and "c \<in> set (m_connectedClientList s)" and "m_freeClientList s = []"
  shows "\<exists>s1 s2. worker_round os HttpServer_notifyPackageReceived
        \<lparr>cq_ret = True, cq_bytes = word_of_nat (length msg), cq_key = Key_client c, cq_ov = Ov_recv c\<rparr> (deliver (Ov_recv c) msg s) = Some (True, s1)
     \<and> m_freeClientList s1 = [c] \<and> Ov_send c \<in> set (kernel_io s1)
     \<and> worker_round os HttpServer_notifyPackageReceived
        \<lparr>cq_ret = False, cq_bytes = 0, cq_key = Key_client c, cq_ov = Ov_send c\<rparr> (deliver (Ov_send c) [] s1) = Some (True, s2)
     \<and> allocateClientContext os newsock s2 = None"
proof -
  let ?s = "deliver (Ov_recv c) msg s"
  from assms(4) obtain x L where "idle s c x L" by (auto simp: waiting_def)
  with idle_deliver [of s c x L msg] obtain x where i: "idle ?s c x L" "length msg \<le> length (m_recvBuf (m_recvIoCtx x))"
    "take (length msg) (m_recvBuf (m_recvIoCtx x)) = msg" "m_postType (m_recvIoCtx x) = RECV_EVENT" by metis
  have lists: "m_connectedClientList ?s = m_connectedClientList s" "m_freeClientList ?s = []"
    using assms(8) by (auto simp: deliver_def set_client_def Let_def split: option.splits)
  have "msg \<noteq> []" using assms(6) by (auto simp: decode_spec_def)
  then have nz: "(word_of_nat (length msg) :: u32) \<noteq> 0"
    using assms(5) by (auto simp: word_of_nat_eq_0_iff dest!: dvd_imp_le)
  obtain s1 x1 where 1: "handleRecv os HttpServer_notifyPackageReceived c c (word_of_nat (length msg)) ?s = Some (True, s1)"
    "client s1 c = Some x1" "m_nPendingIoCnt x1 = 0" "m_freeClientList s1 = [c]" "c \<notin> set (m_connectedClientList s1)"
    "kernel_io s1 = kernel_io ?s @ [Ov_send c]"
    using handleRecv_reject [OF assms(1-3) i(1) assms(5,6) i(2,3)] assms(7) lists by auto
  let ?t = "deliver (Ov_send c) [] s1"
  have t: "client ?t c = Some x1" "m_freeClientList ?t = [c]" "c \<notin> set (m_connectedClientList ?t)" "c < length (clients ?t)"
    using 1(2,4,5) client_SomeD [OF 1(2)] by (auto simp: deliver_def client_def)
  from close_and_release_ok [OF assms(3) t(1)] obtain s2 x2 where
    2: "close_and_release os c ?t = Some s2" "client s2 c = Some x2" "m_nPendingIoCnt x2 = -1" "m_freeClientList s2 = [c]"
    using 1(3) t by (auto simp: removeClient_def client_def set_client_def)
  have "worker_round os HttpServer_notifyPackageReceived
      \<lparr>cq_ret = True, cq_bytes = word_of_nat (length msg), cq_key = Key_client c, cq_ov = Ov_recv c\<rparr> ?s = Some (True, s1)"
    using 1(1) nz i(1,4) post_type_of_client(1) [of ?s c x] by (simp add: worker_round_def idle_def)
  moreover have "worker_round os HttpServer_notifyPackageReceived
      \<lparr>cq_ret = False, cq_bytes = 0, cq_key = Key_client c, cq_ov = Ov_send c\<rparr> ?t = Some (True, s2)"
    using 2(1) by (simp add: worker_round_def handleClose_def)
  moreover have "allocateClientContext os newsock s2 = None"
    using 2(2-4) by (simp add: allocateClientContext_def ClientContext_reset_def client_def split: if_splits)
  ultimately show ?thesis using 1(4,6) by auto
qed

text \<open>A request with an unknown method.\<close>

definition sample_put :: string where
  "sample_put = ''PUT / HTTP/1.1'' @ CRLF @ ''Host: a'' @ CRLF @ CRLF"

lemma decode_sample_put: "decode_spec Map.empty sample_put = Reject (Some not_implemented)"
  by code_simp

theorem rejected_request_breaks_reuse_witness:
  "\<exists>s1 s2. worker_round good_os HttpServer_notifyPackageReceived
      \<lparr>cq_ret = True, cq_bytes = word_of_nat (length sample_put), cq_key = Key_client 0, cq_ov = Ov_recv 0\<rparr>
        (deliver (Ov_recv 0) sample_put one_client) = Some (True, s1)
     \<and> worker_round good_os HttpServer_notifyPackageReceived
        \<lparr>cq_ret = False, cq_bytes = 0, cq_key = Key_client 0, cq_ov = Ov_send 0\<rparr> (deliver (Ov_send 0) [] s1) = Some (True, s2)
     \<and> allocateClientContext good_os 9 s2 = None"
proof -
  have "length sample_put \<le> 512" by (simp add: sample_put_def CRLF_def)
  moreover have "closes_all good_os" by (simp add: closes_all_def SOCKET_ERROR_def)
  moreover have "0 \<in> set (m_connectedClientList one_client)" "m_freeClientList one_client = []"
    by (simp_all add: one_client_def IocpServer_ctor_def call_def)
  ultimately show ?thesis
    using rejected_request_breaks_reuse [of good_os one_client 0 7 sample_put _ 9] one_client_waiting good_os_takes_all decode_sample_put
    by (metis alloc_ok_win32 good_os_sel(2))
qed

section \<open>Requests that fill more than half of the region\<close>

















end
