(* ===== verification/Lifecycle.thy ===== *)
theory Lifecycle
  imports ServerInv
begin

text \<open>
  Starting and stopping the server, and the heartbeat timer: what a successful \<^verbatim>\<open>start\<close> has set up, that
  \<^verbatim>\<open>stop\<close> gives it all back, and which clients the timer tells to close.
\<close>

section \<open>Starting\<close>

text \<open>What \<^verbatim>\<open>postAccept\<close> and the loop around it leave alone.\<close>

definition same_setup :: "server \<Rightarrow> server \<Rightarrow> bool" where
  "same_setup s s' \<longleftrightarrow> m_pListenCtx s' = m_pListenCtx s \<and> m_lpfnAcceptEx s' = m_lpfnAcceptEx s
     \<and> m_nWorkerCnt s' = m_nWorkerCnt s \<and> m_hWorkerThreads s' = m_hWorkerThreads s \<and> m_hComPort s' = m_hComPort s
     \<and> set (trace s) \<subseteq> set (trace s')"

lemma same_setup_trans: "same_setup s s1 \<Longrightarrow> same_setup s1 s2 \<Longrightarrow> same_setup s s2"
  by (auto simp: same_setup_def)

lemma postAccept_success:
  assumes "postAccept os a s = Some (True, s')"
  shows "kernel_io s' = kernel_io s @ [Ov_accept a]" and "same_setup s s'" and "length (accepts s') = length (accepts s)"
    and "m_acceptIoCtxList s' = m_acceptIoCtxList s" and "accept_ctx s' b \<noteq> None \<longleftrightarrow> accept_ctx s b \<noteq> None"
  using assms
  by (auto simp: postAccept_def Net_WSASocket_def call_def set_accept_def same_setup_def accept_ctx_def Let_def
      bind_eq_Some_conv case_prod_unfold nth_list_update split: if_splits)

lemma init_accepts_success:
  assumes "init_accepts os n s = Some (True, s')"
  shows "m_acceptIoCtxList s' = m_acceptIoCtxList s @ [length (accepts s) ..< length (accepts s) + n]
     \<and> kernel_io s' = kernel_io s @ map Ov_accept [length (accepts s) ..< length (accepts s) + n]
     \<and> length (accepts s') = length (accepts s) + n \<and> same_setup s s'
     \<and> (\<forall>b. (accept_ctx s b \<noteq> None \<or> length (accepts s) \<le> b \<and> b < length (accepts s) + n) \<longrightarrow> accept_ctx s' b \<noteq> None)"
  using assms
proof (induction n arbitrary: s)
  case 0
  then show ?case by (auto simp: same_setup_def)
next
  case (Suc n)
  let ?a = "length (accepts s)"
  let ?s = "s\<lparr>accepts := accepts s @ [Some (AcceptIoContext_ctor 0)], m_acceptIoCtxList := m_acceptIoCtxList s @ [?a]\<rparr>"
  from Suc.prems obtain s1 where 1: "postAccept os ?a ?s = Some (True, s1)" "init_accepts os n s1 = Some (True, s')"
    by (auto simp: Let_def bind_eq_Some_conv split: if_splits)
  note p = postAccept_success [OF 1(1)]
  have live: "accept_ctx s1 b \<noteq> None" if "accept_ctx s b \<noteq> None \<or> b = ?a" for b
    using that p(5) [of b] by (auto simp: accept_ctx_def nth_append split: if_splits)
  have kept: "same_setup s s1" using p(2) by (auto simp: same_setup_def)
  have range: "?a # [Suc ?a ..< Suc ?a + n] = [?a ..< ?a + Suc n]" by (simp add: upt_conv_Cons)
  note IH = Suc.IH [OF 1(2)]
  have n: "length (accepts s1) = Suc ?a" using p(3) by simp
  have "m_acceptIoCtxList s' = m_acceptIoCtxList s @ ?a # [Suc ?a ..< Suc ?a + n]"
    "kernel_io s' = kernel_io s @ map Ov_accept (?a # [Suc ?a ..< Suc ?a + n])"
    using IH p(1,4) n by simp_all
  moreover have "same_setup s s'" using same_setup_trans [OF kept] IH by blast
  moreover have "accept_ctx s' b \<noteq> None" if b: "accept_ctx s b \<noteq> None \<or> ?a \<le> b \<and> b < ?a + Suc n" for b
  proof -
    have "accept_ctx s1 b \<noteq> None \<or> length (accepts s1) \<le> b \<and> b < length (accepts s1) + n"
      using b live [of b] n by (cases "b = ?a") auto
    with IH show ?thesis by blast
  qed
  ultimately show ?case using IH n unfolding range by simp
qed

lemma create_workers_success:
  "create_workers os n s = (True, s') \<Longrightarrow>
     m_nWorkerCnt s' = m_nWorkerCnt s + n \<and> length (m_hWorkerThreads s') = length (m_hWorkerThreads s) + n
     \<and> m_pListenCtx s' = m_pListenCtx s \<and> m_lpfnAcceptEx s' = m_lpfnAcceptEx s \<and> m_hComPort s' = m_hComPort s \<and> accepts s' = accepts s
     \<and> m_acceptIoCtxList s' = m_acceptIoCtxList s \<and> kernel_io s' = kernel_io s \<and> set (trace s) \<subseteq> set (trace s')"
  by (induction n arbitrary: s) (force simp: call_def case_prod_unfold Let_def split: if_splits)+

lemma createListenClient_success:
  assumes "createListenClient os port s = Some (True, s')"
  shows "\<exists>l. m_pListenCtx s' = Some l \<and> sin_port (lc_addr l) = htons port \<and> Sys_bind (lc_socket l) (lc_addr l) \<in> set (trace s')
     \<and> Sys_listen (lc_socket l) \<in> set (trace s') \<and> m_lpfnAcceptEx s' \<and> m_hComPort s' \<noteq> 0 \<and> accepts s' = accepts s
     \<and> m_acceptIoCtxList s' = m_acceptIoCtxList s \<and> kernel_io s' = kernel_io s
     \<and> m_nWorkerCnt s' = m_nWorkerCnt s \<and> m_hWorkerThreads s' = m_hWorkerThreads s"
  using assms
  by (auto simp: createListenClient_def ListenContext_ctor_def Net_WSASocket_def Net_bind_def Net_listen_def
      associateWithCompletionPort_def getAcceptExPtr_def getAcceptExSockaddrs_def call_def case_prod_unfold Let_def
      bind_eq_Some_conv split: if_splits)

text \<open>The set-up of a server that has started.\<close>

definition started :: "16 word \<Rightarrow> server \<Rightarrow> bool" where
  "started port s \<longleftrightarrow> m_acceptIoCtxList s = [0 ..< POST_ACCEPT_CNT] \<and> kernel_io s = map Ov_accept [0 ..< POST_ACCEPT_CNT]
     \<and> (\<forall>a < POST_ACCEPT_CNT. accept_ctx s a \<noteq> None) \<and> m_lpfnAcceptEx s \<and> m_nWorkerCnt s = length (m_hWorkerThreads s) \<and> m_hComPort s \<noteq> 0
     \<and> (\<exists>l. m_pListenCtx s = Some l \<and> sin_port (lc_addr l) = htons port
          \<and> Sys_bind (lc_socket l) (lc_addr l) \<in> set (trace s) \<and> Sys_listen (lc_socket l) \<in> set (trace s))"

lemma start_started:
  assumes "start os (IocpServer_ctor os port maxcnt w) = Some (True, s)"
  shows "started port s"
proof -
  let ?s0 = "IocpServer_ctor os port maxcnt w"
  have s0: "m_listenPort ?s0 = port" "accepts ?s0 = []" "m_acceptIoCtxList ?s0 = []" "kernel_io ?s0 = []"
    "m_nWorkerCnt ?s0 = 0" "m_hWorkerThreads ?s0 = []"
    by (simp_all add: IocpServer_ctor_def call_def case_prod_unfold Let_def)
  let ?s1 = "?s0\<lparr>trace := trace ?s0 @ [Sys_WSAStartup]\<rparr>"
  from assms s0(1) obtain s2 where
    2: "createListenClient os port ?s1 = Some (True, s2)" and "fst (createIocpWorker os s2)"
    and "init_accepts os POST_ACCEPT_CNT (snd (createIocpWorker os s2)) = Some (True, s)"
    by (auto simp: start_def Net_init_def call_def initAcceptIoContext_def case_prod_unfold Let_def bind_eq_Some_conv split: if_splits)
  then obtain s3 where 3: "createIocpWorker os s2 = (True, s3)" and 4: "init_accepts os POST_ACCEPT_CNT s3 = Some (True, s)"
    by (metis prod.collapse)
  from createListenClient_success [OF 2] s0 obtain l where
    l: "m_pListenCtx s2 = Some l" "sin_port (lc_addr l) = htons port" "Sys_bind (lc_socket l) (lc_addr l) \<in> set (trace s2)"
      "Sys_listen (lc_socket l) \<in> set (trace s2)" "m_lpfnAcceptEx s2" "m_hComPort s2 \<noteq> 0" "accepts s2 = []" "m_acceptIoCtxList s2 = []" "kernel_io s2 = []"
      "m_nWorkerCnt s2 = 0" "m_hWorkerThreads s2 = []" by auto
  have w: "m_nWorkerCnt s3 = length (m_hWorkerThreads s3)" "m_pListenCtx s3 = Some l" "m_lpfnAcceptEx s3" "m_hComPort s3 \<noteq> 0" "accepts s3 = []"
    "m_acceptIoCtxList s3 = []" "kernel_io s3 = []" "set (trace s2) \<subseteq> set (trace s3)"
    using create_workers_success [of os _ "s2\<lparr>trace := trace s2 @ [Sys_processor_count]\<rparr>" s3] 3 l
    by (auto simp: createIocpWorker_def call_def case_prod_unfold)
  from init_accepts_success [OF 4] w l show ?thesis by (auto simp: started_def same_setup_def)
qed

section \<open>Stopping\<close>

text \<open>The calls of a wait: \<open>k\<close> polls that find the request pending, each followed by a \<^verbatim>\<open>Sleep(1)\<close>, and one that does not.\<close>

definition naps :: "overlapped \<Rightarrow> nat \<Rightarrow> oscall list" where
  "naps ov k = concat (replicate k [Sys_has_completed ov, Sys_Sleep 1])"

definition polls :: "overlapped \<Rightarrow> nat \<Rightarrow> oscall list" where
  "polls ov k = naps ov k @ [Sys_has_completed ov]"

lemma naps_Suc: "naps ov (Suc k) = Sys_has_completed ov # Sys_Sleep 1 # naps ov k"
  by (simp add: naps_def)

lemma wait_completed_result:
  assumes "wait_completed os ov s = Some s'"
  shows "\<exists>k. s' = s\<lparr>trace := trace s @ polls ov k, kernel_io := removeAll ov (kernel_io s)\<rparr>
     \<and> fst (sys os (trace s @ naps ov k) (Sys_has_completed ov)) \<noteq> 0"
proof (rule wait_completed.raw_induct [where P = "\<lambda>os ov s s'. \<exists>k. s' = s\<lparr>trace := trace s @ polls ov k, kernel_io := removeAll ov (kernel_io s)\<rparr>
     \<and> fst (sys os (trace s @ naps ov k) (Sys_has_completed ov)) \<noteq> 0", OF _ assms], goal_cases)
  case (1 f os ov s s')
  show ?case
  proof (cases "fst (sys os (trace s) (Sys_has_completed ov)) = 0")
    case False
    then show ?thesis using 1(2) by (intro exI [of _ 0]) (simp add: call_def case_prod_unfold polls_def naps_def Let_def)
  next
    case True
    then have "f os ov (s\<lparr>trace := trace s @ [Sys_has_completed ov, Sys_Sleep 1]\<rparr>) = Some s'"
      using 1(2) by (simp add: call_def case_prod_unfold Let_def)
    from 1(1) [OF this] obtain k where
      "s' = s\<lparr>trace := trace s @ Sys_has_completed ov # Sys_Sleep 1 # polls ov k, kernel_io := removeAll ov (kernel_io s)\<rparr>"
      "fst (sys os (trace s @ Sys_has_completed ov # Sys_Sleep 1 # naps ov k) (Sys_has_completed ov)) \<noteq> 0" by auto
    then show ?thesis by (intro exI [of _ "Suc k"]) (simp add: polls_def naps_Suc)
  qed
qed

lemma wait_completed_ends:
  "fst (sys os (trace s @ naps ov k) (Sys_has_completed ov)) \<noteq> 0 \<Longrightarrow> wait_completed os ov s \<noteq> None"
proof (induction k arbitrary: s)
  case 0
  then show ?case by (simp add: wait_completed.simps call_def case_prod_unfold naps_def Let_def)
next
  case (Suc k)
  have "wait_completed os ov (s\<lparr>trace := trace s @ [Sys_has_completed ov, Sys_Sleep 1]\<rparr>) \<noteq> None"
    using Suc.prems by (intro Suc.IH) (simp add: naps_Suc)
  then show ?case by (subst wait_completed.simps) (simp add: call_def case_prod_unfold Let_def)
qed

text \<open>Every wait for a request ends; and no wait for an accept does.\<close>

definition gives_back :: "os \<Rightarrow> bool" where
  "gives_back os \<longleftrightarrow> (\<forall>tr ov. \<exists>k. fst (sys os (tr @ naps ov k) (Sys_has_completed ov)) \<noteq> 0)"

definition keeps_accepts :: "os \<Rightarrow> bool" where
  "keeps_accepts os \<longleftrightarrow> (\<forall>tr a. fst (sys os tr (Sys_has_completed (Ov_accept a))) = 0)"

text \<open>The calls of \<^verbatim>\<open>stop\<close> for the accept contexts with the sockets \<open>sock\<close>, and all its calls; \<open>k\<close> counts the polls.\<close>

definition accept_calls :: "(nat \<Rightarrow> SOCKET) \<Rightarrow> (nat \<Rightarrow> nat) \<Rightarrow> nat list \<Rightarrow> oscall list" where
  "accept_calls sock k as = concat (map (\<lambda>a. Sys_CancelIo (sock a) # Sys_closesocket (sock a) # polls (Ov_accept a) (k a)) as)"

definition stop_calls :: "server \<Rightarrow> SOCKET \<Rightarrow> (nat \<Rightarrow> SOCKET) \<Rightarrow> (nat \<Rightarrow> nat) \<Rightarrow> oscall list" where
  "stop_calls s listener sock k =
     Sys_SetEvent (m_hExitEvent s) # replicate (m_nWorkerCnt s) (Sys_post_status (m_hComPort s) 0 Key_exit Ov_null)
     @ Sys_wait_threads (m_hWorkerThreads s) # map Sys_CloseHandle (m_hWorkerThreads s) @ accept_calls sock k (m_acceptIoCtxList s)
     @ (if m_hExitEvent s = 0 then [] else [Sys_CloseHandle (m_hExitEvent s)]) @ [Sys_CloseHandle (m_hComPort s), Sys_closesocket listener]"

lemma stop_accepts_result:
  assumes "stop_accepts os as s = Some s'" and "distinct as" and "\<forall>a \<in> set as. map_option m_acceptSocket (accept_ctx s a) = Some (sock a)"
  shows "\<exists>k xs. s' = s\<lparr>trace := trace s @ accept_calls sock k as, accepts := xs,
      kernel_io := filter (\<lambda>ov. ov \<notin> Ov_accept ` set as) (kernel_io s)\<rparr> \<and> (\<forall>a \<in> set as. accept_ctx s' a = None)
     \<and> (\<forall>b. b \<notin> set as \<longrightarrow> accept_ctx s' b = accept_ctx s b)"
  using assms
proof (induction as arbitrary: s)
  case Nil
  then show ?case by (intro exI [of _ "\<lambda>_. 0"] exI [of _ "accepts s"]) (simp add: accept_calls_def)
next
  case (Cons a as)
  then obtain x where x: "accept_ctx s a = Some x" "m_acceptSocket x = sock a" by auto
  let ?ov = "Ov_accept a"
  from Cons.prems(1) x obtain t where
    "wait_completed os ?ov (s\<lparr>trace := trace s @ [Sys_CancelIo (sock a), Sys_closesocket (sock a)]\<rparr>) = Some t"
    and t: "stop_accepts os as (set_accept a None t) = Some s'"
    by (auto simp: call_def case_prod_unfold bind_eq_Some_conv)
  from wait_completed_result [OF this(1)] obtain j where
    j: "t = s\<lparr>trace := trace s @ Sys_CancelIo (sock a) # Sys_closesocket (sock a) # polls ?ov j, kernel_io := removeAll ?ov (kernel_io s)\<rparr>" by auto
  define s1 where "s1 = set_accept a None t"
  have ctx: "accept_ctx s1 b = (if b = a then None else accept_ctx s b)" for b
    using x by (auto simp: s1_def j set_accept_def accept_ctx_def split: if_splits)
  have "\<forall>b \<in> set as. map_option m_acceptSocket (accept_ctx s1 b) = Some (sock b)" using Cons.prems(2,3) ctx by auto
  from Cons.IH [OF _ _ this] t Cons.prems(2) obtain k xs where s': "s' = s1\<lparr>trace := trace s1 @ accept_calls sock k as, accepts := xs,
      kernel_io := filter (\<lambda>ov. ov \<notin> Ov_accept ` set as) (kernel_io s1)\<rparr>" "\<forall>a \<in> set as. accept_ctx s' a = None"
    "\<forall>b. b \<notin> set as \<longrightarrow> accept_ctx s' b = accept_ctx s1 b" by (auto simp: s1_def)
  define k' where "k' = k(a := j)"
  have "accept_calls sock k' as = accept_calls sock k as"
    unfolding accept_calls_def k'_def using Cons.prems(2) by (intro arg_cong [of _ _ concat] map_cong) auto
  then have calls: "accept_calls sock k' (a # as) = Sys_CancelIo (sock a) # Sys_closesocket (sock a) # polls ?ov j @ accept_calls sock k as"
    by (simp add: accept_calls_def k'_def)
  have "filter (\<lambda>ov. ov \<notin> Ov_accept ` set as) (removeAll ?ov (kernel_io s)) = filter (\<lambda>ov. ov \<notin> Ov_accept ` set (a # as)) (kernel_io s)"
    by (auto simp: removeAll_filter_not_eq intro!: filter_cong)
  then have "s' = s\<lparr>trace := trace s @ accept_calls sock k' (a # as), accepts := xs,
      kernel_io := filter (\<lambda>ov. ov \<notin> Ov_accept ` set (a # as)) (kernel_io s)\<rparr>"
    unfolding calls by (simp add: s'(1) s1_def j set_accept_def)
  then show ?case using s'(2,3) ctx Cons.prems(2) by (intro exI [of _ "k'"] exI [of _ xs]) auto
qed

lemma stop_accepts_ends:
  assumes "gives_back os"
  shows "distinct as \<Longrightarrow> \<forall>a \<in> set as. accept_ctx s a \<noteq> None \<Longrightarrow> stop_accepts os as s \<noteq> None"
proof (induction as arbitrary: s)
  case (Cons a as)
  then obtain x where x: "accept_ctx s a = Some x" by auto
  let ?s = "s\<lparr>trace := trace s @ [Sys_CancelIo (m_acceptSocket x), Sys_closesocket (m_acceptSocket x)]\<rparr>"
  have "wait_completed os (Ov_accept a) ?s \<noteq> None" using wait_completed_ends assms unfolding gives_back_def by blast
  then obtain t where t: "wait_completed os (Ov_accept a) ?s = Some t" by blast
  from wait_completed_result [OF this] have "accepts t = accepts s" by auto
  then have "accept_ctx (set_accept a None t) b = accept_ctx s b" if "b \<noteq> a" for b using that by (simp add: accept_ctx_def set_accept_def)
  then have "\<forall>b \<in> set as. accept_ctx (set_accept a None t) b \<noteq> None" using Cons.prems by (metis distinct.simps(2) list.set_intros(2))
  with Cons.IH Cons.prems(1) t x show ?case by (simp add: call_def)
qed simp

lemma stop_accepts_never:
  "keeps_accepts os \<Longrightarrow> stop_accepts os (a # as) s = None"
proof (rule ccontr)
  assume k: "keeps_accepts os" and "stop_accepts os (a # as) s \<noteq> None"
  then obtain t u where "wait_completed os (Ov_accept a) t = Some u" by (auto simp: call_def case_prod_unfold bind_eq_Some_conv)
  from wait_completed_result [OF this] k show False by (auto simp: keeps_accepts_def)
qed

lemma post_exits_calls: "post_exits os n s = s\<lparr>trace := trace s @ replicate n (Sys_post_status (m_hComPort s) 0 Key_exit Ov_null)\<rparr>"
  by (induction n arbitrary: s) (simp_all add: call_def case_prod_unfold)

lemma close_handles_calls: "fold (close_handle os) hs s = s\<lparr>trace := trace s @ map Sys_CloseHandle hs\<rparr>"
  by (induction hs arbitrary: s) (simp_all add: close_handle_def call_def)

text \<open>\<^verbatim>\<open>stop\<close> with the calls before and after the accepts evaluated.\<close>

lemma stop_eq:
  "stop os s = (case stop_accepts os (m_acceptIoCtxList s) (s\<lparr>trace := trace s @ Sys_SetEvent (m_hExitEvent s)
       # replicate (m_nWorkerCnt s) (Sys_post_status (m_hComPort s) 0 Key_exit Ov_null)
       @ Sys_wait_threads (m_hWorkerThreads s) # map Sys_CloseHandle (m_hWorkerThreads s)\<rparr>) of
     None \<Rightarrow> None
   | Some t \<Rightarrow> Some (True, removeAllClients (close_listener os (close_port os (close_exit_event os (t\<lparr>m_acceptIoCtxList := []\<rparr>))))))"
  by (simp add: stop_def exitIocpWorker_def post_exits_calls close_handles_calls call_def Let_def split: option.splits)

text \<open>
  C34. Starting and stopping the server. When \<^verbatim>\<open>start\<close> succeeds on a new server, whatever else the system
  did, the listening socket is bound to the configured port and listens, exactly ten accepts are
  outstanding with the kernel, each with a context of its own, and the worker count is the number of
  thread handles. From there, when every wait for a cancelled request ends, \<^verbatim>\<open>stop\<close> returns; on a system that never
  gives an accept back it does not return. Whenever it returns, it has made exactly these calls: the
  exit event is set, one exit notice goes out for each worker, the threads are waited for and their handles closed;
  for each accept in turn \<^verbatim>\<open>CancelIo\<close> and \<^verbatim>\<open>closesocket\<close> on its socket and the polls; then the handles of the exit event and the port
  are closed, and last the listening socket. No accept is with the kernel, every accept context and the listening context are
  deleted. The handle of the second event, \<^verbatim>\<open>m_hWriteCompletedEvent\<close>, is in none of these calls and stays.
\<close>

theorem start_then_stop:
  assumes "start os (IocpServer_ctor os port maxcnt w) = Some (True, s)"
  shows "kernel_io s = map Ov_accept [0 ..< 10] \<and> m_nWorkerCnt s = length (m_hWorkerThreads s)
     \<and> (\<exists>l sock. m_pListenCtx s = Some l \<and> sin_port (lc_addr l) = htons port
          \<and> Sys_bind (lc_socket l) (lc_addr l) \<in> set (trace s) \<and> Sys_listen (lc_socket l) \<in> set (trace s)
          \<and> (\<forall>a < 10. map_option m_acceptSocket (accept_ctx s a) = Some (sock a))
          \<and> (gives_back os \<longrightarrow> stop os s \<noteq> None) \<and> (keeps_accepts os \<longrightarrow> stop os s = None)
          \<and> (\<forall>b s'. stop os s = Some (b, s') \<longrightarrow> b \<and> (\<exists>k. trace s' = trace s @ stop_calls s (lc_socket l) sock k)
               \<and> kernel_io s' = [] \<and> m_acceptIoCtxList s' = [] \<and> (\<forall>a < 10. accept_ctx s' a = None) \<and> m_pListenCtx s' = None
               \<and> m_hComPort s' = 0 \<and> m_hExitEvent s' = 0 \<and> m_hWriteCompletedEvent s' = m_hWriteCompletedEvent s))"
proof -
  have st: "started port s" using assms by (rule start_started)
  then obtain l where l: "m_pListenCtx s = Some l" "sin_port (lc_addr l) = htons port"
    "Sys_bind (lc_socket l) (lc_addr l) \<in> set (trace s)" "Sys_listen (lc_socket l) \<in> set (trace s)" "m_hComPort s \<noteq> 0"
    by (auto simp: started_def)
  have ten: "m_acceptIoCtxList s = [0 ..< 10]" "kernel_io s = map Ov_accept [0 ..< 10]" "\<forall>a < 10. accept_ctx s a \<noteq> None"
    using st by (auto simp: started_def POST_ACCEPT_CNT_def)
  define sock where "sock a = m_acceptSocket (the (accept_ctx s a))" for a
  have sock: "\<forall>a < 10. map_option m_acceptSocket (accept_ctx s a) = Some (sock a)" using ten(3) by (auto simp: sock_def)
  define s1 where "s1 = s\<lparr>trace := trace s @ Sys_SetEvent (m_hExitEvent s)
       # replicate (m_nWorkerCnt s) (Sys_post_status (m_hComPort s) 0 Key_exit Ov_null)
       @ Sys_wait_threads (m_hWorkerThreads s) # map Sys_CloseHandle (m_hWorkerThreads s)\<rparr>"
  have ctx: "accept_ctx s1 a = accept_ctx s a" for a by (simp add: s1_def accept_ctx_def)
  note eq = stop_eq [of os s, folded s1_def, unfolded ten(1)]
  have ends: "stop os s \<noteq> None" if "gives_back os"
    using stop_accepts_ends [OF that distinct_upt [of 0 10], of s1] ten(3) ctx eq by (auto split: option.splits)
  have "[0 ..< 10] = 0 # [Suc 0 ..< 10]" by (simp add: upt_conv_Cons)
  then have never: "stop os s = None" if "keeps_accepts os" unfolding eq using stop_accepts_never [OF that] by (metis option.case(1))
  have result: "b \<and> (\<exists>k. trace s' = trace s @ stop_calls s (lc_socket l) sock k)
       \<and> kernel_io s' = [] \<and> m_acceptIoCtxList s' = [] \<and> (\<forall>a < 10. accept_ctx s' a = None) \<and> m_pListenCtx s' = None
       \<and> m_hComPort s' = 0 \<and> m_hExitEvent s' = 0 \<and> m_hWriteCompletedEvent s' = m_hWriteCompletedEvent s"
    if r: "stop os s = Some (b, s')" for b s'
  proof -
    from r obtain t where t: "stop_accepts os [0 ..< 10] s1 = Some t" and b: b
      and s': "s' = removeAllClients (close_listener os (close_port os (close_exit_event os (t\<lparr>m_acceptIoCtxList := []\<rparr>))))"
      unfolding eq by (auto split: option.splits)
    from stop_accepts_result [OF t distinct_upt, of sock] sock ctx obtain k xs where
      k: "t = s1\<lparr>trace := trace s1 @ accept_calls sock k [0 ..< 10], accepts := xs, kernel_io := []\<rparr>"
      and none: "\<forall>a < 10. accept_ctx t a = None"
      by (auto simp: s1_def ten(2) filter_empty_conv simp del: upt_Suc)
    have "accept_ctx s' a = accept_ctx t a" for a
      by (simp add: s' accept_ctx_def removeAllClients_def close_listener_def close_port_def close_exit_event_def close_handle_def call_def split: option.splits)
    moreover have "\<exists>k. trace s' = trace s @ stop_calls s (lc_socket l) sock k"
      using l(1,5) by (intro exI [of _ k]) (simp add: s' k s1_def stop_calls_def ten(1) removeAllClients_def close_listener_def close_port_def
          close_exit_event_def close_handle_def call_def del: upt_Suc)
    ultimately show ?thesis
      using b none l(1) by (simp add: s' k s1_def removeAllClients_def close_listener_def close_port_def
          close_exit_event_def close_handle_def call_def)
  qed
  show ?thesis
  proof (intro conjI exI [of _ l] exI [of _ sock])
    show "m_nWorkerCnt s = length (m_hWorkerThreads s)" using st by (simp add: started_def)
    show "gives_back os \<longrightarrow> stop os s \<noteq> None" "keeps_accepts os \<longrightarrow> stop os s = None" using ends never by blast+
    show "\<forall>b s'. stop os s = Some (b, s') \<longrightarrow> b \<and> (\<exists>k. trace s' = trace s @ stop_calls s (lc_socket l) sock k)
       \<and> kernel_io s' = [] \<and> m_acceptIoCtxList s' = [] \<and> (\<forall>a < 10. accept_ctx s' a = None) \<and> m_pListenCtx s' = None
       \<and> m_hComPort s' = 0 \<and> m_hExitEvent s' = 0 \<and> m_hWriteCompletedEvent s' = m_hWriteCompletedEvent s"
      using result by blast
  qed (use l ten(2) sock in blast)+
qed

theorem start_then_stop_witness:
  "\<exists>s s'. start good_os (IocpServer_ctor good_os 5001 10000 \<lparr>trace = [], memory = []\<rparr>) = Some (True, s)
     \<and> stop good_os s = Some (True, s') \<and> kernel_io s' = []"
proof -
  obtain s where s: "start good_os (IocpServer_ctor good_os 5001 10000 \<lparr>trace = [], memory = []\<rparr>) = Some (True, s)"
    using good_start by blast
  have "gives_back good_os" by (simp add: gives_back_def)
  with start_then_stop [OF s] obtain b s' where "stop good_os s = Some (b, s')" "b" "kernel_io s' = []" by fastforce
  with s show ?thesis by auto
qed

section \<open>The heartbeat timer\<close>

definition expired :: "server \<Rightarrow> u32 \<Rightarrow> nat \<Rightarrow> bool" where
  "expired s t c \<longleftrightarrow> (case client s c of None \<Rightarrow> False | Some x \<Rightarrow> t - m_nLastHeartbeatTime x > 10000)"

text \<open>
  One scan of the heartbeat timer, when the notices can be posted: a close notice goes out for
  exactly the expired clients at the front of the list of connected clients, in that order, up to the
  first client that is not expired; nothing else changes. A client is expired when more than ten
  seconds have passed since its time stamp, also when the tick counter has wrapped around.
\<close>

theorem heartbeat_closes_expired_prefix:
  assumes "set cs \<subseteq> {..< length (clients s)}" and "\<And>tr c. fst (sys os tr (Sys_post_status (m_hComPort s) 0 (Key_client c) Ov_null)) \<noteq> 0"
  shows "heartbeat_scan os t cs s = Some (s\<lparr>trace := trace s @
     map (\<lambda>c. Sys_post_status (m_hComPort s) 0 (Key_client c) Ov_null) (takeWhile (expired s t) cs)\<rparr>)"
  using assms
proof (induction cs arbitrary: s)
  case (Cons c cs)
  let ?s = "s\<lparr>trace := trace s @ [Sys_post_status (m_hComPort s) 0 (Key_client c) Ov_null]\<rparr>"
  have x: "client s c = Some (clients s ! c)" using Cons.prems(1) by (simp add: client_def)
  have "expired ?s t = expired s t" by (rule ext) (simp add: expired_def client_def)
  then have "heartbeat_scan os t cs ?s = Some (s\<lparr>trace := trace s @ Sys_post_status (m_hComPort s) 0 (Key_client c) Ov_null #
     map (\<lambda>c. Sys_post_status (m_hComPort s) 0 (Key_client c) Ov_null) (takeWhile (expired s t) cs)\<rparr>)"
    using Cons.IH [of ?s] Cons.prems by simp
  moreover have "expired s t c \<longleftrightarrow> t - m_nLastHeartbeatTime (clients s ! c) > 10000" using x by (simp add: expired_def)
  ultimately show ?case using x Cons.prems(2) by (simp add: call_def case_prod_unfold Let_def)
qed simp

theorem heartbeat_closes_expired_prefix_witness:
  "\<exists>s. clients s = [(ClientContext_ctor 4294960000 7), (ClientContext_ctor 3000 8), (ClientContext_ctor 0 9)]
     \<and> heartbeat_scan good_os 5000 [0, 1, 2] s
         = Some (s\<lparr>trace := trace s @ [Sys_post_status (m_hComPort s) 0 (Key_client 0) Ov_null]\<rparr>)"
proof -
  let ?cs = "[(ClientContext_ctor 4294960000 7), (ClientContext_ctor 3000 8), (ClientContext_ctor 0 9)]"
  let ?s = "(IocpServer_ctor good_os 5001 10000 \<lparr>trace = [], memory = []\<rparr>)\<lparr>clients := ?cs\<rparr>"
  have "takeWhile (expired ?s 5000) [0, 1, 2] = [0]"
    by (simp add: expired_def client_def ClientContext_ctor_def)
  with heartbeat_closes_expired_prefix [of "[0, 1, 2]" ?s good_os 5000] show ?thesis by (intro exI [of _ ?s]) auto
qed

end
