(* ===== verification/Endian.thy ===== *)
theory Endian
  imports Prelude
begin

unbundle bit_operations_syntax

text \<open>
  JudgeEndian.cpp: finding out the byte order of the machine and converting to network order. The
  byte order is a parameter, as the standard leaves it to the implementation; a byte order is the way
  the bytes of an integer stand in memory. \<^verbatim>\<open>short\<close> has 16 bits, \<^verbatim>\<open>long\<close> and \<^verbatim>\<open>int\<close> have 32 (Win32).
\<close>

section \<open>The code\<close>

datatype byte_order = Little_endian | Big_endian

definition JEndian_arr :: "byte_order \<Rightarrow> 16 word \<Rightarrow> 8 word list" where
  "JEndian_arr e i = (let low = ucast i; high = ucast (drop_bit 8 i)
     in (case e of Little_endian \<Rightarrow> [low, high] | Big_endian \<Rightarrow> [high, low]))"

definition judgeEndian :: "byte_order \<Rightarrow> int" where
  "judgeEndian e =
     (let arr = JEndian_arr e 0x1234
      in if arr ! 0 = 0x34 \<and> arr ! 1 = 0x12 then 0
         else if arr ! 0 = 0x12 \<and> arr ! 1 = 0x34 then 1
         else -1)"

text \<open>A failed \<^verbatim>\<open>assert\<close> is \<open>None\<close>.\<close>

definition Htonl :: "byte_order \<Rightarrow> 32 word \<Rightarrow> 32 word option" where
  "Htonl e n =
     (let endian = judgeEndian e in
      if endian = -1 then None
      else if endian = 0 then
        (let ret = push_bit 24 (n AND 0x000000FF);
             ret = ret OR push_bit 8 (n AND 0x0000FF00);
             ret = ret OR drop_bit 8 (n AND 0x00FF0000);
             ret = ret OR drop_bit 24 (n AND 0xFF000000)
         in Some ret)
      else Some n)"

definition Ntohl :: "byte_order \<Rightarrow> 32 word \<Rightarrow> 32 word option" where
  "Ntohl e n =
     (let endian = judgeEndian e in
      if endian = -1 then None
      else if endian = 0 then
        (let ret = push_bit 24 (n AND 0x000000FF);
             ret = ret OR push_bit 8 (n AND 0x0000FF00);
             ret = ret OR drop_bit 8 (n AND 0x00FF0000);
             ret = ret OR drop_bit 24 (n AND 0xFF000000)
         in Some ret)
      else Some n)"

text \<open>The three numbers \<^verbatim>\<open>endianTest\<close> prints.\<close>

definition endianTest :: "byte_order \<Rightarrow> (32 word \<times> 32 word \<times> 32 word) option" where
  "endianTest e = do {
     let n = 0x12345678;
     a \<leftarrow> Htonl e n;
     b \<leftarrow> Htonl e n;
     c \<leftarrow> Ntohl e b;
     Some (n, a, c) }"

text \<open>\<^verbatim>\<open>demoEntry\<close> of Common.cpp, and \<^verbatim>\<open>main\<close> of the demo, which ends with 0.\<close>

definition demoEntry :: "byte_order \<Rightarrow> (32 word \<times> 32 word \<times> 32 word) option" where
  "demoEntry e = endianTest e"

definition demo_main :: "byte_order \<Rightarrow> (int \<times> 32 word \<times> 32 word \<times> 32 word) option" where
  "demo_main e = map_option (Pair 0) (demoEntry e)"

section \<open>The bytes in memory\<close>

text \<open>Byte \<open>k\<close> of a number, counted from the least significant one.\<close>

definition byte :: "nat \<Rightarrow> 32 word \<Rightarrow> 8 word" where
  "byte k n = ucast (drop_bit (8 * k) n)"

text \<open>How a 32-bit integer stands in memory, from the lowest address on.\<close>

definition in_memory :: "byte_order \<Rightarrow> 32 word \<Rightarrow> 8 word list" where
  "in_memory e n = (case e of
       Little_endian \<Rightarrow> [byte 0 n, byte 1 n, byte 2 n, byte 3 n]
     | Big_endian \<Rightarrow> [byte 3 n, byte 2 n, byte 1 n, byte 0 n])"

definition swapped :: "32 word \<Rightarrow> 32 word" where
  "swapped n = push_bit 24 (n AND 0x000000FF) OR push_bit 8 (n AND 0x0000FF00)
     OR drop_bit 8 (n AND 0x00FF0000) OR drop_bit 24 (n AND 0xFF000000)"

lemma judgeEndian_eq: "judgeEndian Little_endian = 0" "judgeEndian Big_endian = 1"
  by code_simp+

lemma Htonl_eq: "Htonl e n = Some (case e of Little_endian \<Rightarrow> swapped n | Big_endian \<Rightarrow> n)"
  by (cases e) (simp_all add: Htonl_def judgeEndian_eq swapped_def or.assoc)

lemma Ntohl_eq: "Ntohl e n = Some (case e of Little_endian \<Rightarrow> swapped n | Big_endian \<Rightarrow> n)"
  by (cases e) (simp_all add: Ntohl_def judgeEndian_eq swapped_def or.assoc)

lemma masks32:
  "0x000000FF = (mask 8 :: 32 word)" "0x0000FF00 = (push_bit 8 (mask 8) :: 32 word)"
  "0x00FF0000 = (push_bit 16 (mask 8) :: 32 word)" "0xFF000000 = (push_bit 24 (mask 8) :: 32 word)"
  by (simp_all add: mask_eq_exp_minus_1 push_bit_eq_mult)

lemma byte_swapped:
  "byte 0 (swapped n) = byte 3 n" "byte 1 (swapped n) = byte 2 n" "byte 2 (swapped n) = byte 1 n" "byte 3 (swapped n) = byte 0 n"
  by (rule bit_word_eqI, auto simp: byte_def swapped_def masks32 bit_simps)+

lemmas swapped_bytes = byte_swapped byte_swapped(2) [unfolded One_nat_def]

lemma bit_byte: "i < 8 \<Longrightarrow> bit (byte k n) i \<longleftrightarrow> bit n (8 * k + i)"
  by (auto simp: byte_def bit_simps)

lemma word_eq_bytes:
  assumes "byte 0 a = byte 0 b" and "byte 1 a = byte 1 b" and "byte 2 a = byte 2 b" and "byte 3 a = byte 3 b"
  shows "a = b"
proof (rule bit_word_eqI)
  fix i assume "i < LENGTH(32)"
  then have i: "i div 8 \<in> {0, 1, 2, 3}" by auto
  have "bit a i \<longleftrightarrow> bit (byte (i div 8) a) (i mod 8)" "bit b i \<longleftrightarrow> bit (byte (i div 8) b) (i mod 8)"
    by (simp_all add: bit_byte)
  moreover have "byte (i div 8) a = byte (i div 8) b" using i assms by auto
  ultimately show "bit a i \<longleftrightarrow> bit b i" by simp
qed

lemma swapped_swapped: "swapped (swapped n) = n"
  by (rule word_eq_bytes) (simp_all add: swapped_bytes)

text \<open>
  \<^verbatim>\<open>Htonl\<close> gives network order on every machine: whatever the byte order, it does not fail, and the
  bytes of its result stand in memory from the most significant byte of the argument to the least.
\<close>

theorem htonl_is_network_order:
  "\<exists>r. Htonl e n = Some r \<and> in_memory e r = [byte 3 n, byte 2 n, byte 1 n, byte 0 n]"
  by (cases e) (simp_all add: Htonl_eq in_memory_def swapped_bytes)

text \<open>
  C40. \<^verbatim>\<open>Ntohl\<close> takes \<^verbatim>\<open>Htonl\<close> back, and the other way round, on every machine and for all 32-bit numbers;
  the demo, which calls \<^verbatim>\<open>endianTest\<close>, prints the same number first and last and ends with 0.
\<close>

theorem htonl_ntohl_roundtrip:
  "Option.bind (Htonl e n) (Ntohl e) = Some n \<and> Option.bind (Ntohl e n) (Htonl e) = Some n
   \<and> (\<exists>a. demo_main e = Some (0, 0x12345678, a, 0x12345678))"
  by (cases e) (simp_all add: Htonl_eq Ntohl_eq swapped_swapped endianTest_def demoEntry_def demo_main_def)

end
