(* ===== verification/Connect.thy ===== *)
theory Connect
  imports Net Endian
begin

text \<open>
  The client programs that connect without blocking: nonBlockingConnect.cpp and 2_NonblockConnect.cpp
  (Linux), Non-blockingConnect.cpp (Windows).

  The system is the parameter \<open>host\<close>: for every call, given the calls made before it, \<open>ans\<close> gives the
  returned value and the error number; \<open>stored\<close> is what the call stores through a pointer argument
  (whether \<^verbatim>\<open>select\<close> left the descriptor in its sets, the value of \<^verbatim>\<open>SO_ERROR\<close>, \<^verbatim>\<open>revents\<close>). \<^verbatim>\<open>errno\<close> is part
  of the state, because the programs read it after calls that succeeded: only a call that returns
  \<open>-1\<close> sets it. \<open>printed\<close> is what the program has reported, each text with the number printed behind it.
  A loop that may go on for ever is a partial function.
\<close>

unbundle bit_operations_syntax

section \<open>The system\<close>

datatype sockcall =
    C_socket
  | C_getfl int
  | C_setfl int int
  | C_ioctl int
  | C_connect int SOCKADDR_IN
  | C_select int bool int
  | C_so_error int
  | C_poll int int
  | C_send int string
  | C_sleep int
  | C_close int

record host =
  ans :: "sockcall list \<Rightarrow> sockcall \<Rightarrow> int \<times> int"
  stored :: "sockcall list \<Rightarrow> sockcall \<Rightarrow> int"
  inet_addr :: "string \<Rightarrow> nat \<times> nat \<times> nat \<times> nat"

record client_state =
  calls :: "sockcall list"
  errno :: int
  printed :: "(string \<times> int option) list"

definition EINTR :: int where
  "EINTR = 4"

definition EINPROGRESS :: int where
  "EINPROGRESS = 115"

definition EISCONN :: int where
  "EISCONN = 106"

definition WSAEWOULDBLOCK :: int where
  "WSAEWOULDBLOCK = 10035"

definition O_NONBLOCK :: int where
  "O_NONBLOCK = 2048"

definition POLLOUT :: int where
  "POLLOUT = 4"

definition fresh_client :: client_state where
  "fresh_client = \<lparr>calls = [], errno = 0, printed = []\<rparr>"

definition ask :: "host \<Rightarrow> sockcall \<Rightarrow> client_state \<Rightarrow> int \<times> client_state" where
  "ask h k s = (let (ret, err) = ans h (calls s) k
     in (ret, s\<lparr>calls := calls s @ [k], errno := (if ret = -1 then err else errno s)\<rparr>))"

definition close_fd :: "host \<Rightarrow> int \<Rightarrow> client_state \<Rightarrow> client_state" where
  "close_fd h fd s = snd (ask h (C_close fd) s)"

definition say :: "string \<Rightarrow> int option \<Rightarrow> client_state \<Rightarrow> client_state" where
  "say msg n s = s\<lparr>printed := printed s @ [(msg, n)]\<rparr>"

section \<open>nonBlockingConnect.cpp\<close>

text \<open>The bytes of a 32-bit number after \<^verbatim>\<open>htonl\<close>.\<close>

definition htonl_bytes :: "32 word \<Rightarrow> nat \<times> nat \<times> nat \<times> nat" where
  "htonl_bytes n = (unat (byte 3 n), unat (byte 2 n), unat (byte 1 n), unat (byte 0 n))"

text \<open>
  \<^verbatim>\<open>blockingConnect\<close>: the address is converted with \<^verbatim>\<open>atoi\<close>, and the port is stored as it is, in the
  byte order of the (little-endian) machine.
\<close>

definition blockingConnect :: "host \<Rightarrow> string \<Rightarrow> 16 word \<Rightarrow> client_state \<Rightarrow> bool \<times> client_state" where
  "blockingConnect h ip port s =
     (let (fd, s) = ask h C_socket s in
      if fd = -1 then (False, say ''create socket error'' None s)
      else let a = \<lparr>sin_family = AF_INET, sin_port = (unat port mod 256, unat port div 256),
                    sin_addr = htonl_bytes (word_of_int (atoi ip))\<rparr>;
               (ret, s) = ask h (C_connect fd a) s in
        if ret = 0 then (True, say ''connect successfully'' None s)
        else if errno s \<noteq> EINTR then (False, say ''can not connect to server, errno: '' (Some (errno s)) s)
        else (False, say ''can not connect to server, errno: '' (Some (errno s)) s))"

text \<open>The first steps of all three variants: the flags, the address and the loop around \<^verbatim>\<open>connect\<close>.\<close>

definition set_nonblocking :: "host \<Rightarrow> int \<Rightarrow> client_state \<Rightarrow> bool \<times> client_state" where
  "set_nonblocking h fd s =
     (let (flag, s) = ask h (C_getfl fd) s;
          (ret, s) = ask h (C_setfl fd (flag OR O_NONBLOCK)) s
      in (ret \<noteq> -1, s))"

definition server_addr :: "host \<Rightarrow> string \<Rightarrow> 16 word \<Rightarrow> SOCKADDR_IN" where
  "server_addr h ip port = \<lparr>sin_family = AF_INET, sin_port = htons port, sin_addr = inet_addr h ip\<rparr>"

text \<open>The result is what the function returns, or \<open>None\<close> when the loop is left by \<^verbatim>\<open>break\<close>.\<close>

partial_function (option) connect_loop :: "host \<Rightarrow> int \<Rightarrow> SOCKADDR_IN \<Rightarrow> client_state \<Rightarrow> (bool option \<times> client_state) option" where
  "connect_loop h fd a s =
     (let (ret, s) = ask h (C_connect fd a) s in
      if ret = 0 then Some (Some True, say ''connect successfully'' None s)
      else if ret = -1 then
        (if errno s = EINTR then connect_loop h fd a (say ''signal interrupt'' None s)
         else if errno s \<noteq> EINPROGRESS then
           Some (Some False, close_fd h fd (say ''can not connect to server, errno: '' (Some (errno s)) s))
         else Some (None, s))
      else connect_loop h fd a s)"

declare connect_loop.simps [code]

text \<open>\<^verbatim>\<open>sizeof(buf)\<close> counts the terminating NUL.\<close>

definition hello :: string where
  "hello = ''hello'' @ [LF, NUL]"

partial_function (option) hello_loop :: "host \<Rightarrow> int \<Rightarrow> client_state \<Rightarrow> (bool \<times> client_state) option" where
  "hello_loop h fd s =
     (let (send_len, s) = ask h (C_send fd hello) s in
      if send_len = -1 then Some (False, say ''send failed'' None s)
      else let (_, s) = ask h (C_sleep 3) (say ''send len: '' (Some send_len) s) in hello_loop h fd s)"

declare hello_loop.simps [code]

definition nonblockingConnect :: "host \<Rightarrow> string \<Rightarrow> 16 word \<Rightarrow> int \<Rightarrow> client_state \<Rightarrow> (bool \<times> client_state) option" where
  "nonblockingConnect h ip port timeout s =
     (let (fd, s) = ask h C_socket s in
      if fd = -1 then Some (False, say ''create socket failed'' None s)
      else let (good, s) = set_nonblocking h fd s in
      if \<not> good then Some (False, close_fd h fd (say ''fcntl failed'' None s))
      else do {
        (left, s) \<leftarrow> connect_loop h fd (server_addr h ip port) s;
        case left of
          Some r \<Rightarrow> Some (r, s)
        | None \<Rightarrow>
            (let isset = stored h (calls s) (C_select fd True timeout);
                 (ret, s) = ask h (C_select fd True timeout) s in
             if ret \<le> 0 then Some (False, close_fd h fd (say ''can not connect to server'' None s))
             else if isset \<noteq> 0 then
               (let error = stored h (calls s) (C_so_error fd);
                    (ret, s) = ask h (C_so_error fd) s in
                if ret = -1 \<or> error \<noteq> 0 then Some (False, say ''getsockopt connect failed, errno: '' (Some (errno s)) s)
                else hello_loop h fd (say ''connect successfully'' None s))
             else Some (False, close_fd h fd (say ''can not connect to server, errno: '' (Some (errno s)) s))) })"

text \<open>
  The second variant. The loop around \<^verbatim>\<open>select\<close> uses the set that \<^verbatim>\<open>select\<close> left; \<^verbatim>\<open>errno\<close> is compared
  whatever the second \<^verbatim>\<open>connect\<close> returned. The time that \<^verbatim>\<open>select\<close> leaves in \<^verbatim>\<open>tv\<close> is not tracked: what a
  call answers is any function of the calls before it, so \<open>timeout\<close> is only a label of the call.
\<close>

partial_function (option) select_loop :: "host \<Rightarrow> int \<Rightarrow> SOCKADDR_IN \<Rightarrow> int \<Rightarrow> bool \<Rightarrow> client_state \<Rightarrow> (bool \<times> client_state) option" where
  "select_loop h fd a timeout in_set s =
     (let isset = stored h (calls s) (C_select fd in_set timeout);
          (ret, s) = ask h (C_select fd in_set timeout) s in
      if ret \<le> 0 then Some (False, close_fd h fd (say ''can not connect to server'' None s))
      else if isset \<noteq> 0 then
        (let (_, s) = ask h (C_connect fd a) s in
         if errno s = EISCONN then hello_loop h fd (say ''connect successfully'' None s)
         else select_loop h fd a timeout True (say ''repet while, errno:'' (Some (errno s)) s))
      else select_loop h fd a timeout False s)"

declare select_loop.simps [code]

definition nonblockingConnect_v2 :: "host \<Rightarrow> string \<Rightarrow> 16 word \<Rightarrow> int \<Rightarrow> client_state \<Rightarrow> (bool \<times> client_state) option" where
  "nonblockingConnect_v2 h ip port timeout s =
     (let (fd, s) = ask h C_socket s in
      if fd = -1 then Some (False, say ''create socket failed'' None s)
      else let (good, s) = set_nonblocking h fd s in
      if \<not> good then Some (False, close_fd h fd (say ''fcntl failed'' None s))
      else do {
        (left, s) \<leftarrow> connect_loop h fd (server_addr h ip port) s;
        case left of
          Some r \<Rightarrow> Some (r, s)
        | None \<Rightarrow> select_loop h fd (server_addr h ip port) timeout True s })"

definition nonblockingConnect_v3 :: "host \<Rightarrow> string \<Rightarrow> 16 word \<Rightarrow> int \<Rightarrow> client_state \<Rightarrow> (bool \<times> client_state) option" where
  "nonblockingConnect_v3 h ip port timeout s =
     (let (fd, s) = ask h C_socket s in
      if fd = -1 then Some (False, say ''create socket failed'' None s)
      else let (good, s) = set_nonblocking h fd s in
      if \<not> good then Some (False, say ''fcntl failed'' None s)
      else do {
        (left, s) \<leftarrow> connect_loop h fd (server_addr h ip port) s;
        case left of
          Some r \<Rightarrow> Some (r, s)
        | None \<Rightarrow>
            (let revents = stored h (calls s) (C_poll fd (timeout * 1000));
                 (ret, s) = ask h (C_poll fd (timeout * 1000)) s in
             if ret = 1 \<and> revents = POLLOUT then hello_loop h fd (say ''connect successfully'' None s)
             else Some (False, close_fd h fd (say ''can not connect to server, errno: '' (Some (errno s)) s))) })"

definition connect_main :: "host \<Rightarrow> client_state \<Rightarrow> (int \<times> client_state) option" where
  "connect_main h s = do {
     (_, s) \<leftarrow> nonblockingConnect_v3 h ''104.18.93.225'' 80 3 s;
     Some (0, s) }"

section \<open>2_NonblockConnect.cpp\<close>

text \<open>
  The loop of at most five \<^verbatim>\<open>select\<close> calls; both sets hold the descriptor. The result is \<^verbatim>\<open>bConnect\<close>.
\<close>

fun select_times :: "host \<Rightarrow> int \<Rightarrow> SOCKADDR_IN \<Rightarrow> nat \<Rightarrow> client_state \<Rightarrow> bool \<times> client_state" where
  "select_times h fd a 0 s = (False, s)"
| "select_times h fd a (Suc n) s =
     (let isset = stored h (calls s) (C_select fd True 3);
          (result, s) = ask h (C_select fd True 3) s in
      if result = -1 then (False, say ''select error'' None s)
      else if result = 0 then select_times h fd a n (say ''select time out'' None s)
      else if isset \<noteq> 0 then
        (let (_, s) = ask h (C_connect fd a) s in
         if EISCONN = errno s then (True, say '' connect succeed'' None s)
         else select_times h fd a n (say '' connect fail'' None s))
      else select_times h fd a n s)"

definition nonblock_main :: "host \<Rightarrow> client_state \<Rightarrow> int \<times> client_state" where
  "nonblock_main h s =
     (let (cln_sock, s) = ask h C_socket s in
      if -1 = cln_sock then (-1, say '' create socket error'' None s)
      else let (good, s) = set_nonblocking h cln_sock s in
      if \<not> good then (-1, say ''fcntl error '' None s)
      else let a = server_addr h ''127.0.0.1'' 9999;
               (iconnectRet, s) = ask h (C_connect cln_sock a) s;
               (bConnect, s) = (if iconnectRet = 0 then (False, say ''connect directly success'' None s)
                                else if errno s = EINPROGRESS then select_times h cln_sock a 5 s
                                else (False, s))
           in if bConnect then (0, close_fd h cln_sock (say ''noblock connect succeed'' None s)) else (0, close_fd h cln_sock s))"

section \<open>Non-blockingConnect.cpp (Windows)\<close>

text \<open>
  \<^verbatim>\<open>WSAGetLastError\<close> is read as \<^verbatim>\<open>errno\<close>. After a failed \<^verbatim>\<open>ioctlsocket\<close> the statement \<^verbatim>\<open>false;\<close> has no
  effect, so the function goes on.
\<close>

definition win_nonblockingConnect :: "host \<Rightarrow> string \<Rightarrow> 16 word \<Rightarrow> int \<Rightarrow> client_state \<Rightarrow> bool \<times> client_state" where
  "win_nonblockingConnect h ip port timeout s =
     (let (fd, s) = ask h C_socket s in
      if fd = -1 then (False, say ''create socket failed, error: '' (Some (errno s)) s)
      else let (ret, s) = ask h (C_ioctl fd) s;
               s = (if ret = -1 then close_fd h fd (say ''ioctlsocket failed'' None s) else s);
               (ret, s) = ask h (C_connect fd (server_addr h ip port)) s in
        if ret = 0 then (True, say ''connect success'' None s)
        else if ret = -1 \<and> errno s \<noteq> WSAEWOULDBLOCK then (False, say ''can not connect to server, error: '' (Some (errno s)) s)
        else let (ret, s) = ask h (C_select fd True timeout) s in
          if ret \<noteq> 1 then (False, say ''can not connect to server'' None s) else (True, say ''connect success'' None s))"

text \<open>
  The function without arguments. Its socket is never set: \<open>sock\<close> is whatever the variable holds. The address is
  \<^verbatim>\<open>atoi("")\<close>, and the port is stored as it is, without \<^verbatim>\<open>htons\<close>; the result of the call is not passed on.
\<close>

definition win_connect_unset :: "host \<Rightarrow> int \<Rightarrow> client_state \<Rightarrow> client_state" where
  "win_connect_unset h sock s =
     snd (ask h (C_connect sock \<lparr>sin_family = AF_INET, sin_port = (6000 mod 256, 6000 div 256),
       sin_addr = htonl_bytes (word_of_int (atoi []))\<rparr>) s)"

section \<open>How the loops end\<close>

lemma ask_cases:
  assumes "ask h k s = (r, s')"
  shows "calls s' = calls s @ [k]" and "r = fst (ans h (calls s) k)"
    and "errno s' = (if r = -1 then snd (ans h (calls s) k) else errno s)" and "printed s' = printed s"
  using assms by (auto simp: ask_def case_prod_unfold Let_def)

lemma say_fields [simp]:
  "calls (say m n s) = calls s" "errno (say m n s) = errno s" "printed (say m n s) = printed s @ [(m, n)]"
  by (simp_all add: say_def)

lemma close_fd_calls [simp]: "calls (close_fd h fd s) = calls s @ [C_close fd]" "printed (close_fd h fd s) = printed s"
  by (simp_all add: close_fd_def ask_def case_prod_unfold Let_def)

text \<open>The calls and the reports of a part of a run.\<close>

definition ran :: "client_state \<Rightarrow> client_state \<Rightarrow> sockcall list \<Rightarrow> (string \<times> int option) list \<Rightarrow> bool" where
  "ran s s' tr rep \<longleftrightarrow> calls s' = calls s @ tr \<and> printed s' = printed s @ rep"

lemma ran_trans: "ran s s1 tr rep \<Longrightarrow> ran s1 s2 tr' rep' \<Longrightarrow> ran s s2 (tr @ tr') (rep @ rep')"
  by (simp add: ran_def)

lemma ran_ask: "ask h k s = (r, s') \<Longrightarrow> ran s s' [k] []"
  by (simp add: ran_def ask_cases)

lemma ran_say: "ran s (say m n s) [] [(m, n)]"
  by (simp add: ran_def)

lemma ran_close: "ran s (close_fd h fd s) [C_close fd] []"
  by (simp add: ran_def)

abbreviation success :: "string \<times> int option" where
  "success \<equiv> (''connect successfully'', None)"

text \<open>The loop that sends is only left when a \<^verbatim>\<open>send\<close> fails.\<close>

definition said_hello :: "int \<Rightarrow> client_state \<Rightarrow> bool \<times> client_state \<Rightarrow> bool" where
  "said_hello fd s y \<longleftrightarrow> \<not> fst y \<and> (\<exists>tr rep. ran s (snd y) (tr @ [C_send fd hello]) rep \<and> set tr \<subseteq> {C_send fd hello, C_sleep 3} \<and> success \<notin> set rep)"

lemma hello_loop_ends:
  assumes "hello_loop h fd s = Some y"
  shows "said_hello fd s y"
proof (rule hello_loop.raw_induct [where P = "\<lambda>h fd s y. said_hello fd s y", OF _ assms], goal_cases)
  case (1 f h fd s y)
  obtain n s1 where n: "ask h (C_send fd hello) s = (n, s1)" by fastforce
  obtain m s2 where m: "ask h (C_sleep 3) (say ''send len: '' (Some n) s1) = (m, s2)" by fastforce
  show ?case
  proof (cases "n = -1")
    case True
    then have "y = (False, say ''send failed'' None s1)" using 1(2) n by simp
    moreover have "ran s (say ''send failed'' None s1) ([] @ [C_send fd hello]) [(''send failed'', None)]"
      using ran_trans [OF ran_ask [OF n] ran_say] by simp
    ultimately show ?thesis unfolding said_hello_def by (intro conjI exI [of _ "[]"] exI [of _ "[(''send failed'', None)]"]) simp_all
  next
    case False
    then have "said_hello fd s2 y" using 1(2) n m 1(1) [of h fd s2 y] by simp
    then obtain tr rep where y: "\<not> fst y" "ran s2 (snd y) (tr @ [C_send fd hello]) rep" "set tr \<subseteq> {C_send fd hello, C_sleep 3}" "success \<notin> set rep"
      unfolding said_hello_def by blast
    have "ran s (snd y) ((C_send fd hello # C_sleep 3 # tr) @ [C_send fd hello]) ((''send len: '', Some n) # rep)"
      using ran_trans [OF ran_trans [OF ran_trans [OF ran_ask [OF n] ran_say] ran_ask [OF m]] y(2)] by simp
    moreover have "set (C_send fd hello # C_sleep 3 # tr) \<subseteq> {C_send fd hello, C_sleep 3}" using y(3) by auto
    ultimately show ?thesis using y(1,4) unfolding said_hello_def by (metis list.set_intros set_ConsD prod.inject option.distinct(1))
  qed
qed

text \<open>What the loop around \<^verbatim>\<open>connect\<close> has done when it is left.\<close>

definition left_connect :: "host \<Rightarrow> int \<Rightarrow> SOCKADDR_IN \<Rightarrow> client_state \<Rightarrow> bool option \<times> client_state \<Rightarrow> bool" where
  "left_connect h fd a s y \<longleftrightarrow> (\<exists>n rep. success \<notin> set rep \<and> (case fst y of
      Some True \<Rightarrow> ran s (snd y) (replicate n (C_connect fd a) @ [C_connect fd a]) (rep @ [success])
        \<and> fst (ans h (calls s @ replicate n (C_connect fd a)) (C_connect fd a)) = 0
    | Some False \<Rightarrow> ran s (snd y) (replicate n (C_connect fd a) @ [C_close fd]) rep
    | None \<Rightarrow> ran s (snd y) (replicate n (C_connect fd a)) rep \<and> errno (snd y) = EINPROGRESS))"

lemma left_connect_again:
  assumes "ran s s1 [C_connect fd a] rep" and "success \<notin> set rep" and "left_connect h fd a s1 y"
  shows "left_connect h fd a s y"
proof -
  obtain n rep' where n: "success \<notin> set rep'" "case fst y of
      Some True \<Rightarrow> ran s1 (snd y) (replicate n (C_connect fd a) @ [C_connect fd a]) (rep' @ [success])
        \<and> fst (ans h (calls s1 @ replicate n (C_connect fd a)) (C_connect fd a)) = 0
    | Some False \<Rightarrow> ran s1 (snd y) (replicate n (C_connect fd a) @ [C_close fd]) rep'
    | None \<Rightarrow> ran s1 (snd y) (replicate n (C_connect fd a)) rep' \<and> errno (snd y) = EINPROGRESS"
    using assms(3) unfolding left_connect_def by blast
  then show ?thesis
    unfolding left_connect_def using assms(1,2)
    by (intro exI [of _ "Suc n"] exI [of _ "rep @ rep'"]) (auto simp: ran_def split: option.splits bool.splits)
qed

lemma connect_loop_ends:
  assumes "connect_loop h fd a s = Some y"
  shows "left_connect h fd a s y"
proof (rule connect_loop.raw_induct [where P = "\<lambda>h fd a s y. left_connect h fd a s y", OF _ assms], goal_cases)
  case (1 f h fd a s y)
  obtain r s1 where r: "ask h (C_connect fd a) s = (r, s1)" by fastforce
  note c = ask_cases [OF r]
  consider "r = 0" | "r = -1" "errno s1 = EINTR" | "r = -1" "errno s1 \<noteq> EINTR" "errno s1 \<noteq> EINPROGRESS"
    | "r = -1" "errno s1 = EINPROGRESS" "errno s1 \<noteq> EINTR" | "r \<noteq> 0" "r \<noteq> -1" by blast
  then show ?case
  proof cases
    case 1
    with \<open>_ = Some y\<close> r have "y = (Some True, say ''connect successfully'' None s1)" by simp
    with 1 c show ?thesis unfolding left_connect_def by (intro exI [of _ 0] exI [of _ "[]"]) (simp add: ran_def)
  next
    case 2
    with 1(2) r 1(1) [of h fd a "say ''signal interrupt'' None s1" y] have "left_connect h fd a (say ''signal interrupt'' None s1) y" by simp
    with ran_trans [OF ran_ask [OF r] ran_say] show ?thesis by (intro left_connect_again [of s]) auto
  next
    case 3
    with \<open>_ = Some y\<close> r have "y = (Some False, close_fd h fd (say ''can not connect to server, errno: '' (Some (errno s1)) s1))" by simp
    with c show ?thesis unfolding left_connect_def
      by (intro exI [of _ 1] exI [of _ "[(''can not connect to server, errno: '', Some (errno s1))]"]) (simp add: ran_def)
  next
    case 4
    with \<open>_ = Some y\<close> r have "y = (None, s1)" by simp
    with 4 c show ?thesis unfolding left_connect_def by (intro exI [of _ 1] exI [of _ "[]"]) (simp add: ran_def)
  next
    case 5
    with 1(2) r 1(1) [of h fd a s1 y] have "left_connect h fd a s1 y" by simp
    with ran_ask [OF r] show ?thesis by (intro left_connect_again [of s]) auto
  qed
qed

text \<open>
  The ways out of a variant: the calls \<open>tr\<close> and the reports \<open>rep\<close> it has made. Success is reported when it is returned or
  before the sends, and then \<open>ev\<close> holds of the calls up to that report. The descriptor is closed by the last call or not at all.
\<close>

definition ways_out :: "host \<Rightarrow> int \<Rightarrow> SOCKADDR_IN \<Rightarrow> sockcall set \<Rightarrow> (sockcall list \<Rightarrow> bool) \<Rightarrow> client_state \<Rightarrow> bool \<times> client_state \<Rightarrow> bool" where
  "ways_out h fd a F ev s y \<longleftrightarrow> (\<exists>tr rep. ran s (snd y) tr rep \<and> tr \<noteq> []
     \<and> (if fst y then last tr = C_connect fd a \<and> fst (ans h (calls s @ butlast tr) (last tr)) = 0
        else last tr \<in> F \<union> {C_close fd, C_send fd hello})
     \<and> (C_close fd \<in> set tr \<longleftrightarrow> last tr = C_close fd)
     \<and> (success \<in> set rep \<longleftrightarrow> fst y \<or> last tr = C_send fd hello)
     \<and> (last tr = C_send fd hello \<longrightarrow> (\<exists>pre post. tr = pre @ post \<and> set post \<subseteq> {C_send fd hello, C_sleep 3} \<and> ev (calls s @ pre))))"

text \<open>A part of a run that fails without having reported success, or reports it and ends with the sends.\<close>

definition waited :: "int \<Rightarrow> sockcall set \<Rightarrow> (sockcall list \<Rightarrow> bool) \<Rightarrow> client_state \<Rightarrow> bool \<times> client_state \<Rightarrow> bool" where
  "waited fd F ev s y \<longleftrightarrow> \<not> fst y \<and> (\<exists>tr rep. C_close fd \<notin> set tr \<and> success \<notin> set rep
     \<and> ((\<exists>k \<in> F \<union> {C_close fd}. ran s (snd y) (tr @ [k]) rep)
       \<or> (\<exists>post rep'. ran s (snd y) (tr @ post @ [C_send fd hello]) (rep @ success # rep') \<and> set post \<subseteq> {C_send fd hello, C_sleep 3}
           \<and> ev (calls s @ tr))))"

lemma waitedE:
  assumes "waited fd F ev s y"
  obtains (fails) tr k rep where "\<not> fst y" "C_close fd \<notin> set tr" "success \<notin> set rep" "k \<in> F \<union> {C_close fd}" "ran s (snd y) (tr @ [k]) rep"
    | (sends) tr post rep rep' where "\<not> fst y" "C_close fd \<notin> set tr" "success \<notin> set rep"
      "ran s (snd y) (tr @ post @ [C_send fd hello]) (rep @ success # rep')" "set post \<subseteq> {C_send fd hello, C_sleep 3}" "ev (calls s @ tr)"
  using assms unfolding waited_def by (elim conjE exE disjE bexE) (rule fails sends; assumption)+

lemma waited_fails:
  assumes "ran s s' (tr @ [k]) rep" and "C_close fd \<notin> set tr" and "success \<notin> set rep" and "k \<in> F \<union> {C_close fd}"
  shows "waited fd F ev s (False, s')"
  using assms unfolding waited_def by (intro conjI exI [of _ tr] exI [of _ rep]) auto

lemma waited_closes:
  assumes "ran s s1 [k] []" and "k \<noteq> C_close fd" and "m \<noteq> ''connect successfully''"
  shows "waited fd F ev s (False, close_fd h fd (say m n s1))"
proof (rule waited_fails)
  show "ran s (close_fd h fd (say m n s1)) ([k] @ [C_close fd]) [(m, n)]" using assms(1) by (simp add: ran_def)
qed (use assms in auto)

lemma waited_says:
  assumes "ran s s1 (tr @ [k]) []" and "C_close fd \<notin> set tr" and "k \<in> F" and "m \<noteq> ''connect successfully''"
  shows "waited fd F ev s (False, say m n s1)"
proof (rule waited_fails)
  show "ran s (say m n s1) (tr @ [k]) [(m, n)]" using assms(1) by (simp add: ran_def)
qed (use assms in auto)

lemma waited_hello:
  assumes "said_hello fd (say ''connect successfully'' None s1) y" and "ran s s1 tr rep" and "ev (calls s @ tr)"
    and "C_close fd \<notin> set tr" and "success \<notin> set rep"
  shows "waited fd F ev s y"
proof -
  obtain tr' rep' where "\<not> fst y" and t: "ran (say ''connect successfully'' None s1) (snd y) (tr' @ [C_send fd hello]) rep'"
    "set tr' \<subseteq> {C_send fd hello, C_sleep 3}"
    using assms(1) unfolding said_hello_def by blast
  moreover have "ran s (snd y) (tr @ tr' @ [C_send fd hello]) (rep @ success # rep')"
    using ran_trans [OF ran_trans [OF assms(2) ran_say] t(1)] by simp
  ultimately show ?thesis using assms(3-) unfolding waited_def by blast
qed

lemma waited_more:
  assumes "waited fd F ev s1 y" and "ran s s1 tr rep" and "C_close fd \<notin> set tr" and "success \<notin> set rep"
  shows "waited fd F ev s y"
proof -
  obtain tr' rep' where w: "\<not> fst y" "C_close fd \<notin> set tr'" "success \<notin> set rep'"
    "(\<exists>k \<in> F \<union> {C_close fd}. ran s1 (snd y) (tr' @ [k]) rep')
       \<or> (\<exists>post rep''. ran s1 (snd y) (tr' @ post @ [C_send fd hello]) (rep' @ success # rep'') \<and> set post \<subseteq> {C_send fd hello, C_sleep 3}
           \<and> ev (calls s1 @ tr'))"
    using assms(1) unfolding waited_def by blast
  have e: "calls s1 @ tr' = calls s @ tr @ tr'" using assms(2) by (simp add: ran_def)
  show ?thesis
    unfolding waited_def using w(1-3) w(4) [unfolded e] assms(3,4) ran_trans [OF assms(2), of "snd y"]
    by (intro conjI exI [of _ "tr @ tr'"] exI [of _ "rep @ rep'"]) fastforce+
qed

text \<open>The common shape of the variants: \<open>fail\<close> is done when the flags cannot be set, \<open>wait\<close> while the connection is in progress.\<close>

definition connect_then :: "host \<Rightarrow> string \<Rightarrow> 16 word \<Rightarrow> (int \<Rightarrow> client_state \<Rightarrow> client_state)
    \<Rightarrow> (int \<Rightarrow> client_state \<Rightarrow> (bool \<times> client_state) option) \<Rightarrow> client_state \<Rightarrow> (bool \<times> client_state) option" where
  "connect_then h ip port fail wait s =
     (let (fd, s) = ask h C_socket s in
      if fd = -1 then Some (False, say ''create socket failed'' None s)
      else let (good, s) = set_nonblocking h fd s in
      if \<not> good then Some (False, fail fd s)
      else do {
        (left, s) \<leftarrow> connect_loop h fd (server_addr h ip port) s;
        case left of Some r \<Rightarrow> Some (r, s) | None \<Rightarrow> wait fd s })"

lemma waited_ways_out:
  assumes "waited fd F ev s y" and "C_close fd \<notin> F" and "C_send fd hello \<notin> F"
  shows "ways_out h fd a F ev s y"
  using assms(1)
proof (cases rule: waitedE)
  case (fails tr k rep)
  with assms(2,3) show ?thesis unfolding ways_out_def by (intro exI [of _ "tr @ [k]"] exI [of _ rep]) auto
next
  case (sends tr post rep rep')
  have "\<exists>pre post'. tr @ post @ [C_send fd hello] = pre @ post' \<and> set post' \<subseteq> {C_send fd hello, C_sleep 3} \<and> ev (calls s @ pre)"
    using sends by (intro exI [of _ tr] exI [of _ "post @ [C_send fd hello]"]) auto
  with sends show ?thesis unfolding ways_out_def
    by (intro exI [of _ "tr @ post @ [C_send fd hello]"] exI [of _ "rep @ success # rep'"]) auto
qed

text \<open>The loop around \<^verbatim>\<open>connect\<close> and what follows it, after the calls \<open>pre\<close>.\<close>

lemma connected_ways_out:
  assumes pre: "ran s s2 pre []" "C_close fd \<notin> set pre"
    and 4: "connect_loop h fd a s2 = Some (lf, s3)" and y3: "(case lf of Some r \<Rightarrow> Some (r, s3) | None \<Rightarrow> wait fd s3) = Some y"
    and wait: "errno s3 = EINPROGRESS \<Longrightarrow> wait fd s3 = Some y \<Longrightarrow> waited fd F ev s3 y"
    and F: "C_close fd \<notin> F" "C_send fd hello \<notin> F"
  shows "ways_out h fd a F ev s y"
proof -
  obtain n rep where n: "success \<notin> set rep" "case lf of
      Some True \<Rightarrow> ran s2 s3 (replicate n (C_connect fd a) @ [C_connect fd a]) (rep @ [success])
        \<and> fst (ans h (calls s2 @ replicate n (C_connect fd a)) (C_connect fd a)) = 0
    | Some False \<Rightarrow> ran s2 s3 (replicate n (C_connect fd a) @ [C_close fd]) rep
    | None \<Rightarrow> ran s2 s3 (replicate n (C_connect fd a)) rep \<and> errno s3 = EINPROGRESS"
    using connect_loop_ends [OF 4] unfolding left_connect_def fst_conv snd_conv by blast
  consider "lf = Some True" | "lf = Some False" | "lf = None" by (cases lf) auto
  then show ?thesis
  proof cases
    case 1
    define tr where "tr = pre @ replicate n (C_connect fd a)"
    have "C_close fd \<notin> set tr" using pre(2) by (auto simp: tr_def)
    moreover have "y = (True, s3)" "ran s s3 (tr @ [C_connect fd a]) (rep @ [success])"
      "fst (ans h (calls s @ tr) (C_connect fd a)) = 0"
      using 1 y3 n(2) pre(1) by (simp_all add: ran_def tr_def)
    ultimately show ?thesis unfolding ways_out_def
      by (intro exI [of _ "tr @ [C_connect fd a]"] exI [of _ "rep @ [success]"]) auto
  next
    case 2
    with y3 n(2) have yf: "y = (False, s3)" "ran s s3 ((pre @ replicate n (C_connect fd a)) @ [C_close fd]) rep"
      using ran_trans [OF pre(1)] by fastforce+
    with n(1) pre(2) have "waited fd F ev s y" unfolding yf(1) by (intro waited_fails [OF yf(2)]) auto
    then show ?thesis by (rule waited_ways_out [OF _ F])
  next
    case 3
    with y3 n(2) have "waited fd F ev s3 y" "ran s s3 (pre @ replicate n (C_connect fd a)) rep"
      using wait ran_trans [OF pre(1)] by fastforce+
    with n(1) pre(2) show ?thesis by (intro waited_ways_out [OF _ F] waited_more [of fd F ev s3 y s "pre @ replicate n (C_connect fd a)" rep]) auto
  qed
qed

lemma connect_then_ways_out:
  assumes y: "connect_then h ip port fail wait s = Some y" and fd: "fd = fst (ans h (calls s) C_socket)"
    and "C_socket \<in> F"
    and fail: "\<And>s1 s2 g. calls s1 = calls s @ [C_socket] \<Longrightarrow> set_nonblocking h fd s1 = (g, s2) \<Longrightarrow>
      \<exists>tr k rep. ran s1 (fail fd s2) (tr @ [k]) rep \<and> C_close fd \<notin> set tr \<and> success \<notin> set rep \<and> k \<in> F \<union> {C_close fd}"
    and wait: "\<And>s3. errno s3 = EINPROGRESS \<Longrightarrow> wait fd s3 = Some y \<Longrightarrow> waited fd F ev s3 y"
    and F: "C_close fd \<notin> F" "C_send fd hello \<notin> F"
  shows "ways_out h fd (server_addr h ip port) F ev s y"
proof -
  obtain d s1 where 1: "ask h C_socket s = (d, s1)" by fastforce
  have d: "d = fd" "calls s1 = calls s @ [C_socket]" using ask_cases(1,2) [OF 1] fd by simp_all
  obtain g s2 where 2: "set_nonblocking h fd s1 = (g, s2)" by fastforce
  have eq: "connect_then h ip port fail wait s = (if fd = -1 then Some (False, say ''create socket failed'' None s1) else if \<not> g then Some (False, fail fd s2)
      else Option.bind (connect_loop h fd (server_addr h ip port) s2) (\<lambda>(left, s). case left of Some r \<Rightarrow> Some (r, s) | None \<Rightarrow> wait fd s))"
    using 1 2 d(1) by (simp add: connect_then_def)
  consider "fd = -1" | "fd \<noteq> -1" "\<not> g" | "fd \<noteq> -1" g by blast
  then show ?thesis
  proof cases
    case 1
    with eq y have "y = (False, say ''create socket failed'' None s1)" by simp
    with ran_ask [OF \<open>ask h C_socket s = (d, s1)\<close>] assms(3) have "waited fd F ev s y" by (auto intro!: waited_says [of _ _ "[]"])
    then show ?thesis by (rule waited_ways_out [OF _ F])
  next
    case 2
    with eq y have yf: "y = (False, fail fd s2)" by simp
    obtain tr k rep where "ran s1 (fail fd s2) (tr @ [k]) rep" "C_close fd \<notin> set tr" "success \<notin> set rep" "k \<in> F \<union> {C_close fd}"
      using fail [OF d(2) \<open>set_nonblocking h fd s1 = (g, s2)\<close>] by blast
    with ran_trans [OF ran_ask [OF 1]] have "waited fd F ev s y" unfolding yf by (intro waited_fails [of s _ "C_socket # tr" k rep]) auto
    then show ?thesis by (rule waited_ways_out [OF _ F])
  next
    case 3
    then obtain lf s3 where 4: "connect_loop h fd (server_addr h ip port) s2 = Some (lf, s3)"
      and y3: "(case lf of Some r \<Rightarrow> Some (r, s3) | None \<Rightarrow> wait fd s3) = Some y"
      using y unfolding eq by (auto simp: bind_eq_Some_conv)
    obtain pre where pre: "ran s s2 pre []" "C_close fd \<notin> set pre"
      using ask_cases [OF 1] 2 by (auto simp: ran_def set_nonblocking_def ask_def case_prod_unfold Let_def)
    show ?thesis by (rule connected_ways_out [where wait = wait, OF pre 4 y3 wait F])
  qed
qed

text \<open>The waiting parts of the first and the third variant.\<close>

definition wait_select :: "host \<Rightarrow> int \<Rightarrow> int \<Rightarrow> client_state \<Rightarrow> (bool \<times> client_state) option" where
  "wait_select h timeout fd s =
     (let isset = stored h (calls s) (C_select fd True timeout);
          (ret, s) = ask h (C_select fd True timeout) s in
      if ret \<le> 0 then Some (False, close_fd h fd (say ''can not connect to server'' None s))
      else if isset \<noteq> 0 then
        (let error = stored h (calls s) (C_so_error fd);
             (ret, s) = ask h (C_so_error fd) s in
         if ret = -1 \<or> error \<noteq> 0 then Some (False, say ''getsockopt connect failed, errno: '' (Some (errno s)) s)
         else hello_loop h fd (say ''connect successfully'' None s))
      else Some (False, close_fd h fd (say ''can not connect to server, errno: '' (Some (errno s)) s)))"

definition wait_poll :: "host \<Rightarrow> int \<Rightarrow> int \<Rightarrow> client_state \<Rightarrow> (bool \<times> client_state) option" where
  "wait_poll h timeout fd s =
     (let revents = stored h (calls s) (C_poll fd (timeout * 1000));
          (ret, s) = ask h (C_poll fd (timeout * 1000)) s in
      if ret = 1 \<and> revents = POLLOUT then hello_loop h fd (say ''connect successfully'' None s)
      else Some (False, close_fd h fd (say ''can not connect to server, errno: '' (Some (errno s)) s)))"

lemma variants:
  "nonblockingConnect h ip port t = connect_then h ip port (\<lambda>fd s. close_fd h fd (say ''fcntl failed'' None s)) (wait_select h t)"
  "nonblockingConnect_v2 h ip port t = connect_then h ip port (\<lambda>fd s. close_fd h fd (say ''fcntl failed'' None s)) (\<lambda>fd. select_loop h fd (server_addr h ip port) t True)"
  "nonblockingConnect_v3 h ip port t = connect_then h ip port (\<lambda>fd. say ''fcntl failed'' None) (wait_poll h t)"
  unfolding nonblockingConnect_def nonblockingConnect_v2_def nonblockingConnect_v3_def connect_then_def
    wait_select_def wait_poll_def
  by (rule refl)+

text \<open>
  What a variant has seen when it reports success: \<^verbatim>\<open>SO_ERROR\<close> read as 0, a second \<^verbatim>\<open>connect\<close> answered with \<^verbatim>\<open>EISCONN\<close>,
  or \<^verbatim>\<open>poll\<close> with \<^verbatim>\<open>POLLOUT\<close> alone.
\<close>

definition no_error_stored :: "host \<Rightarrow> int \<Rightarrow> sockcall list \<Rightarrow> bool" where
  "no_error_stored h fd cs \<longleftrightarrow> (\<exists>tr. cs = tr @ [C_so_error fd] \<and> fst (ans h tr (C_so_error fd)) \<noteq> -1 \<and> stored h tr (C_so_error fd) = 0)"

definition is_connected :: "host \<Rightarrow> int \<Rightarrow> SOCKADDR_IN \<Rightarrow> sockcall list \<Rightarrow> bool" where
  "is_connected h fd a cs \<longleftrightarrow> (\<exists>tr. cs = tr @ [C_connect fd a] \<and> ans h tr (C_connect fd a) = (-1, EISCONN))"

definition is_writable :: "host \<Rightarrow> int \<Rightarrow> int \<Rightarrow> sockcall list \<Rightarrow> bool" where
  "is_writable h fd t cs \<longleftrightarrow> (\<exists>tr. cs = tr @ [C_poll fd t] \<and> fst (ans h tr (C_poll fd t)) = 1 \<and> stored h tr (C_poll fd t) = POLLOUT)"

lemma wait_select_ends:
  assumes "wait_select h t fd s = Some y"
  shows "waited fd {C_socket, C_so_error fd} (no_error_stored h fd) s y"
proof -
  obtain r s1 where 1: "ask h (C_select fd True t) s = (r, s1)" by fastforce
  obtain q s2 where 2: "ask h (C_so_error fd) s1 = (q, s2)" by fastforce
  note ran1 = ran_ask [OF 1] and ran2 = ran_trans [OF ran_ask [OF 1] ran_ask [OF 2]]
  consider m n where "y = (False, close_fd h fd (say m n s1))" "m \<noteq> ''connect successfully''"
    | n where "y = (False, say ''getsockopt connect failed, errno: '' n s2)"
    | "said_hello fd (say ''connect successfully'' None s2) y" "q \<noteq> -1" "stored h (calls s1) (C_so_error fd) = 0"
    using assms 1 2 hello_loop_ends [of h fd "say ''connect successfully'' None s2" y]
    by (fastforce simp: wait_select_def Let_def split: if_splits)
  then show ?thesis
  proof cases
    case (1 m n)
    with ran1 show ?thesis by (auto intro!: waited_closes)
  next
    case (2 n)
    with ran2 show ?thesis by (auto intro!: waited_says [of _ _ "[C_select fd True t]"])
  next
    case 3
    have "no_error_stored h fd (calls s @ [C_select fd True t, C_so_error fd])"
      using 3(2,3) ask_cases(1,2) [OF \<open>ask h (C_so_error fd) s1 = (q, s2)\<close>] ask_cases(1) [OF 1] by (auto simp: no_error_stored_def)
    with ran2 show ?thesis by (intro waited_hello [OF 3(1)]) auto
  qed
qed

lemma wait_poll_ends:
  assumes "wait_poll h t fd s = Some y"
  shows "waited fd F (is_writable h fd (t * 1000)) s y"
proof -
  obtain r s1 where 1: "ask h (C_poll fd (t * 1000)) s = (r, s1)" by fastforce
  consider n where "y = (False, close_fd h fd (say ''can not connect to server, errno: '' n s1))"
    | "said_hello fd (say ''connect successfully'' None s1) y" "r = 1" "stored h (calls s) (C_poll fd (t * 1000)) = POLLOUT"
    using assms 1 hello_loop_ends [of h fd "say ''connect successfully'' None s1" y] by (auto simp: wait_poll_def Let_def split: if_splits)
  then show ?thesis
  proof cases
    case (1 n)
    with ran_ask [OF \<open>ask _ _ s = _\<close>] show ?thesis by (auto intro!: waited_closes)
  next
    case 2
    have "is_writable h fd (t * 1000) (calls s @ [C_poll fd (t * 1000)])"
      using 2(2,3) ask_cases(2) [OF 1] by (auto simp: is_writable_def)
    with ran_ask [OF 1] show ?thesis by (intro waited_hello [OF 2(1)]) auto
  qed
qed

lemma select_loop_ends:
  assumes "select_loop h fd a t b s = Some y" and "errno s \<noteq> EISCONN"
  shows "waited fd F (is_connected h fd a) s y"
proof -
  have "errno s \<noteq> EISCONN \<longrightarrow> waited fd F (is_connected h fd a) s y"
  proof (rule select_loop.raw_induct [where P = "\<lambda>h fd a t b s y. errno s \<noteq> EISCONN \<longrightarrow> waited fd F (is_connected h fd a) s y",
        OF _ assms(1)], goal_cases)
    case (1 f h fd a t b s y)
    obtain n s1 where n: "ask h (C_select fd b t) s = (n, s1)" by fastforce
    obtain m s2 where m: "ask h (C_connect fd a) s1 = (m, s2)" by fastforce
    note ran1 = ran_ask [OF n] and ran2 = ran_trans [OF ran_ask [OF n] ran_ask [OF m]]
    let ?rep = "(''repet while, errno:'', Some (errno s2))"
    consider "y = (False, close_fd h fd (say ''can not connect to server'' None s1))"
      | "n > 0" "errno s2 = EISCONN" "said_hello fd (say ''connect successfully'' None s2) y"
      | "n > 0" "errno s2 \<noteq> EISCONN" "f h fd a t True (say ''repet while, errno:'' (Some (errno s2)) s2) = Some y"
      | "n > 0" "f h fd a t False s1 = Some y"
      using 1(2) n m hello_loop_ends [of h fd "say ''connect successfully'' None s2" y]
      by (fastforce simp: Let_def split: if_splits)
    then show ?case
    proof (cases, goal_cases)
      case 1
      with ran1 show ?case by (auto intro!: waited_closes)
    next
      case 2
      show ?case
      proof
        assume "errno s \<noteq> EISCONN"
        then have "ans h (calls s1) (C_connect fd a) = (-1, EISCONN)"
          using 2(1,2) ask_cases(2,3) [OF m] ask_cases(3) [OF n] by (auto simp: prod_eq_iff split: if_splits)
        then have "is_connected h fd a (calls s @ [C_select fd b t, C_connect fd a])"
          using ask_cases(1) [OF n] by (auto simp: is_connected_def)
        with ran2 show "waited fd F (is_connected h fd a) s y" by (intro waited_hello [OF 2(3)]) auto
      qed
    next
      case 3
      with 1(1) [OF 3(3)] have "waited fd F (is_connected h fd a) (say ''repet while, errno:'' (Some (errno s2)) s2) y" by simp
      with waited_more [OF _ ran_trans [OF ran2 ran_say]] show ?case by auto
    next
      case 4
      with 1(1) [OF 4(2)] ask_cases(3) [OF n] have "errno s \<noteq> EISCONN \<longrightarrow> waited fd F (is_connected h fd a) s1 y" by auto
      with waited_more [OF _ ran1] show ?case by auto
    qed
  qed
  with assms(2) show ?thesis by simp
qed

lemma set_nonblocking_ran:
  assumes "set_nonblocking h fd s = (good, s')"
  shows "ran s s' ([C_getfl fd] @ [C_setfl fd (fst (ans h (calls s) (C_getfl fd)) OR O_NONBLOCK)]) []"
  using assms by (auto simp: ran_def set_nonblocking_def ask_def case_prod_unfold Let_def)

lemma flags_failed_closed:
  assumes "set_nonblocking h fd s1 = (good, s2)"
  shows "\<exists>tr k rep. ran s1 (close_fd h fd (say ''fcntl failed'' None s2)) (tr @ [k]) rep \<and> C_close fd \<notin> set tr \<and> success \<notin> set rep
     \<and> k \<in> F \<union> {C_close fd}"
  using set_nonblocking_ran [OF assms]
  by (intro exI [of _ "[C_getfl fd, C_setfl fd (fst (ans h (calls s1) (C_getfl fd)) OR O_NONBLOCK)]"] exI [of _ "C_close fd"]
      exI [of _ "[(''fcntl failed'', None)]"]) (simp add: ran_def)

lemma flags_failed_open:
  assumes "set_nonblocking h fd s1 = (good, s2)" and "C_setfl fd (fst (ans h (calls s1) (C_getfl fd)) OR O_NONBLOCK) \<in> F"
  shows "\<exists>tr k rep. ran s1 (say ''fcntl failed'' None s2) (tr @ [k]) rep \<and> C_close fd \<notin> set tr \<and> success \<notin> set rep \<and> k \<in> F \<union> {C_close fd}"
  using set_nonblocking_ran [OF assms(1)] assms(2)
  by (intro exI [of _ "[C_getfl fd]"] exI [of _ "C_setfl fd (fst (ans h (calls s1) (C_getfl fd)) OR O_NONBLOCK)"]
      exI [of _ "[(''fcntl failed'', None)]"]) (simp add: ran_def)

section \<open>Properties\<close>

text \<open>
  C39. The ways out of the non-blocking connects, for every variant and every run that returns. Success is returned only
  directly after a \<^verbatim>\<open>connect\<close> to the requested address that was answered 0. ``connect successfully'' is reported then,
  and in the runs that go on to send and return failure when a \<^verbatim>\<open>send\<close> fails; before the sends the first variant has
  read \<^verbatim>\<open>SO_ERROR\<close> as 0, the second has had a further \<^verbatim>\<open>connect\<close> answered with \<^verbatim>\<open>EISCONN\<close>, and \<^verbatim>\<open>poll\<close> has told
  the third that the socket is writable and nothing else. Every other failure is not reported as success, and its last call
  is the failed \<^verbatim>\<open>socket\<close>, the \<^verbatim>\<open>close\<close> of the descriptor, the query of \<^verbatim>\<open>SO_ERROR\<close> (first variant) or the setting of
  the flags (third). The descriptor is closed as the last call or not at all: it is left open by success, by a failed \<^verbatim>\<open>send\<close>,
  and by the two last-named exits.
\<close>

theorem connect_ways_out:
  assumes "fd = fst (ans h (calls s) C_socket)" and "fl = fst (ans h (calls s @ [C_socket]) (C_getfl fd)) OR O_NONBLOCK"
  shows "(nonblockingConnect h ip port t s = Some y \<longrightarrow>
       ways_out h fd (server_addr h ip port) {C_socket, C_so_error fd} (no_error_stored h fd) s y)
   \<and> (nonblockingConnect_v2 h ip port t s = Some y \<longrightarrow>
       ways_out h fd (server_addr h ip port) {C_socket} (is_connected h fd (server_addr h ip port)) s y)
   \<and> (nonblockingConnect_v3 h ip port t s = Some y \<longrightarrow>
       ways_out h fd (server_addr h ip port) {C_socket, C_setfl fd fl} (is_writable h fd (t * 1000)) s y)"
  unfolding variants
proof (intro conjI impI; erule connect_then_ways_out [OF _ assms(1)])
qed ((erule flags_failed_closed) | (erule flags_failed_open, simp add: assms(2)) | (erule wait_select_ends) | (erule wait_poll_ends)
  | (erule select_loop_ends, simp add: EINPROGRESS_def EISCONN_def) | (simp; fail))+

text \<open>A host on which the first descriptor is 3; \<open>con\<close> answers \<^verbatim>\<open>connect\<close>, \<open>err\<close> is the stored \<^verbatim>\<open>SO_ERROR\<close>.\<close>

definition host3 :: "int \<times> int \<Rightarrow> int \<Rightarrow> host" where
  "host3 con err = \<lparr>ans = (\<lambda>tr k. case k of C_socket \<Rightarrow> (3, 0) | C_connect _ _ \<Rightarrow> con | C_select _ _ _ \<Rightarrow> (1, 0)
       | C_poll _ _ \<Rightarrow> (1, 0) | C_send _ _ \<Rightarrow> (-1, 32) | _ \<Rightarrow> (0, 0)),
     stored = (\<lambda>tr k. case k of C_select _ _ _ \<Rightarrow> 1 | C_so_error _ \<Rightarrow> err | _ \<Rightarrow> 0), inet_addr = (\<lambda>ip. (127, 0, 0, 1))\<rparr>"

lemmas connect_eval = fresh_client_def ask_def set_nonblocking_def close_fd_def host3_def EINTR_def EINPROGRESS_def Let_def

text \<open>A connect in progress that \<^verbatim>\<open>select\<close> reports writable and \<^verbatim>\<open>SO_ERROR\<close> finds well: the first \<^verbatim>\<open>send\<close> fails.\<close>

theorem connect_ways_out_witness:
  "\<exists>y. nonblockingConnect (host3 (-1, EINPROGRESS) 0) ''127.0.0.1'' 80 3 fresh_client = Some y \<and> \<not> fst y \<and> success \<in> set (printed (snd y))
     \<and> ways_out (host3 (-1, EINPROGRESS) 0) 3 (server_addr (host3 (-1, EINPROGRESS) 0) ''127.0.0.1'' 80) {C_socket, C_so_error 3}
         (no_error_stored (host3 (-1, EINPROGRESS) 0) 3) fresh_client y"
proof -
  obtain y where y: "nonblockingConnect (host3 (-1, EINPROGRESS) 0) ''127.0.0.1'' 80 3 fresh_client = Some y"
    "\<not> fst y" "success \<in> set (printed (snd y))"
    by (simp add: nonblockingConnect_def connect_loop.simps hello_loop.simps connect_eval)
  have "3 = fst (ans (host3 (-1, EINPROGRESS) 0) (calls fresh_client) C_socket)" by (simp add: host3_def)
  from connect_ways_out [OF this refl] y show ?thesis by blast
qed

text \<open>
  A refused connection leaks the descriptor in the first variant: when the connect is in progress,
  \<^verbatim>\<open>select\<close> reports the descriptor and \<^verbatim>\<open>SO_ERROR\<close> is not 0 (as for a refused connection), the function
  returns failure and no call it made closes the descriptor.
\<close>

theorem refused_connection_leaks:
  assumes "\<And>tr. fst (ans h tr C_socket) = fd" and "fd \<noteq> -1" and "\<And>tr fl. fst (ans h tr (C_setfl fd fl)) \<noteq> -1"
    and "\<And>tr a. ans h tr (C_connect fd a) = (-1, EINPROGRESS)" and "\<And>tr b. fst (ans h tr (C_select fd b t)) = 1"
    and "\<And>tr b. stored h tr (C_select fd b t) = 1" and "\<And>tr. stored h tr (C_so_error fd) \<noteq> 0"
  shows "\<exists>s'. nonblockingConnect h ip port t s = Some (False, s')
     \<and> (\<exists>tr. calls s' = calls s @ tr \<and> C_socket \<in> set tr \<and> (\<forall>d. C_close d \<notin> set tr))"
  using assms
  by (simp add: nonblockingConnect_def connect_loop.simps ask_def set_nonblocking_def case_prod_unfold Let_def EINTR_def EINPROGRESS_def)

theorem refused_connection_leaks_witness:
  "\<exists>s'. nonblockingConnect (host3 (-1, EINPROGRESS) 111) ''127.0.0.1'' 80 3 fresh_client = Some (False, s')
     \<and> (\<exists>tr. calls s' = calls fresh_client @ tr \<and> C_socket \<in> set tr \<and> (\<forall>d. C_close d \<notin> set tr))"
  by (rule refused_connection_leaks [where fd = 3]) (simp_all add: host3_def)

text \<open>
  An interrupted \<^verbatim>\<open>connect\<close> is repeated until it is decided, and the loop ends: after any number \<open>n\<close> of
  interruptions followed by an error other than ``in progress'', the loop has made \<open>n + 1\<close> calls of
  \<^verbatim>\<open>connect\<close>, has closed the descriptor and reports failure.
\<close>

theorem interrupted_connect_ends:
  assumes "\<forall>i < n. ans h (calls s @ replicate i (C_connect fd a)) (C_connect fd a) = (-1, EINTR)"
    and "ans h (calls s @ replicate n (C_connect fd a)) (C_connect fd a) = (-1, e)" and "e \<noteq> EINTR" and "e \<noteq> EINPROGRESS"
  shows "\<exists>s'. connect_loop h fd a s = Some (Some False, s')
     \<and> calls s' = calls s @ replicate (Suc n) (C_connect fd a) @ [C_close fd]"
  using assms(1,2)
proof (induction n arbitrary: s)
  case 0
  with assms(3,4) show ?case by (simp add: connect_loop.simps [of h fd a s] ask_def)
next
  case (Suc n)
  let ?s = "say ''signal interrupt'' None (s\<lparr>calls := calls s @ [C_connect fd a], errno := EINTR\<rparr>)"
  have "ans h (calls s) (C_connect fd a) = (-1, EINTR)" using Suc.prems(1) [rule_format, of 0] by simp
  then have "connect_loop h fd a s = connect_loop h fd a ?s" by (subst connect_loop.simps) (simp add: ask_def)
  moreover have "\<forall>i < n. ans h (calls ?s @ replicate i (C_connect fd a)) (C_connect fd a) = (-1, EINTR)"
    using Suc.prems(1) by auto
  moreover have "ans h (calls ?s @ replicate n (C_connect fd a)) (C_connect fd a) = (-1, e)"
    using Suc.prems(2) by simp
  ultimately show ?case using Suc.IH [of ?s] by auto
qed

text \<open>Two interruptions, then the connection is refused.\<close>

definition host_busy :: host where
  "host_busy = (host3 (-1, 111) 0)\<lparr>ans := (\<lambda>tr k. if length tr < 2 then (-1, EINTR) else (-1, 111))\<rparr>"

theorem interrupted_connect_ends_witness:
  "\<exists>s'. connect_loop host_busy 3 zero_addr fresh_client = Some (Some False, s')
     \<and> calls s' = calls fresh_client @ replicate (Suc 2) (C_connect 3 zero_addr) @ [C_close 3]"
  by (rule interrupted_connect_ends [where e = 111]) (simp_all add: fresh_client_def host_busy_def EINTR_def EINPROGRESS_def)

lemma select_times_calls:
  "\<exists>tr. calls (snd (select_times h fd a n s)) = calls s @ tr \<and> set tr \<subseteq> {C_select fd True 3, C_connect fd a}
     \<and> count_list tr (C_select fd True 3) \<le> n"
proof (induction n arbitrary: s)
  case (Suc n)
  obtain r s1 where 1: "ask h (C_select fd True 3) s = (r, s1)" by fastforce
  obtain q s2 where 2: "ask h (C_connect fd a) s1 = (q, s2)" by fastforce
  have step: "\<exists>tr. calls (snd (select_times h fd a n t)) = calls s @ tr \<and> set tr \<subseteq> {C_select fd True 3, C_connect fd a}
      \<and> count_list tr (C_select fd True 3) \<le> Suc n" if t: "calls t = calls s @ C_select fd True 3 # pre" "set pre \<subseteq> {C_connect fd a}" for t pre
  proof -
    obtain tr where "calls (snd (select_times h fd a n t)) = calls t @ tr" "set tr \<subseteq> {C_select fd True 3, C_connect fd a}"
      "count_list tr (C_select fd True 3) \<le> n" using Suc.IH by blast
    moreover have "count_list pre (C_select fd True 3) = 0" using t(2) by (auto simp: count_list_0_iff)
    ultimately show ?thesis using t by (intro exI [of _ "C_select fd True 3 # pre @ tr"]) auto
  qed
  have stop: "\<exists>tr. calls s @ C_select fd True 3 # pre = calls s @ tr \<and> set tr \<subseteq> {C_select fd True 3, C_connect fd a}
      \<and> count_list tr (C_select fd True 3) \<le> Suc n" if "set pre \<subseteq> {C_connect fd a}" for pre
  proof -
    have "count_list pre (C_select fd True 3) = 0" using that by (auto simp: count_list_0_iff)
    with that show ?thesis by (intro exI [of _ "C_select fd True 3 # pre"]) auto
  qed
  show ?case
    using 1 2 ask_cases(1) [OF 1] ask_cases(1) [OF 2] stop [of "[]"] stop [of "[C_connect fd a]"]
      step [of "say ''select time out'' None s1" "[]"] step [of s1 "[]"] step [of "say '' connect fail'' None s2" "[C_connect fd a]"]
    by (simp add: Let_def)
qed simp

text \<open>
  2_NonblockConnect.cpp gives up after at most five waits and does not leak: once the socket was
  created and made non-blocking, \<^verbatim>\<open>main\<close> returns 0, it calls \<^verbatim>\<open>select\<close> at most five times, and it closes
  the socket exactly once, as its last call.
\<close>

theorem bounded_connect_closes:
  assumes "fd = fst (ans h (calls s) C_socket)" and "fd \<noteq> -1"
    and "fst (set_nonblocking h fd (snd (ask h C_socket s)))"
  shows "\<exists>tr. fst (nonblock_main h s) = 0 \<and> calls (snd (nonblock_main h s)) = calls s @ tr @ [C_close fd]
     \<and> C_close fd \<notin> set tr \<and> count_list tr (C_select fd True 3) \<le> 5"
proof -
  obtain s1 where 1: "ask h C_socket s = (fd, s1)" using assms(1) by (auto simp: ask_def case_prod_unfold Let_def)
  obtain s2 where 2: "set_nonblocking h fd s1 = (True, s2)" using assms(3) 1 by (cases "set_nonblocking h fd s1") auto
  obtain fl where c2: "calls s2 = calls s1 @ [C_getfl fd, C_setfl fd fl]"
    using 2 by (auto simp: set_nonblocking_def ask_def case_prod_unfold Let_def)
  let ?a = "server_addr h ''127.0.0.1'' 9999"
  obtain r s3 where 3: "ask h (C_connect fd ?a) s2 = (r, s3)" by fastforce
  obtain tr where tr: "calls (snd (select_times h fd ?a 5 s3)) = calls s3 @ tr" "set tr \<subseteq> {C_select fd True 3, C_connect fd ?a}"
    "count_list tr (C_select fd True 3) \<le> 5" using select_times_calls by blast
  have main: "fst (nonblock_main h s) = 0"
    "calls (snd (nonblock_main h s)) = calls (if r = 0 \<or> errno s3 \<noteq> EINPROGRESS then s3 else snd (select_times h fd ?a 5 s3)) @ [C_close fd]"
    using 1 2 3 assms(2) by (simp_all add: nonblock_main_def Let_def case_prod_unfold)
  have c3: "calls s3 = calls s @ [C_socket, C_getfl fd, C_setfl fd fl, C_connect fd ?a]"
    using ask_cases(1) [OF 1] c2 ask_cases(1) [OF 3] by simp
  show ?thesis
  proof (cases "r = 0 \<or> errno s3 \<noteq> EINPROGRESS")
    case True
    with main c3 show ?thesis by (intro exI [of _ "[C_socket, C_getfl fd, C_setfl fd fl, C_connect fd ?a]"]) auto
  next
    case False
    with main c3 tr show ?thesis by (intro exI [of _ "[C_socket, C_getfl fd, C_setfl fd fl, C_connect fd ?a] @ tr"]) auto
  qed
qed

theorem bounded_connect_closes_witness:
  "\<exists>tr. fst (nonblock_main (host3 (-1, EINPROGRESS) 0) fresh_client) = 0
     \<and> calls (snd (nonblock_main (host3 (-1, EINPROGRESS) 0) fresh_client)) = calls fresh_client @ tr @ [C_close 3]
     \<and> C_close 3 \<notin> set tr \<and> count_list tr (C_select 3 True 3) \<le> 5"
  by (rule bounded_connect_closes) (simp_all add: host3_def set_nonblocking_def ask_def)

text \<open>
  The Windows variant goes on with a closed socket: when \<^verbatim>\<open>ioctlsocket\<close> fails, the socket is closed
  and \<^verbatim>\<open>connect\<close> is called on it right afterwards; and no run closes the socket in any other case, so
  every later failure leaks it.
\<close>

theorem win_connect_after_close:
  assumes "fd = fst (ans h (calls s) C_socket)" and "fd \<noteq> -1"
  shows "\<exists>tr. set tr \<subseteq> {C_select fd True t} \<and> calls (snd (win_nonblockingConnect h ip port t s)) = calls s @
     (if fst (ans h (calls s @ [C_socket]) (C_ioctl fd)) = -1
      then [C_socket, C_ioctl fd, C_close fd, C_connect fd (server_addr h ip port)]
      else [C_socket, C_ioctl fd, C_connect fd (server_addr h ip port)]) @ tr"
  using assms by (auto simp: win_nonblockingConnect_def ask_def close_fd_def case_prod_unfold Let_def)

theorem win_connect_after_close_witness:
  "\<exists>tr. set tr \<subseteq> {C_select 3 True 3} \<and> calls (snd (win_nonblockingConnect (host3 (-1, WSAEWOULDBLOCK) 0) ''127.0.0.1'' 80 3 fresh_client))
     = [C_socket, C_ioctl 3, C_connect 3 (server_addr (host3 (-1, WSAEWOULDBLOCK) 0) ''127.0.0.1'' 80)] @ tr"
  using win_connect_after_close [of 3 "host3 (-1, WSAEWOULDBLOCK) 0" "fresh_client" 3 "''127.0.0.1''" 80]
  by (simp add: host3_def fresh_client_def)

text \<open>
  The function without arguments asks for port 28695 of the address 0.0.0.0, on a socket it has not made.
\<close>

theorem win_connect_unset_call:
  "\<exists>a. calls (win_connect_unset h sock s) = calls s @ [C_connect sock a]
     \<and> fst (sin_port a) * 256 + snd (sin_port a) = 28695 \<and> sin_addr a = (0, 0, 0, 0)"
proof -
  have "atoi [] = 0" by (simp add: atoi_def)
  then show ?thesis by (simp add: win_connect_unset_def ask_def case_prod_unfold Let_def htonl_bytes_def byte_def)
qed

end
