(* ===== verification/EventEcho.thy ===== *)
theory EventEcho
  imports Net
begin

text \<open>
  AsynNotiEcho.cpp: an echo server on one thread that waits for events (\<^verbatim>\<open>WSAEventSelect\<close>). The sockets
  and their events stand at the same index of two arrays of 64 entries.

  The system is the parameter \<open>wsa\<close>: \<open>wans\<close> gives the value a call returns, \<open>wevents\<close> what
  \<^verbatim>\<open>WSAEnumNetworkEvents\<close> stores and \<open>wdata\<close> the bytes a \<^verbatim>\<open>recv\<close> stores, each given the calls made before.
  An access outside an array is \<open>None\<close>.
\<close>

section \<open>State\<close>

definition WSA_MAXIMUM_WAIT_EVENTS :: nat where
  "WSA_MAXIMUM_WAIT_EVENTS = 64"

definition WSA_WAIT_FAILED :: int where
  "WSA_WAIT_FAILED = -1"

definition WSA_WAIT_TIMEOUT :: int where
  "WSA_WAIT_TIMEOUT = 258"

definition AN_BUF_SIZE :: nat where
  "AN_BUF_SIZE = 100"

datatype wsacall =
    W_startup
  | W_socket
  | W_bind SOCKET SOCKADDR_IN
  | W_listen SOCKET
  | W_create_event
  | W_select_accept SOCKET HANDLE
  | W_select_stream SOCKET HANDLE
  | W_wait_any "HANDLE list"
  | W_wait HANDLE
  | W_enum SOCKET HANDLE
  | W_accept SOCKET
  | W_recv SOCKET nat
  | W_send SOCKET string int
  | W_close_event HANDLE
  | W_closesocket SOCKET

text \<open>The flags of \<^verbatim>\<open>WSANETWORKEVENTS\<close> the program looks at; an event is set with its error code.\<close>

record netevents =
  fd_accept :: "int option"
  fd_read :: "int option"
  fd_close :: "int option"

record wsa =
  wans :: "wsacall list \<Rightarrow> wsacall \<Rightarrow> int"
  wevents :: "wsacall list \<Rightarrow> SOCKET \<Rightarrow> netevents"
  wdata :: "wsacall list \<Rightarrow> SOCKET \<Rightarrow> string"

record noti_state =
  hSockArr :: "SOCKET list"
  hEventArr :: "HANDLE list"
  numofClntSock :: int
  wcalls :: "wsacall list"

definition wcall :: "wsa \<Rightarrow> wsacall \<Rightarrow> noti_state \<Rightarrow> int \<times> noti_state" where
  "wcall w k s = (wans w (wcalls s) k, s\<lparr>wcalls := wcalls s @ [k]\<rparr>)"

section \<open>The functions\<close>

function compress_from :: "'a list \<Rightarrow> int \<Rightarrow> int \<Rightarrow> 'a list option" where
  "compress_from arr i tot =
     (if i < tot then do {
        x \<leftarrow> arr_get arr (i + 1);
        arr \<leftarrow> arr_set arr i x;
        compress_from arr (i + 1) tot }
      else Some arr)"
  by pat_completeness auto
termination
  by (relation "measure (\<lambda>(arr, i, tot). nat (tot - i))") auto

declare compress_from.simps [simp del]

definition CompressSockets :: "SOCKET list \<Rightarrow> int \<Rightarrow> int \<Rightarrow> SOCKET list option" where
  "CompressSockets arr idx tot = compress_from arr idx tot"

definition CompressEvents :: "HANDLE list \<Rightarrow> int \<Rightarrow> int \<Rightarrow> HANDLE list option" where
  "CompressEvents arr idx tot = compress_from arr idx tot"

text \<open>How a part of the loop body ends: by \<^verbatim>\<open>exit\<close>, by \<^verbatim>\<open>break\<close>, or by going on.\<close>

datatype flow = Exit int | Break noti_state | Next noti_state

definition append_entry :: "SOCKET \<Rightarrow> HANDLE \<Rightarrow> noti_state \<Rightarrow> noti_state option" where
  "append_entry sock ev s = do {
     socks \<leftarrow> arr_set (hSockArr s) (numofClntSock s) sock;
     evs \<leftarrow> arr_set (hEventArr s) (numofClntSock s) ev;
     Some (s\<lparr>hSockArr := socks, hEventArr := evs, numofClntSock := numofClntSock s + 1\<rparr>) }"

definition on_accept :: "wsa \<Rightarrow> netevents \<Rightarrow> int \<Rightarrow> noti_state \<Rightarrow> flow option" where
  "on_accept w ne i s = (case fd_accept ne of
      None \<Rightarrow> Some (Next s)
    | Some err \<Rightarrow>
        if err \<noteq> 0 then Some (Break s)
        else do {
          sock \<leftarrow> arr_get (hSockArr s) i;
          let (c, s) = wcall w (W_accept sock) s;
          let (ev, s) = wcall w W_create_event s;
          let (ret, s) = wcall w (W_select_stream (word_of_int c) (word_of_int ev)) s;
          if ret = SOCKET_ERROR then Some (Exit 1)
          else do {
            s \<leftarrow> append_entry (word_of_int c) (word_of_int ev) s;
            Some (Next s) } })"

text \<open>\<^verbatim>\<open>msg\<close> is zeroed before the bytes are received; the returned length is passed on to \<^verbatim>\<open>send\<close>.\<close>

definition on_read :: "wsa \<Rightarrow> netevents \<Rightarrow> int \<Rightarrow> noti_state \<Rightarrow> flow option" where
  "on_read w ne i s = (case fd_read ne of
      None \<Rightarrow> Some (Next s)
    | Some err \<Rightarrow>
        if err \<noteq> 0 then Some (Break s)
        else do {
          sock \<leftarrow> arr_get (hSockArr s) i;
          let msg = splice (replicate AN_BUF_SIZE NUL) 0 (take (AN_BUF_SIZE - 1) (wdata w (wcalls s) sock));
          let (strLen, s) = wcall w (W_recv sock (AN_BUF_SIZE - 1)) s;
          let (_, s) = wcall w (W_send sock msg strLen) s;
          Some (Next s) })"

definition on_close :: "wsa \<Rightarrow> netevents \<Rightarrow> int \<Rightarrow> noti_state \<Rightarrow> flow option" where
  "on_close w ne i s = (case fd_close ne of
      None \<Rightarrow> Some (Next s)
    | Some err \<Rightarrow>
        if err \<noteq> 0 then Some (Break s)
        else do {
          ev \<leftarrow> arr_get (hEventArr s) i;
          let (_, s) = wcall w (W_close_event ev) s;
          sock \<leftarrow> arr_get (hSockArr s) i;
          let (_, s) = wcall w (W_closesocket sock) s;
          let n = numofClntSock s - 1;
          socks \<leftarrow> CompressSockets (hSockArr s) i n;
          evs \<leftarrow> CompressEvents (hEventArr s) i n;
          Some (Next (s\<lparr>hSockArr := socks, hEventArr := evs, numofClntSock := n\<rparr>)) })"

definition on_event :: "wsa \<Rightarrow> int \<Rightarrow> noti_state \<Rightarrow> flow option" where
  "on_event w i s = do {
     sock \<leftarrow> arr_get (hSockArr s) i;
     ev \<leftarrow> arr_get (hEventArr s) i;
     let ne = wevents w (wcalls s) sock;
     let (_, s) = wcall w (W_enum sock ev) s;
     f \<leftarrow> on_accept w ne i s;
     case f of
       Next s \<Rightarrow> do {
         f \<leftarrow> on_read w ne i s;
         case f of Next s \<Rightarrow> on_close w ne i s | f \<Rightarrow> Some f }
     | f \<Rightarrow> Some f }"

text \<open>The \<^verbatim>\<open>for\<close> loop over the events; the result is the exit code or the state after the loop.\<close>

partial_function (option) scan_events :: "wsa \<Rightarrow> int \<Rightarrow> noti_state \<Rightarrow> (int + noti_state) option" where
  "scan_events w i s =
     (if i < numofClntSock s then do {
        ev \<leftarrow> arr_get (hEventArr s) i;
        let (sig, s) = wcall w (W_wait ev) s;
        if sig = WSA_WAIT_FAILED \<or> sig = WSA_WAIT_TIMEOUT then scan_events w (i + 1) s
        else do {
          f \<leftarrow> on_event w i s;
          case f of
            Exit c \<Rightarrow> Some (Inl c)
          | Break s \<Rightarrow> Some (Inr s)
          | Next s \<Rightarrow> scan_events w (i + 1) s } }
      else Some (Inr s))"

declare scan_events.simps [code]

definition noti_round :: "wsa \<Rightarrow> noti_state \<Rightarrow> (int + noti_state) option" where
  "noti_round w s =
     (let (posInfo, s) = wcall w (W_wait_any (take (nat (numofClntSock s)) (hEventArr s))) s
      in scan_events w posInfo s)"

text \<open>\<^verbatim>\<open>main\<close> up to its loop; a socket of an earlier failure is not checked.\<close>

definition noti_start :: "wsa \<Rightarrow> string list \<Rightarrow> int + noti_state" where
  "noti_start w argv =
     (let s = \<lparr>hSockArr = replicate WSA_MAXIMUM_WAIT_EVENTS 0, hEventArr = replicate WSA_MAXIMUM_WAIT_EVENTS 0,
               numofClntSock = 0, wcalls = []\<rparr> in
      if length argv \<noteq> 2 then Inl 1
      else let (ret, s) = wcall w W_startup s in
      if ret \<noteq> 0 then Inl 1
      else let (sock, s) = wcall w W_socket s;
               a = \<lparr>sin_family = AF_INET, sin_port = htons (word_of_int (atoi (argv ! 1))), sin_addr = (0, 0, 0, 0)\<rparr>;
               (ret, s) = wcall w (W_bind (word_of_int sock) a) s in
      if ret = SOCKET_ERROR then Inl 1
      else let (ret, s) = wcall w (W_listen (word_of_int sock)) s in
      if ret = SOCKET_ERROR then Inl 1
      else let (ev, s) = wcall w W_create_event s;
               (ret, s) = wcall w (W_select_accept (word_of_int sock) (word_of_int ev)) s in
      if ret = SOCKET_ERROR then Inl 1
      else Inr (s\<lparr>hSockArr := (hSockArr s)[0 := word_of_int sock], hEventArr := (hEventArr s)[0 := word_of_int ev],
                  numofClntSock := 1\<rparr>))"

text \<open>
  The states before a wait that the server reaches; \<open>None\<close> is a round that has left the arrays.
\<close>

inductive noti_reach :: "wsa \<Rightarrow> string list \<Rightarrow> noti_state option \<Rightarrow> bool" for w argv where
  noti_start: "noti_start w argv = Inr s \<Longrightarrow> noti_reach w argv (Some s)"
| noti_step: "noti_reach w argv (Some s) \<Longrightarrow> noti_round w s = Some (Inr s') \<Longrightarrow> noti_reach w argv (Some s')"
| noti_fault: "noti_reach w argv (Some s) \<Longrightarrow> noti_round w s = None \<Longrightarrow> noti_reach w argv None"

inductive_cases noti_reach_NoneE: "noti_reach w argv None"

text \<open>One turn of the \<^verbatim>\<open>for\<close> loop that goes on to the next index, and the turns the server comes to.\<close>

inductive loop_turn :: "wsa \<Rightarrow> int \<times> noti_state \<Rightarrow> int \<times> noti_state \<Rightarrow> bool" for w where
  loop_turn: "i < numofClntSock s \<Longrightarrow> arr_get (hEventArr s) i = Some ev \<Longrightarrow> wcall w (W_wait ev) s = (sig, s1) \<Longrightarrow>
    (if sig = WSA_WAIT_FAILED \<or> sig = WSA_WAIT_TIMEOUT then s2 = s1 else on_event w i s1 = Some (Next s2)) \<Longrightarrow>
    loop_turn w (i, s) (i + 1, s2)"

definition first_turn :: "wsa \<Rightarrow> noti_state \<Rightarrow> int \<times> noti_state" where
  "first_turn w s = wcall w (W_wait_any (take (nat (numofClntSock s)) (hEventArr s))) s"

definition noti_at :: "wsa \<Rightarrow> string list \<Rightarrow> int \<Rightarrow> noti_state \<Rightarrow> bool" where
  "noti_at w argv i s \<longleftrightarrow> (\<exists>s0. noti_reach w argv (Some s0) \<and> rtranclp (loop_turn w) (first_turn w s0) (i, s))"

text \<open>The turn at index \<open>i\<close> finds a new connection and comes to enter it into the table.\<close>

definition new_client :: "wsa \<Rightarrow> int \<Rightarrow> noti_state \<Rightarrow> bool" where
  "new_client w i s =
     (let sock = hSockArr s ! nat i; ev = hEventArr s ! nat i;
          (sig, s) = wcall w (W_wait ev) s;
          ne = wevents w (wcalls s) sock;
          (_, s) = wcall w (W_enum sock ev) s;
          (c, s) = wcall w (W_accept sock) s;
          (h, s) = wcall w W_create_event s
      in sig \<notin> {WSA_WAIT_FAILED, WSA_WAIT_TIMEOUT} \<and> fd_accept ne = Some 0
         \<and> fst (wcall w (W_select_stream (word_of_int c) (word_of_int h)) s) \<noteq> SOCKET_ERROR)"

section \<open>The arrays\<close>

text \<open>Compressing takes the entry at \<open>idx\<close> out of the first \<open>tot + 1\<close> entries and leaves the rest alone.\<close>

lemma compress_from_ok:
  assumes "0 \<le> i" and "i \<le> tot" and "tot < int (length arr)"
  shows "\<exists>arr'. compress_from arr i tot = Some arr' \<and> length arr' = length arr
     \<and> take (nat tot) arr' = take (nat i) arr @ drop (Suc (nat i)) (take (Suc (nat tot)) arr)
     \<and> drop (nat tot) arr' = drop (nat tot) arr"
  using assms
proof (induction arr i tot rule: compress_from.induct)
  case (1 arr i tot)
  show ?case
  proof (cases "i < tot")
    case False
    with 1(2-4) have "i = tot" by simp
    then show ?thesis using 1(2-4) by (simp add: compress_from.simps)
  next
    case True
    let ?arr = "arr[nat i := arr ! nat (i + 1)]"
    have s: "nat (i + 1) = Suc (nat i)" using 1(2) by simp
    have get: "arr_get arr (i + 1) = Some (arr ! nat (i + 1))" and set: "arr_set arr i (arr ! nat (i + 1)) = Some ?arr"
      using 1(2-4) True by (auto simp: arr_get_def arr_set_def)
    obtain arr' where 2: "compress_from ?arr (i + 1) tot = Some arr'" "length arr' = length arr"
      "take (nat tot) arr' = take (Suc (nat i)) ?arr @ drop (Suc (Suc (nat i))) (take (Suc (nat tot)) ?arr)"
      "drop (nat tot) arr' = drop (nat tot) ?arr"
      using 1(1) [OF True get set] 1(2-4) True s by auto
    have i: "nat i < nat tot" "Suc (nat tot) \<le> length arr" using True 1(2,4) by auto
    have "take (Suc (nat i)) ?arr = take (nat i) arr @ [arr ! Suc (nat i)]"
    proof -
      have "nat i < length arr" using i by linarith
      then show ?thesis by (simp add: s take_Suc_conv_app_nth)
    qed
    moreover have "drop (Suc (nat i)) (take (Suc (nat tot)) arr)
        = arr ! Suc (nat i) # drop (Suc (Suc (nat i))) (take (Suc (nat tot)) arr)"
      using i by (subst Cons_nth_drop_Suc [symmetric]) auto
    moreover have "drop (Suc (Suc (nat i))) (take (Suc (nat tot)) ?arr) = drop (Suc (Suc (nat i))) (take (Suc (nat tot)) arr)"
      "drop (nat tot) ?arr = drop (nat tot) arr"
      using i by (simp_all add: take_update_swap)
    ultimately show ?thesis using 2 True get set by (simp add: compress_from.simps [of arr i tot])
  qed
qed

section \<open>Sockets and events stay in step\<close>

definition entries :: "noti_state \<Rightarrow> (SOCKET \<times> HANDLE) list" where
  "entries s = zip (take (nat (numofClntSock s)) (hSockArr s)) (take (nat (numofClntSock s)) (hEventArr s))"

definition registered :: "noti_state \<Rightarrow> (SOCKET \<times> HANDLE) set" where
  "registered s = {(sock, ev). W_select_accept sock ev \<in> set (wcalls s) \<or> W_select_stream sock ev \<in> set (wcalls s)}"

definition in_step :: "noti_state \<Rightarrow> bool" where
  "in_step s \<longleftrightarrow> length (hSockArr s) = WSA_MAXIMUM_WAIT_EVENTS \<and> length (hEventArr s) = WSA_MAXIMUM_WAIT_EVENTS
     \<and> 0 \<le> numofClntSock s \<and> numofClntSock s \<le> int WSA_MAXIMUM_WAIT_EVENTS \<and> set (entries s) \<subseteq> registered s"

lemma wcall_fields [simp]:
  "hSockArr (snd (wcall w k s)) = hSockArr s" "hEventArr (snd (wcall w k s)) = hEventArr s"
  "numofClntSock (snd (wcall w k s)) = numofClntSock s" "wcalls (snd (wcall w k s)) = wcalls s @ [k]"
  "fst (wcall w k s) = wans w (wcalls s) k"
  by (simp_all add: wcall_def)

lemma in_step_wcall [simp]: "in_step s \<Longrightarrow> in_step (snd (wcall w k s))"
  by (auto simp: in_step_def entries_def registered_def)

lemma append_entry_in_step:
  assumes "in_step s" and "append_entry sock ev s = Some s'" and "(sock, ev) \<in> registered s"
  shows "in_step s' \<and> numofClntSock s' = numofClntSock s + 1"
proof -
  from assms(1,2) have n: "nat (numofClntSock s) < WSA_MAXIMUM_WAIT_EVENTS" "nat (numofClntSock s + 1) = Suc (nat (numofClntSock s))"
    by (auto simp: append_entry_def arr_set_def in_step_def bind_eq_Some_conv split: if_splits)
  have "entries s' = entries s @ [(sock, ev)]" "registered s' = registered s" "numofClntSock s' = numofClntSock s + 1"
    "length (hSockArr s') = WSA_MAXIMUM_WAIT_EVENTS" "length (hEventArr s') = WSA_MAXIMUM_WAIT_EVENTS"
    using assms(1,2) n
    by (auto simp: append_entry_def arr_set_def in_step_def entries_def registered_def bind_eq_Some_conv take_Suc_conv_app_nth
        split: if_splits)
  with assms(1,3) n show ?thesis by (auto simp: in_step_def)
qed

text \<open>A part of the body keeps the tables in step and does not shorten them below an index in use.\<close>

definition keeps_step :: "int \<Rightarrow> flow option \<Rightarrow> bool" where
  "keeps_step i r = (case r of Some (Next s) \<Rightarrow> in_step s \<and> i < numofClntSock s | Some (Break s) \<Rightarrow> in_step s | _ \<Rightarrow> True)"

lemma on_accept_keeps:
  assumes "in_step s" and "i < numofClntSock s"
  shows "keeps_step i (on_accept w ne i s)"
proof (cases "fd_accept ne")
  case (Some err)
  show ?thesis
  proof (cases "arr_get (hSockArr s) i")
    case None
    with Some assms show ?thesis by (auto simp: on_accept_def keeps_step_def)
  next
    case sock: (Some sock)
    define s1 where "s1 = snd (wcall w (W_accept sock) s)"
    define s2 where "s2 = snd (wcall w W_create_event s1)"
    define c where "c = (word_of_int (fst (wcall w (W_accept sock) s)) :: SOCKET)"
    define ev where "ev = (word_of_int (fst (wcall w W_create_event s1)) :: HANDLE)"
    define s3 where "s3 = snd (wcall w (W_select_stream c ev) s2)"
    have 3: "in_step s3" "numofClntSock s3 = numofClntSock s" "(c, ev) \<in> registered s3"
      using assms(1) by (auto simp: s1_def s2_def s3_def registered_def)
    have "on_accept w ne i s = (if err \<noteq> 0 then Some (Break s)
        else if fst (wcall w (W_select_stream c ev) s2) = SOCKET_ERROR then Some (Exit 1)
        else map_option Next (append_entry c ev s3))"
      using Some sock
      by (simp add: on_accept_def case_prod_unfold Let_def s1_def s2_def s3_def c_def ev_def map_conv_bind_option comp_def)
    with assms 3 append_entry_in_step [OF 3(1) _ 3(3)] show ?thesis
      by (auto simp: keeps_step_def split: option.splits)
  qed
qed (use assms in \<open>simp add: on_accept_def keeps_step_def\<close>)

lemma on_read_keeps:
  assumes "in_step s" and "i < numofClntSock s"
  shows "keeps_step i (on_read w ne i s)"
  using assms
  by (auto simp: on_read_def keeps_step_def case_prod_unfold Let_def split: option.splits bind_splits)

lemma zip_drop_one:
  "i < length xs \<Longrightarrow> length xs = length ys \<Longrightarrow>
   set (zip (take i xs @ drop (Suc i) xs) (take i ys @ drop (Suc i) ys)) \<subseteq> set (zip xs ys)"
  by (auto simp: zip_append take_zip [symmetric] drop_zip [symmetric] dest: in_set_takeD in_set_dropD)

lemma on_close_keeps:
  assumes "in_step s" and "0 \<le> i" and "i < numofClntSock s"
  shows "case on_close w ne i s of Some (Next s') \<Rightarrow> in_step s' | Some (Break s') \<Rightarrow> in_step s' | Some (Exit c) \<Rightarrow> False | None \<Rightarrow> False"
proof (cases "fd_close ne")
  case None
  with assms show ?thesis by (simp add: on_close_def)
next
  case (Some err)
  have len: "length (hSockArr s) = WSA_MAXIMUM_WAIT_EVENTS" "length (hEventArr s) = WSA_MAXIMUM_WAIT_EVENTS"
    "numofClntSock s \<le> int WSA_MAXIMUM_WAIT_EVENTS" using assms(1) by (auto simp: in_step_def)
  let ?n = "numofClntSock s - 1"
  have n: "Suc (nat ?n) = nat (numofClntSock s)" using assms(2,3) by simp
  obtain socks where s1: "compress_from (hSockArr s) i ?n = Some socks" "length socks = WSA_MAXIMUM_WAIT_EVENTS"
    "take (nat ?n) socks = take (nat i) (hSockArr s) @ drop (Suc (nat i)) (take (Suc (nat ?n)) (hSockArr s))"
    using compress_from_ok [of i ?n "hSockArr s"] assms len by auto
  obtain evs where e1: "compress_from (hEventArr s) i ?n = Some evs" "length evs = WSA_MAXIMUM_WAIT_EVENTS"
    "take (nat ?n) evs = take (nat i) (hEventArr s) @ drop (Suc (nat i)) (take (Suc (nat ?n)) (hEventArr s))"
    using compress_from_ok [of i ?n "hEventArr s"] assms len by auto
  obtain sock ev where ge: "arr_get (hSockArr s) i = Some sock" "arr_get (hEventArr s) i = Some ev"
    using assms len by (simp add: arr_get_def)
  let ?s = "s\<lparr>wcalls := wcalls s @ [W_close_event ev, W_closesocket sock], hSockArr := socks, hEventArr := evs, numofClntSock := ?n\<rparr>"
  have oc: "on_close w ne i s = (if err \<noteq> 0 then Some (Break s) else Some (Next ?s))"
    using Some ge s1(1) e1(1) by (simp add: on_close_def wcall_def CompressSockets_def CompressEvents_def)
  let ?xs = "take (nat (numofClntSock s)) (hSockArr s)" and ?ys = "take (nat (numofClntSock s)) (hEventArr s)"
  have e: "entries ?s = zip (take (nat i) ?xs @ drop (Suc (nat i)) ?xs) (take (nat i) ?ys @ drop (Suc (nat i)) ?ys)"
    using s1(3) e1(3) n assms(3) by (simp add: entries_def min_absorb2)
  have "nat i < length ?xs" "length ?xs = length ?ys" using assms len by auto
  from zip_drop_one [OF this] have "set (entries ?s) \<subseteq> set (entries s)" unfolding e entries_def [of s] .
  then have "in_step ?s" using assms s1(2) e1(2) len by (auto simp: in_step_def registered_def)
  with oc assms(1) show ?thesis by simp
qed

lemma on_event_keeps:
  assumes "in_step s" and "0 \<le> i" and "i < numofClntSock s"
  shows "case on_event w i s of Some (Next s') \<Rightarrow> in_step s' | Some (Break s') \<Rightarrow> in_step s' | _ \<Rightarrow> True"
proof -
  obtain sock ev where ge: "arr_get (hSockArr s) i = Some sock" "arr_get (hEventArr s) i = Some ev"
    using assms by (auto simp: arr_get_def in_step_def)
  define ne where "ne = wevents w (wcalls s) sock"
  define s1 where "s1 = snd (wcall w (W_enum sock ev) s)"
  have s1: "in_step s1" "i < numofClntSock s1" using assms by (simp_all add: s1_def)
  have oe: "on_event w i s = Option.bind (on_accept w ne i s1) (\<lambda>f. case f of
      Next s \<Rightarrow> Option.bind (on_read w ne i s) (\<lambda>f. case f of Next s \<Rightarrow> on_close w ne i s | f \<Rightarrow> Some f) | f \<Rightarrow> Some f)"
    unfolding on_event_def ne_def s1_def using ge by (simp add: case_prod_unfold Let_def)
  show ?thesis
  proof (cases "on_accept w ne i s1")
    case (Some f1)
    show ?thesis
    proof (cases f1)
      case (Next s2)
      with on_accept_keeps [OF s1, of w ne] Some have s2: "in_step s2" "i < numofClntSock s2" by (simp_all add: keeps_step_def)
      show ?thesis
      proof (cases "on_read w ne i s2")
        case rd: (Some f2)
        show ?thesis
        proof (cases f2)
          case n3: (Next s3)
          with on_read_keeps [OF s2, of w ne] rd have "in_step s3" "i < numofClntSock s3" by (simp_all add: keeps_step_def)
          from on_close_keeps [OF this(1) assms(2) this(2), of w ne] Some Next rd n3 oe show ?thesis
            by (auto split: option.splits flow.splits)
        qed (use on_read_keeps [OF s2, of w ne] Some Next rd oe in \<open>simp_all add: keeps_step_def\<close>)
      qed (use Some Next oe in simp)
    qed (use on_accept_keeps [OF s1, of w ne] Some oe in \<open>simp_all add: keeps_step_def\<close>)
  qed (use oe in simp)
qed

lemma scan_events_keeps:
  assumes "scan_events w i s = Some y" and "in_step s"
  shows "case y of Inr s' \<Rightarrow> in_step s' | Inl c \<Rightarrow> True"
proof -
  have "in_step s \<longrightarrow> (case y of Inr s' \<Rightarrow> in_step s' | Inl c \<Rightarrow> True)"
  proof (rule scan_events.raw_induct [where P = "\<lambda>w i s y. in_step s \<longrightarrow> (case y of Inr s' \<Rightarrow> in_step s' | Inl c \<Rightarrow> True)",
        OF _ assms(1)], goal_cases)
    case (1 f w i s y)
    show ?case
    proof
      assume st: "in_step s"
      show "case y of Inr s' \<Rightarrow> in_step s' | Inl c \<Rightarrow> True"
      proof (cases "i < numofClntSock s")
        case True
        with 1(2) obtain ev where ev: "arr_get (hEventArr s) i = Some ev" by (auto simp: bind_eq_Some_conv)
        then have i0: "0 \<le> i" by (simp add: arr_get_def split: if_splits)
        define s1 where "s1 = snd (wcall w (W_wait ev) s)"
        have s1: "in_step s1" "i < numofClntSock s1" using st True by (simp_all add: s1_def)
        have y: "(if fst (wcall w (W_wait ev) s) = WSA_WAIT_FAILED \<or> fst (wcall w (W_wait ev) s) = WSA_WAIT_TIMEOUT then f w (i + 1) s1
           else Option.bind (on_event w i s1) (\<lambda>r. case r of Exit c \<Rightarrow> Some (Inl c) | Break s \<Rightarrow> Some (Inr s) | Next s \<Rightarrow> f w (i + 1) s)) = Some y"
          using 1(2) True ev unfolding s1_def by (simp add: case_prod_unfold Let_def)
        show ?thesis
        proof (cases "on_event w i s1")
          case None
          with y 1(1) [of w "i + 1" s1 y] s1 show ?thesis by (auto split: if_splits)
        next
          case (Some r)
          with y 1(1) [of w "i + 1" s1 y] 1(1) [of w "i + 1" _ y] s1 on_event_keeps [OF s1(1) i0 s1(2), of w] show ?thesis
            by (cases r) (auto split: if_splits)
        qed
      qed (use 1(2) st in auto)
    qed
  qed
  with assms(2) show ?thesis by simp
qed

text \<open>Without new connections an event is handled without fault, and the table does not grow.\<close>

definition shrinks :: "noti_state \<Rightarrow> flow option \<Rightarrow> bool" where
  "shrinks s r = (case r of Some (Next s') \<Rightarrow> in_step s' \<and> numofClntSock s' \<le> numofClntSock s | Some _ \<Rightarrow> True | None \<Rightarrow> False)"

lemma on_event_shrinks:
  assumes "in_step s" and "0 \<le> i" and "i < numofClntSock s" and no: "\<And>tr sock. fd_accept (wevents w tr sock) = None"
  shows "shrinks s (on_event w i s)"
proof -
  obtain sock ev where ge: "arr_get (hSockArr s) i = Some sock" "arr_get (hEventArr s) i = Some ev"
    using assms by (auto simp: arr_get_def in_step_def)
  define ne where "ne = wevents w (wcalls s) sock"
  define s1 where "s1 = snd (wcall w (W_enum sock ev) s)"
  have s1: "in_step s1" "i < numofClntSock s1" "numofClntSock s1 = numofClntSock s" "arr_get (hSockArr s1) i = Some sock"
    using assms ge by (simp_all add: s1_def)
  have oe: "on_event w i s = Option.bind (on_read w ne i s1) (\<lambda>f. case f of Next s \<Rightarrow> on_close w ne i s | f \<Rightarrow> Some f)"
    unfolding on_event_def ne_def s1_def using ge no by (simp add: case_prod_unfold Let_def on_accept_def)
  obtain f where f: "on_read w ne i s1 = Some f" "f = Break s1 \<or> (\<exists>s2. f = Next s2 \<and> numofClntSock s2 = numofClntSock s)"
    using s1(3,4) by (cases "fd_read ne"; cases "fd_read ne = Some 0") (auto simp: on_read_def wcall_def Let_def)
  show ?thesis
  proof (cases f)
    case (Next s2)
    with f s1 on_read_keeps [OF s1(1,2), of w ne] have s2: "in_step s2" "i < numofClntSock s2" "numofClntSock s2 = numofClntSock s"
      by (auto simp: keeps_step_def)
    have "shrinks s (on_close w ne i s2)"
      using on_close_keeps [OF s2(1) assms(2) s2(2), of w ne] s2(3)
      by (auto simp: shrinks_def on_close_def wcall_def Let_def bind_eq_Some_conv split: option.splits flow.splits if_splits)
    with oe f Next show ?thesis by simp
  qed (use oe f in \<open>auto simp: shrinks_def\<close>)
qed

lemma scan_events_ends:
  assumes "in_step s" and "0 \<le> i" and no: "\<And>tr sock. fd_accept (wevents w tr sock) = None"
  shows "\<exists>r. scan_events w i s = Some r"
  using assms(1,2)
proof (induction "nat (numofClntSock s - i)" arbitrary: i s rule: less_induct)
  case less
  show ?case
  proof (cases "i < numofClntSock s")
    case True
    with less.prems obtain ev where ev: "arr_get (hEventArr s) i = Some ev" by (auto simp: arr_get_def in_step_def)
    define s1 where "s1 = snd (wcall w (W_wait ev) s)"
    have s1: "in_step s1" "numofClntSock s1 = numofClntSock s" using less.prems by (simp_all add: s1_def)
    have eq: "scan_events w i s = (if fst (wcall w (W_wait ev) s) = WSA_WAIT_FAILED \<or> fst (wcall w (W_wait ev) s) = WSA_WAIT_TIMEOUT
         then scan_events w (i + 1) s1
         else Option.bind (on_event w i s1) (\<lambda>r. case r of Exit c \<Rightarrow> Some (Inl c) | Break s \<Rightarrow> Some (Inr s) | Next s \<Rightarrow> scan_events w (i + 1) s))"
      using True ev unfolding s1_def by (subst scan_events.simps) (simp add: case_prod_unfold Let_def)
    have IH: "\<exists>r. scan_events w (i + 1) t = Some r" if "in_step t" "numofClntSock t \<le> numofClntSock s" for t
      using less.hyps [of t "i + 1"] that less.prems True by auto
    have "shrinks s1 (on_event w i s1)" using on_event_shrinks [OF s1(1) less.prems(2) _ no] True s1(2) by simp
    then obtain r where "on_event w i s1 = Some r" "\<And>t. r = Next t \<Longrightarrow> in_step t \<and> numofClntSock t \<le> numofClntSock s"
      using s1(2) by (cases "on_event w i s1") (auto simp: shrinks_def split: flow.splits)
    with eq IH [OF s1(1)] s1(2) IH show ?thesis by (cases r) auto
  qed (simp add: scan_events.simps)
qed

section \<open>Properties\<close>

lemma noti_start_in_step:
  assumes "noti_start w argv = Inr s"
  shows "in_step s"
  using assms
  by (auto simp: noti_start_def wcall_def in_step_def entries_def registered_def WSA_MAXIMUM_WAIT_EVENTS_def
      Let_def take_Suc_conv_app_nth split: if_splits)

lemma noti_reach_in_step: "noti_reach w argv (Some s) \<Longrightarrow> in_step s"
proof (induction "Some s" arbitrary: s rule: noti_reach.induct)
  case (noti_start s)
  then show ?case by (rule noti_start_in_step)
next
  case (noti_step s s')
  then show ?case
    using scan_events_keeps [of w _ "snd (wcall w (W_wait_any (take (nat (numofClntSock s)) (hEventArr s))) s)" "Inr s'"]
    by (simp add: noti_round_def case_prod_unfold)
qed

lemma loop_turn_nonneg: "loop_turn w (i, s) (j, t) \<Longrightarrow> in_step s \<Longrightarrow> 0 \<le> i \<and> j = i + 1"
  by (auto simp: arr_get_def elim!: loop_turn.cases split: if_splits)

lemma loop_turn_in_step:
  assumes "loop_turn w (i, s) (j, t)" and "in_step s"
  shows "in_step t"
  using assms(1)
proof cases
  case (loop_turn ev sig s1)
  have "s1 = snd (wcall w (W_wait ev) s)" using loop_turn(4) by simp
  then have s1: "in_step s1" "i < numofClntSock s1" using assms(2) loop_turn(2) by simp_all
  moreover have "0 \<le> i" using loop_turn_nonneg assms by blast
  ultimately show ?thesis using loop_turn(5) on_event_keeps [of s1 i w] by (auto split: if_splits)
qed

lemma turns_in_step: "rtranclp (loop_turn w) p q \<Longrightarrow> in_step (snd p) \<Longrightarrow> in_step (snd q)"
  by (induction rule: rtranclp_induct) (auto dest: loop_turn_in_step)

lemma first_turn_in_step: "in_step s \<Longrightarrow> in_step (snd (first_turn w s))"
  unfolding first_turn_def by (rule in_step_wcall)

lemma noti_at_in_step: "noti_at w argv i s \<Longrightarrow> in_step s"
  using turns_in_step [OF _ first_turn_in_step [OF noti_reach_in_step]] by (fastforce simp: noti_at_def)

text \<open>The recursion of \<open>scan_events\<close> walks the turns.\<close>

lemma scan_unfold:
  assumes "i < numofClntSock s" and "arr_get (hEventArr s) i = Some ev" and "wcall w (W_wait ev) s = (sig, s1)"
  shows "scan_events w i s = (if sig = WSA_WAIT_FAILED \<or> sig = WSA_WAIT_TIMEOUT then scan_events w (i + 1) s1
     else Option.bind (on_event w i s1) (\<lambda>f. case f of Exit c \<Rightarrow> Some (Inl c) | Break s \<Rightarrow> Some (Inr s) | Next s \<Rightarrow> scan_events w (i + 1) s))"
  using assms by (subst scan_events.simps) simp

lemma scan_turn: "loop_turn w p q \<Longrightarrow> scan_events w (fst p) (snd p) = scan_events w (fst q) (snd q)"
  by (auto elim!: loop_turn.cases simp: scan_unfold split: if_splits)

lemma scan_turns: "rtranclp (loop_turn w) p q \<Longrightarrow> scan_events w (fst p) (snd p) = scan_events w (fst q) (snd q)"
  by (induction rule: rtranclp_induct) (simp_all add: scan_turn)

text \<open>What a turn does wrong: the index is in front of the arrays, or the table is full.\<close>

definition leaves_arrays :: "wsa \<Rightarrow> int \<Rightarrow> noti_state \<Rightarrow> bool" where
  "leaves_arrays w i s \<longleftrightarrow> i < numofClntSock s \<and> (i < 0 \<or> numofClntSock s = 64 \<and> new_client w i s)"

lemma on_accept_fault:
  assumes "in_step s" and "0 \<le> i" and "i < numofClntSock s"
  shows "on_accept w ne i s = None \<longleftrightarrow> numofClntSock s = 64 \<and> fd_accept ne = Some 0
     \<and> (let sock = hSockArr s ! nat i; (c, s) = wcall w (W_accept sock) s; (h, s) = wcall w W_create_event s
        in fst (wcall w (W_select_stream (word_of_int c) (word_of_int h)) s) \<noteq> SOCKET_ERROR)"
  using assms
  by (auto simp: on_accept_def append_entry_def arr_get_def arr_set_def in_step_def WSA_MAXIMUM_WAIT_EVENTS_def wcall_def Let_def
      split: option.splits)

lemma on_read_in_bounds: "in_step s \<Longrightarrow> 0 \<le> i \<Longrightarrow> i < numofClntSock s \<Longrightarrow> on_read w ne i s \<noteq> None"
  by (auto simp: on_read_def arr_get_def in_step_def case_prod_unfold Let_def split: option.splits)

lemma on_event_fault:
  assumes "in_step s" and "0 \<le> i" and "i < numofClntSock s" and "wcall w (W_wait (hEventArr s ! nat i)) s = (sig, s1)"
    and "sig \<notin> {WSA_WAIT_FAILED, WSA_WAIT_TIMEOUT}"
  shows "on_event w i s1 = None \<longleftrightarrow> numofClntSock s = 64 \<and> new_client w i s"
proof -
  define sock ev where "sock = hSockArr s ! nat i" and "ev = hEventArr s ! nat i"
  have s1: "s1 = snd (wcall w (W_wait ev) s)" "sig = fst (wcall w (W_wait ev) s)" using assms(4) by (simp_all add: ev_def)
  define ne where "ne = wevents w (wcalls s1) sock"
  define s2 where "s2 = snd (wcall w (W_enum sock ev) s1)"
  have s2: "in_step s2" "i < numofClntSock s2" "numofClntSock s2 = numofClntSock s" "hSockArr s2 ! nat i = sock"
    using assms(1,3) by (simp_all add: s1 s2_def sock_def)
  have ge: "arr_get (hSockArr s1) i = Some sock" "arr_get (hEventArr s1) i = Some ev"
    using assms(1-3) by (auto simp: arr_get_def in_step_def s1 sock_def ev_def)
  have oe: "on_event w i s1 = Option.bind (on_accept w ne i s2) (\<lambda>f. case f of
      Next s \<Rightarrow> Option.bind (on_read w ne i s) (\<lambda>f. case f of Next s \<Rightarrow> on_close w ne i s | f \<Rightarrow> Some f) | f \<Rightarrow> Some f)"
    unfolding on_event_def ne_def s2_def using ge by (simp add: case_prod_unfold Let_def)
  have rest: "Option.bind (on_read w ne i t) (\<lambda>f. case f of Next s \<Rightarrow> on_close w ne i s | f \<Rightarrow> Some f) \<noteq> None"
    if "in_step t" "i < numofClntSock t" for t
  proof (cases "on_read w ne i t")
    case (Some f)
    with on_read_keeps [OF that, of w ne] on_close_keeps [OF _ assms(2), of _ w ne] show ?thesis
      by (cases f) (fastforce simp: keeps_step_def split: option.splits)+
  qed (use on_read_in_bounds [OF that(1) assms(2) that(2)] in blast)
  have "on_event w i s1 = None \<longleftrightarrow> on_accept w ne i s2 = None"
  proof (cases "on_accept w ne i s2")
    case (Some f)
    with on_accept_keeps [OF s2(1,2), of w ne] rest show ?thesis unfolding oe by (cases f) (simp_all add: keeps_step_def)
  qed (simp add: oe)
  also have "\<dots> \<longleftrightarrow> numofClntSock s = 64 \<and> new_client w i s"
    using assms(5) on_accept_fault [OF s2(1) assms(2) s2(2), of w ne] s2(3,4)
    by (simp add: new_client_def s2_def ne_def s1 sock_def ev_def case_prod_unfold Let_def)
  finally show ?thesis .
qed

lemma leaves_arrays_scan:
  assumes "in_step s" and "leaves_arrays w i s"
  shows "scan_events w i s = None"
proof (cases "i < 0")
  case True
  with assms(2) show ?thesis by (subst scan_events.simps) (simp add: leaves_arrays_def arr_get_def)
next
  case False
  obtain sig s1 where c: "wcall w (W_wait (hEventArr s ! nat i)) s = (sig, s1)" by fastforce
  from False assms(2) have f: "i < numofClntSock s" "numofClntSock s = 64" "new_client w i s" by (auto simp: leaves_arrays_def)
  have "sig = wans w (wcalls s) (W_wait (hEventArr s ! nat i))" using c by (simp add: wcall_def)
  then have "sig \<notin> {WSA_WAIT_FAILED, WSA_WAIT_TIMEOUT}" using f(3) by (auto simp: new_client_def case_prod_unfold Let_def)
  moreover have "arr_get (hEventArr s) i = Some (hEventArr s ! nat i)" using assms(1) f False by (auto simp: arr_get_def in_step_def)
  ultimately show ?thesis using on_event_fault [OF assms(1) _ f(1) c] scan_unfold [OF f(1) _ c] f False by auto
qed

text \<open>A turn either goes on, ends the scan, or leaves the arrays.\<close>

lemma turn_cases:
  assumes "in_step s" and "scan_events w i s = None"
  obtains "leaves_arrays w i s" | t where "loop_turn w (i, s) (i + 1, t)"
proof -
  have lt: "i < numofClntSock s" using assms(2) by (subst (asm) scan_events.simps) (simp split: if_splits)
  show thesis
  proof (cases "i < 0")
    case True
    with lt that(1) show ?thesis by (simp add: leaves_arrays_def)
  next
    case False
    obtain sig s1 where c: "wcall w (W_wait (hEventArr s ! nat i)) s = (sig, s1)" by fastforce
    have ev: "arr_get (hEventArr s) i = Some (hEventArr s ! nat i)" using assms(1) lt False by (auto simp: arr_get_def in_step_def)
    note eq = scan_unfold [OF lt ev c]
    show ?thesis
    proof (cases "sig = WSA_WAIT_FAILED \<or> sig = WSA_WAIT_TIMEOUT")
      case True
      with that(2) loop_turn [OF lt ev c, of s1] show ?thesis by simp
    next
      case sig: False
      show ?thesis
      proof (cases "on_event w i s1")
        case None
        with on_event_fault [OF assms(1) _ lt c] sig False that(1) lt show ?thesis by (simp add: leaves_arrays_def)
      next
        case (Some f)
        with eq assms(2) sig obtain t where "f = Next t" by (cases f) auto
        with that(2) loop_turn [OF lt ev c, of t] Some sig show ?thesis by simp
      qed
    qed
  qed
qed

lemma scan_fault:
  assumes "in_step s"
  shows "scan_events w i s = None \<longleftrightarrow> (\<exists>j t. rtranclp (loop_turn w) (i, s) (j, t) \<and> leaves_arrays w j t)"
proof
  assume "scan_events w i s = None"
  with assms show "\<exists>j t. rtranclp (loop_turn w) (i, s) (j, t) \<and> leaves_arrays w j t"
  proof (induction "nat (64 - i)" arbitrary: i s rule: less_induct)
    case less
    from less.prems show ?case
    proof (cases rule: turn_cases)
      case 1
      then show ?thesis by blast
    next
      case (2 t)
      then have "i < 64" "in_step t" using less.prems(1) loop_turn_in_step [OF 2]
        by (auto simp: in_step_def WSA_MAXIMUM_WAIT_EVENTS_def elim: loop_turn.cases)
      moreover have "scan_events w (i + 1) t = None" using scan_turn [OF 2] less.prems(2) by simp
      ultimately have "\<exists>j u. rtranclp (loop_turn w) (i + 1, t) (j, u) \<and> leaves_arrays w j u" using less.hyps [of "i + 1" t] by simp
      with 2 show ?thesis by (meson converse_rtranclp_into_rtranclp)
    qed
  qed
next
  assume "\<exists>j t. rtranclp (loop_turn w) (i, s) (j, t) \<and> leaves_arrays w j t"
  then obtain j t where t: "rtranclp (loop_turn w) (i, s) (j, t)" "leaves_arrays w j t" by blast
  with turns_in_step [OF t(1)] assms leaves_arrays_scan [of t w j] scan_turns [OF t(1)] show "scan_events w i s = None" by simp
qed

lemma round_fault:
  assumes "in_step s"
  shows "noti_round w s = None \<longleftrightarrow> (\<exists>j t. rtranclp (loop_turn w) (first_turn w s) (j, t) \<and> leaves_arrays w j t)"
proof -
  obtain i t where ft: "first_turn w s = (i, t)" by fastforce
  then have "in_step t" "noti_round w s = scan_events w i t" using first_turn_in_step [OF assms, of w] by (simp_all add: noti_round_def first_turn_def)
  with scan_fault [of t w i] ft show ?thesis by simp
qed

text \<open>
  C32. The two tables of the event-driven echo server, whatever the system answers. At every turn of the loop the server
  comes to, the count of entries is between 0 and 64 and every entry in use pairs a socket with the very event it was
  registered with by \<^verbatim>\<open>WSAEventSelect\<close>. And there are exactly two ways to leave the arrays: at a turn
  with a negative index, which a failed wait gives, or at a turn that finds a new connection while all 64 entries are in use,
  which the code does not check.
\<close>

theorem sockets_and_events_in_step:
  shows "(noti_at w argv i s \<longrightarrow> 0 \<le> numofClntSock s \<and> numofClntSock s \<le> 64 \<and> length (hSockArr s) = 64 \<and> length (hEventArr s) = 64
       \<and> (\<forall>j < nat (numofClntSock s). W_select_accept (hSockArr s ! j) (hEventArr s ! j) \<in> set (wcalls s)
            \<or> W_select_stream (hSockArr s ! j) (hEventArr s ! j) \<in> set (wcalls s)))
     \<and> (noti_reach w argv None
          \<longleftrightarrow> (\<exists>j t. noti_at w argv j t \<and> j < numofClntSock t \<and> (j < 0 \<or> numofClntSock t = 64 \<and> new_client w j t)))"
proof (intro conjI impI)
  assume at: "noti_at w argv i s"
  have st: "in_step s" using at by (rule noti_at_in_step)
  then show "0 \<le> numofClntSock s" "numofClntSock s \<le> 64" "length (hSockArr s) = 64" "length (hEventArr s) = 64"
    by (simp_all add: in_step_def WSA_MAXIMUM_WAIT_EVENTS_def)
  have "(hSockArr s ! j, hEventArr s ! j) \<in> set (entries s)" if "j < nat (numofClntSock s)" for j
    using that st by (auto simp: in_step_def entries_def set_zip WSA_MAXIMUM_WAIT_EVENTS_def intro!: exI [of _ j])
  with st show "\<forall>j < nat (numofClntSock s). W_select_accept (hSockArr s ! j) (hEventArr s ! j) \<in> set (wcalls s)
      \<or> W_select_stream (hSockArr s ! j) (hEventArr s ! j) \<in> set (wcalls s)"
    by (fastforce simp: in_step_def registered_def)
next
  have "noti_reach w argv None \<longleftrightarrow> (\<exists>s. noti_reach w argv (Some s) \<and> noti_round w s = None)"
    by (auto elim: noti_reach_NoneE intro: noti_fault)
  also have "\<dots> \<longleftrightarrow> (\<exists>j t. noti_at w argv j t \<and> leaves_arrays w j t)"
    using round_fault noti_reach_in_step unfolding noti_at_def by blast
  finally show "noti_reach w argv None
      \<longleftrightarrow> (\<exists>j t. noti_at w argv j t \<and> j < numofClntSock t \<and> (j < 0 \<or> numofClntSock t = 64 \<and> new_client w j t))"
    unfolding leaves_arrays_def .
qed

text \<open>A system on which every call succeeds and that reports \<open>ne\<close> for every socket.\<close>

definition calm :: "netevents \<Rightarrow> wsa" where
  "calm ne = \<lparr>wans = (\<lambda>tr k. case k of W_recv _ _ \<Rightarrow> 2 | _ \<Rightarrow> 0), wevents = (\<lambda>tr sock. ne), wdata = (\<lambda>tr sock. ''hi'')\<rparr>"

definition quiet_events :: netevents where
  "quiet_events = \<lparr>fd_accept = None, fd_read = None, fd_close = None\<rparr>"

lemma calm_start: "\<exists>s. noti_reach (calm ne) [''echo'', ''5000''] (Some s) \<and> numofClntSock s = 1"
proof -
  obtain s where "noti_start (calm ne) [''echo'', ''5000''] = Inr s" "numofClntSock s = 1"
    by (simp add: noti_start_def wcall_def calm_def SOCKET_ERROR_def)
  then show ?thesis using noti_start by blast
qed

text \<open>Where a connection comes in at every turn, each turn adds an entry.\<close>

definition crowd :: wsa where
  "crowd = calm (quiet_events\<lparr>fd_accept := Some 0\<rparr>)"

lemma crowd_wcall: "wcall crowd k s = (case k of W_recv _ _ \<Rightarrow> 2 | _ \<Rightarrow> 0, s\<lparr>wcalls := wcalls s @ [k]\<rparr>)"
  by (simp add: wcall_def crowd_def calm_def)

lemma crowd_events: "wevents crowd tr sock = \<lparr>fd_accept = Some 0, fd_read = None, fd_close = None\<rparr>"
  by (simp add: crowd_def calm_def quiet_events_def)

lemma crowd_turn:
  assumes "in_step s" and "0 \<le> i" and "i < numofClntSock s" and "numofClntSock s < 64"
  shows "\<exists>t. loop_turn crowd (i, s) (i + 1, t) \<and> numofClntSock t = numofClntSock s + 1"
proof -
  have ev: "arr_get (hEventArr s) i = Some (hEventArr s ! nat i)" using assms by (auto simp: arr_get_def in_step_def)
  obtain s1 where c: "wcall crowd (W_wait (hEventArr s ! nat i)) s = (0, s1)" "s1 = s\<lparr>wcalls := wcalls s @ [W_wait (hEventArr s ! nat i)]\<rparr>"
    by (simp add: crowd_wcall)
  have "\<exists>t. on_event crowd i s1 = Some (Next t) \<and> numofClntSock t = numofClntSock s + 1"
    using assms unfolding c(2)
    by (simp add: on_event_def arr_get_def in_step_def WSA_MAXIMUM_WAIT_EVENTS_def crowd_wcall crowd_events on_accept_def append_entry_def
        arr_set_def on_read_def on_close_def SOCKET_ERROR_def)
  then obtain t where t: "on_event crowd i s1 = Some (Next t)" "numofClntSock t = numofClntSock s + 1" by blast
  have "loop_turn crowd (i, s) (i + 1, t)"
    by (rule loop_turn [OF assms(3) ev c(1)]) (simp add: t WSA_WAIT_FAILED_def WSA_WAIT_TIMEOUT_def)
  with t(2) show ?thesis by blast
qed

lemma crowd_fills: "n \<le> 63 \<Longrightarrow> \<exists>s. noti_at crowd [''echo'', ''5000''] (int n) s \<and> numofClntSock s = int n + 1"
proof (induction n)
  case 0
  obtain s where s: "noti_reach crowd [''echo'', ''5000''] (Some s)" "numofClntSock s = 1" using calm_start unfolding crowd_def by blast
  then obtain t where "first_turn crowd s = (0, t)" "numofClntSock t = 1" by (simp add: first_turn_def crowd_wcall)
  then have "rtranclp (loop_turn crowd) (first_turn crowd s) (0, t)" "numofClntSock t = 1" by simp_all
  then have "noti_at crowd [''echo'', ''5000''] 0 t" "numofClntSock t = 1" using s(1) by (auto simp only: noti_at_def)
  then show ?case by auto
next
  case (Suc n)
  then obtain s where s: "noti_at crowd [''echo'', ''5000''] (int n) s" "numofClntSock s = int n + 1" by auto
  with crowd_turn [OF noti_at_in_step [OF s(1)], of "int n"] Suc.prems
  obtain t where "loop_turn crowd (int n, s) (int (Suc n), t)" "numofClntSock t = int (Suc n) + 1" by (auto simp: add.commute)
  with s(1) show ?case unfolding noti_at_def by (meson rtranclp.rtrancl_into_rtrancl)
qed

theorem sockets_and_events_in_step_witness:
  "(\<exists>s. noti_at crowd [''echo'', ''5000''] 1 s \<and> numofClntSock s = 2
       \<and> (W_select_accept (hSockArr s ! 1) (hEventArr s ! 1) \<in> set (wcalls s) \<or> W_select_stream (hSockArr s ! 1) (hEventArr s ! 1) \<in> set (wcalls s)))
     \<and> noti_reach crowd [''echo'', ''5000''] None"
proof -
  have sel: "W_select_accept (hSockArr s ! 1) (hEventArr s ! 1) \<in> set (wcalls s) \<or> W_select_stream (hSockArr s ! 1) (hEventArr s ! 1) \<in> set (wcalls s)"
    if "noti_at crowd [''echo'', ''5000''] 1 s" "numofClntSock s = 2" for s
    using sockets_and_events_in_step [of crowd "[''echo'', ''5000'']" 1 s] that by simp
  obtain s where s: "noti_at crowd [''echo'', ''5000''] 1 s" "numofClntSock s = 2" using crowd_fills [of 1] by auto
  obtain t where t: "noti_at crowd [''echo'', ''5000''] 63 t" "numofClntSock t = 64" using crowd_fills [of 63] by auto
  have "new_client crowd 63 t" by (simp add: new_client_def crowd_wcall WSA_WAIT_FAILED_def WSA_WAIT_TIMEOUT_def SOCKET_ERROR_def crowd_events)
  then have "\<exists>j t. noti_at crowd [''echo'', ''5000''] j t \<and> j < numofClntSock t \<and> (j < 0 \<or> numofClntSock t = 64 \<and> new_client crowd j t)"
    using t by (intro exI [of _ 63] exI [of _ t]) simp
  then have "noti_reach crowd [''echo'', ''5000''] None"
    by (rule sockets_and_events_in_step [THEN conjunct2, THEN iffD2])
  with s sel show ?thesis by blast
qed

text \<open>
  There is no check for a full table: with 64 entries in use, a new connection makes the server
  write behind the end of its arrays.
\<close>

theorem full_table_overflows:
  assumes "length (hSockArr s) = 64" and "numofClntSock s = 64" and "0 \<le> i" and "i < 64" and "fd_accept ne = Some 0"
    and "\<And>tr sock ev. wans w tr (W_select_stream sock ev) \<noteq> SOCKET_ERROR"
  shows "on_accept w ne i s = None"
  using assms by (auto simp: on_accept_def append_entry_def arr_get_def arr_set_def wcall_def)

theorem full_table_overflows_witness:
  "on_accept (calm quiet_events) (quiet_events\<lparr>fd_accept := Some 0\<rparr>) 0
     \<lparr>hSockArr = replicate 64 0, hEventArr = replicate 64 0, numofClntSock = 64, wcalls = []\<rparr> = None"
  by (rule full_table_overflows) (simp_all add: calm_def SOCKET_ERROR_def)

text \<open>
  What is read is echoed: for a readable socket the server receives at most 99 bytes and sends back,
  on the same socket, exactly the bytes that were received.
\<close>

theorem read_is_echoed:
  assumes "fd_read ne = Some 0" and "arr_get (hSockArr s) i = Some sock"
    and "wans w (wcalls s) (W_recv sock 99) = int (length (wdata w (wcalls s) sock))" and "length (wdata w (wcalls s) sock) \<le> 99"
  shows "\<exists>s' msg. on_read w ne i s = Some (Next s')
     \<and> wcalls s' = wcalls s @ [W_recv sock 99, W_send sock msg (int (length (wdata w (wcalls s) sock)))]
     \<and> take (length (wdata w (wcalls s) sock)) msg = wdata w (wcalls s) sock"
  using assms by (simp add: on_read_def wcall_def AN_BUF_SIZE_def splice_def)

theorem read_is_echoed_witness:
  "\<exists>s' msg. on_read (calm quiet_events) (quiet_events\<lparr>fd_read := Some 0\<rparr>) 0
      \<lparr>hSockArr = [7], hEventArr = [8], numofClntSock = 1, wcalls = []\<rparr> = Some (Next s')
     \<and> wcalls s' = [W_recv 7 99, W_send 7 msg 2] \<and> take 2 msg = ''hi''"
  using read_is_echoed [of "quiet_events\<lparr>fd_read := Some 0\<rparr>" "\<lparr>hSockArr = [7], hEventArr = [8], numofClntSock = 1, wcalls = []\<rparr>" 0 7 "calm quiet_events"]
  by (simp add: calm_def arr_get_def numeral_2_eq_2)

text \<open>
  A round of the event loop always ends: in every state the server reaches, when the wait reports an
  index and no new connection comes in, the scan over the events ends, in bounds of the arrays,
  whatever mixture of reads, closes and errors is reported.
\<close>

theorem event_round_ends:
  assumes "noti_reach w argv (Some s)" and "\<And>tr. 0 \<le> wans w tr (W_wait_any (take (nat (numofClntSock s)) (hEventArr s)))"
    and "\<And>tr sock. fd_accept (wevents w tr sock) = None"
  shows "\<exists>r. noti_round w s = Some r"
proof -
  have "in_step s" using assms(1) by (rule noti_reach_in_step)
  then show ?thesis
    using scan_events_ends [OF in_step_wcall _ assms(3)] assms(2) by (auto simp: noti_round_def case_prod_unfold)
qed

theorem event_round_ends_witness:
  "\<exists>s r. noti_reach (calm (quiet_events\<lparr>fd_close := Some 0\<rparr>)) [''echo'', ''5000''] (Some s)
     \<and> noti_round (calm (quiet_events\<lparr>fd_close := Some 0\<rparr>)) s = Some r"
proof -
  let ?w = "calm (quiet_events\<lparr>fd_close := Some 0\<rparr>)"
  obtain s where s: "noti_reach ?w [''echo'', ''5000''] (Some s)" using calm_start by blast
  have "\<exists>r. noti_round ?w s = Some r" by (rule event_round_ends [OF s]) (simp_all add: calm_def quiet_events_def)
  with s show ?thesis by blast
qed

end
