(* ===== verification/OverlappedEcho.thy ===== *)
theory OverlappedEcho
  imports Net
begin

text \<open>
  The small echo servers on overlapped requests: IOCPEchoServ.cpp and IOCPDemo.cpp (completion port) and
  CmplRouEchoServ.cpp (completion routines).

  The blocks the programs allocate with \<^verbatim>\<open>malloc\<close> are numbered; a released block is \<open>None\<close>, and an access
  through a pointer to it is the result \<open>None\<close> of the operation. \<open>pending\<close> is the list of the requests the
  kernel holds. What the system answers is the parameter \<open>ie_sys\<close>: a function of the calls made before
  and the call, giving the returned value and the last error.
\<close>

section \<open>IOCPEchoServ.cpp and IOCPDemo.cpp\<close>

definition IE_BUF_SIZE :: nat where
  "IE_BUF_SIZE = 100"

definition READ :: int where
  "READ = 3"

definition WRITE :: int where
  "WRITE = 5"

record PER_HANDLE_DATA =
  hClntSock :: SOCKET
  clntAddr :: SOCKADDR_IN

record PER_IO_DATA =
  io_len :: u32
  io_buffer :: string
  rwMode :: int

datatype iecall =
    E_startup
  | E_new_port
  | E_processors
  | E_thread
  | E_socket
  | E_nonblocking SOCKET
  | E_associate SOCKET nat
  | E_bind SOCKET SOCKADDR_IN
  | E_listen SOCKET
  | E_accept SOCKET
  | E_AcceptEx_ptr SOCKET
  | E_recv SOCKET u32 nat
  | E_send SOCKET string nat
  | E_close SOCKET
  | E_cleanup

record ie_sys =
  eans :: "iecall list \<Rightarrow> iecall \<Rightarrow> int \<times> int"
  epeer :: "iecall list \<Rightarrow> SOCKADDR_IN"

record ie_state =
  handles :: "PER_HANDLE_DATA option list"
  ios :: "PER_IO_DATA option list"
  pending :: "(nat \<times> nat) list"
  ecalls :: "iecall list"

definition ecall :: "ie_sys \<Rightarrow> iecall \<Rightarrow> ie_state \<Rightarrow> (int \<times> int) \<times> ie_state" where
  "ecall e k s = (eans e (ecalls s) k, s\<lparr>ecalls := ecalls s @ [k]\<rparr>)"

definition deref :: "'a option list \<Rightarrow> nat \<Rightarrow> 'a option" where
  "deref xs a = (if a < length xs then xs ! a else None)"

text \<open>A request that fails at once is not held by the kernel; the programs look at this, or not.\<close>

definition refused :: "int \<times> int \<Rightarrow> bool" where
  "refused r \<longleftrightarrow> fst r = SOCKET_ERROR \<and> snd r \<noteq> WSA_IO_PENDING"

definition request :: "ie_sys \<Rightarrow> iecall \<Rightarrow> nat \<Rightarrow> nat \<Rightarrow> ie_state \<Rightarrow> bool \<times> ie_state" where
  "request e k h a s =
     (let (r, s) = ecall e k s
      in if refused r then (False, s) else (True, s\<lparr>pending := pending s @ [(h, a)]\<rparr>))"

text \<open>
  A zeroed \<^verbatim>\<open>PER_IO_DATA\<close> in mode \<^verbatim>\<open>READ\<close> and the receive on it: the last lines of both the accepting loop
  and the worker.
\<close>

definition post_read :: "ie_sys \<Rightarrow> SOCKET \<Rightarrow> nat \<Rightarrow> ie_state \<Rightarrow> bool \<times> ie_state" where
  "post_read e sock h s =
     (let a = length (ios s);
          s = s\<lparr>ios := ios s @ [Some \<lparr>io_len = word_of_nat IE_BUF_SIZE, io_buffer = replicate IE_BUF_SIZE NUL, rwMode = READ\<rparr>]\<rparr>
      in request e (E_recv sock (word_of_nat IE_BUF_SIZE) a) h a s)"

text \<open>One round of the accepting loop of \<^verbatim>\<open>main\<close>; the flag says whether the receive was taken, which only IOCPDemo.cpp asks.\<close>

definition accept_round :: "ie_sys \<Rightarrow> SOCKET \<Rightarrow> ie_state \<Rightarrow> bool \<times> ie_state" where
  "accept_round e servSock s =
     (let addr = epeer e (ecalls s);
          ((c, _), s) = ecall e (E_accept servSock) s;
          h = length (handles s);
          s = s\<lparr>handles := handles s @ [Some \<lparr>hClntSock = word_of_int c, clntAddr = addr\<rparr>]\<rparr>;
          (_, s) = ecall e (E_associate (word_of_int c) h) s
      in post_read e (word_of_int c) h s)"

text \<open>
  One round of \<^verbatim>\<open>EchoThreadMain\<close> (IOCPEchoServ.cpp): \<open>GetQueuedCompletionStatus\<close> has delivered \<open>bytes\<close>,
  the handle block \<open>h\<close> and the I/O block \<open>a\<close>.
\<close>

definition EchoThread_round :: "ie_sys \<Rightarrow> u32 \<Rightarrow> nat \<Rightarrow> nat \<Rightarrow> ie_state \<Rightarrow> ie_state option" where
  "EchoThread_round e bytesTrans h a s = do {
     hd \<leftarrow> deref (handles s) h;
     let sock = hClntSock hd;
     io \<leftarrow> deref (ios s) a;
     if rwMode io = READ then
       (if bytesTrans = 0 then do {
          let (_, s) = ecall e (E_close sock) s;
          Some (s\<lparr>handles := (handles s)[h := None], ios := (ios s)[a := None]\<rparr>) }
        else if unat bytesTrans \<le> length (io_buffer io) then do {
          let s = s\<lparr>ios := (ios s)[a := Some (io\<lparr>io_len := bytesTrans, rwMode := WRITE\<rparr>)]\<rparr>;
          let (_, s) = request e (E_send sock (take (unat bytesTrans) (io_buffer io)) a) h a s;
          let (_, s) = post_read e sock h s;
          Some s }
        else None)
     else Some (s\<lparr>ios := (ios s)[a := None]\<rparr>) }"

text \<open>
  The same for IOCPDemo.cpp, which prints the address of the client first and leaves its loop when a
  request fails: the flag says whether the thread goes on.
\<close>

definition demo_round :: "ie_sys \<Rightarrow> u32 \<Rightarrow> nat \<Rightarrow> nat \<Rightarrow> ie_state \<Rightarrow> (bool \<times> ie_state) option" where
  "demo_round e bytesTrans h a s = do {
     hd \<leftarrow> deref (handles s) h;
     let sock = hClntSock hd;
     io \<leftarrow> deref (ios s) a;
     if rwMode io = READ then
       (if bytesTrans = 0 then do {
          let (_, s) = ecall e (E_close sock) s;
          Some (True, s\<lparr>handles := (handles s)[h := None], ios := (ios s)[a := None]\<rparr>) }
        else if unat bytesTrans \<le> length (io_buffer io) then do {
          let s = s\<lparr>ios := (ios s)[a := Some (io\<lparr>io_len := bytesTrans, rwMode := WRITE\<rparr>)]\<rparr>;
          let (good, s) = request e (E_send sock (take (unat bytesTrans) (io_buffer io)) a) h a s;
          if \<not> good then Some (False, s)
          else Some (post_read e sock h s) }
        else None)
     else Some (True, s\<lparr>ios := (ios s)[a := None]\<rparr>) }"

text \<open>The start of \<^verbatim>\<open>main\<close>: the exit code, or the listening socket and the state before the loop.\<close>

fun start_threads :: "ie_sys \<Rightarrow> nat \<Rightarrow> ie_state \<Rightarrow> ie_state" where
  "start_threads e 0 s = s"
| "start_threads e (Suc n) s = start_threads e n (snd (ecall e E_thread s))"

definition echo_main_start :: "ie_sys \<Rightarrow> string \<Rightarrow> int \<times> ie_state + SOCKET \<times> ie_state" where
  "echo_main_start e port =
     (let s = \<lparr>handles = [], ios = [], pending = [], ecalls = []\<rparr>;
          ((ret, _), s) = ecall e E_startup s in
      if ret \<noteq> 0 then Inl (1, s)
      else let (_, s) = ecall e E_new_port s;
               ((n, _), s) = ecall e E_processors s;
               s = start_threads e (nat n) s;
               ((sock, _), s) = ecall e E_socket s;
               a = \<lparr>sin_family = AF_INET, sin_port = htons (word_of_int (atoi port)), sin_addr = (0, 0, 0, 0)\<rparr>;
               ((ret, _), s) = ecall e (E_bind (word_of_int sock) a) s in
      if ret = SOCKET_ERROR then Inl (1, s)
      else let ((ret, _), s) = ecall e (E_listen (word_of_int sock)) s in
      if ret = SOCKET_ERROR then Inl (1, s)
      else Inr (word_of_int sock, s))"

text \<open>IOCPDemo.cpp: the listening socket has a handle block of its own, and the address of \<^verbatim>\<open>AcceptEx\<close> is fetched.\<close>

definition demo_main_start :: "ie_sys \<Rightarrow> int \<times> ie_state + SOCKET \<times> ie_state" where
  "demo_main_start e =
     (let s = \<lparr>handles = [], ios = [], pending = [], ecalls = []\<rparr>;
          ((ret, _), s) = ecall e E_startup s in
      if ret \<noteq> 0 then Inl (1, s)
      else let (_, s) = ecall e E_new_port s;
               ((n, _), s) = ecall e E_processors s;
               s = start_threads e (nat n) s;
               ((sock, _), s) = ecall e E_socket s;
               a = \<lparr>sin_family = AF_INET, sin_port = htons 5000, sin_addr = (0, 0, 0, 0)\<rparr>;
               s = s\<lparr>handles := [Some \<lparr>hClntSock = word_of_int sock, clntAddr = a\<rparr>]\<rparr>;
               (_, s) = ecall e (E_associate (word_of_int sock) 0) s;
               ((ret, _), s) = ecall e (E_bind (word_of_int sock) a) s in
      if ret = SOCKET_ERROR then Inl (1, s)
      else let ((ret, _), s) = ecall e (E_listen (word_of_int sock)) s in
      if ret = SOCKET_ERROR then Inl (1, s)
      else let ((ret, _), s) = ecall e (E_AcceptEx_ptr (word_of_int sock)) s in
      if ret = SOCKET_ERROR then (let (_, s) = ecall e (E_close (word_of_int sock)) s; (_, s) = ecall e E_cleanup s in Inl (1, s))
      else Inr (word_of_int sock, s))"

text \<open>
  One round of the accepting loop of IOCPDemo.cpp, which tests the receive: when it fails the loop is left
  and the program closes the listening socket.
\<close>

definition demo_accept_round :: "ie_sys \<Rightarrow> SOCKET \<Rightarrow> ie_state \<Rightarrow> bool \<times> ie_state" where
  "demo_accept_round e sock s =
     (let (good, s) = accept_round e sock s in
      if good then (True, s)
      else let (_, s) = ecall e (E_close sock) s;
               (_, s) = ecall e E_cleanup s
           in (False, s))"

text \<open>The kernel completes a request: received bytes are in the buffer of its block.\<close>

definition complete :: "nat \<Rightarrow> nat \<Rightarrow> string \<Rightarrow> ie_state \<Rightarrow> ie_state" where
  "complete h a data s =
     (let s = s\<lparr>pending := remove1 (h, a) (pending s)\<rparr> in
      case deref (ios s) a of
        Some io \<Rightarrow> if rwMode io = READ
          then s\<lparr>ios := (ios s)[a := Some (io\<lparr>io_buffer := splice (io_buffer io) 0 (take IE_BUF_SIZE data)\<rparr>)]\<rparr> else s
      | None \<Rightarrow> s)"

text \<open>
  The states a server reaches: \<open>starts\<close> says how it comes up, \<open>accepts\<close> is a round of its accepting loop and
  \<open>works\<close> a round of a worker, run on any request the kernel holds, with any number of bytes and any data.
\<close>

inductive server_reach :: "(SOCKET \<Rightarrow> ie_state \<Rightarrow> bool) \<Rightarrow> (SOCKET \<Rightarrow> ie_state \<Rightarrow> bool \<times> ie_state)
    \<Rightarrow> (u32 \<Rightarrow> nat \<Rightarrow> nat \<Rightarrow> ie_state \<Rightarrow> ie_state option) \<Rightarrow> SOCKET \<Rightarrow> ie_state \<Rightarrow> bool" for starts accepts works where
  reach_start: "starts sock s \<Longrightarrow> server_reach starts accepts works sock s"
| reach_accept: "server_reach starts accepts works sock s \<Longrightarrow> accepts sock s = (b, s') \<Longrightarrow>
    server_reach starts accepts works sock s'"
| reach_complete: "server_reach starts accepts works sock s \<Longrightarrow> (h, a) \<in> set (pending s) \<Longrightarrow>
    works n h a (complete h a data s) = Some s' \<Longrightarrow> server_reach starts accepts works sock s'"

definition echo_reach :: "ie_sys \<Rightarrow> string \<Rightarrow> SOCKET \<Rightarrow> ie_state \<Rightarrow> bool" where
  "echo_reach e port = server_reach (\<lambda>sock s. echo_main_start e port = Inr (sock, s)) (accept_round e) (EchoThread_round e)"

definition demo_reach :: "ie_sys \<Rightarrow> SOCKET \<Rightarrow> ie_state \<Rightarrow> bool" where
  "demo_reach e = server_reach (\<lambda>sock s. demo_main_start e = Inr (sock, s)) (demo_accept_round e)
     (\<lambda>n h a s. map_option snd (demo_round e n h a s))"

section \<open>CmplRouEchoServ.cpp\<close>

definition CR_BUF_SIZE :: nat where
  "CR_BUF_SIZE = 1024"

text \<open>
  The \<^verbatim>\<open>WSAOVERLAPPED\<close> and the \<^verbatim>\<open>PER_IO_DATA\<close> its \<^verbatim>\<open>hEvent\<close> points to are allocated together and released
  together: one block stands for both.
\<close>

record CR_IO_DATA =
  cr_sock :: SOCKET
  cr_buf :: string
  cr_len :: u32

record cr_state =
  cr_ios :: "CR_IO_DATA option list"
  cr_calls :: "iecall list"

definition ccall :: "ie_sys \<Rightarrow> iecall \<Rightarrow> cr_state \<Rightarrow> (int \<times> int) \<times> cr_state" where
  "ccall e k s = (eans e (cr_calls s) k, s\<lparr>cr_calls := cr_calls s @ [k]\<rparr>)"

definition CR_WSAEWOULDBLOCK :: int where
  "CR_WSAEWOULDBLOCK = 10035"

text \<open>One round of the loop of \<^verbatim>\<open>main\<close>, after \<^verbatim>\<open>SleepEx\<close>: the exit code, or the new state.\<close>

definition cr_accept_round :: "ie_sys \<Rightarrow> SOCKET \<Rightarrow> cr_state \<Rightarrow> int + cr_state" where
  "cr_accept_round e listenFd s =
     (let ((r, err), s) = ccall e (E_accept listenFd) s in
      if (word_of_int r :: SOCKET) = INVALID_SOCKET
      then (if err = CR_WSAEWOULDBLOCK then Inr s else Inl 1)
      else let a = length (cr_ios s);
               s = s\<lparr>cr_ios := cr_ios s @ [Some \<lparr>cr_sock = word_of_int r, cr_buf = replicate CR_BUF_SIZE NUL,
                                               cr_len = word_of_nat CR_BUF_SIZE\<rparr>]\<rparr>;
               (_, s) = ccall e (E_recv (word_of_int r) (word_of_nat CR_BUF_SIZE) a) s
           in Inr s)"

definition ReadCompRoutine :: "ie_sys \<Rightarrow> u32 \<Rightarrow> nat \<Rightarrow> cr_state \<Rightarrow> cr_state option" where
  "ReadCompRoutine e szRecvBytes a s = do {
     hbInfo \<leftarrow> deref (cr_ios s) a;
     let hSock = cr_sock hbInfo;
     if szRecvBytes = 0 then do {
       let (_, s) = ccall e (E_close hSock) s;
       Some (s\<lparr>cr_ios := (cr_ios s)[a := None]\<rparr>) }
     else if unat szRecvBytes \<le> length (cr_buf hbInfo) then do {
       let s = s\<lparr>cr_ios := (cr_ios s)[a := Some (hbInfo\<lparr>cr_len := szRecvBytes\<rparr>)]\<rparr>;
       let (_, s) = ccall e (E_send hSock (take (unat szRecvBytes) (cr_buf hbInfo)) a) s;
       Some s }
     else None }"

definition WriteCompRoutine :: "ie_sys \<Rightarrow> nat \<Rightarrow> cr_state \<Rightarrow> cr_state option" where
  "WriteCompRoutine e a s = do {
     hbInfo \<leftarrow> deref (cr_ios s) a;
     let (_, s) = ccall e (E_recv (cr_sock hbInfo) (cr_len hbInfo) a) s;
     Some s }"

definition cr_main_start :: "ie_sys \<Rightarrow> string list \<Rightarrow> int + SOCKET \<times> cr_state" where
  "cr_main_start e argv =
     (let s = \<lparr>cr_ios = [], cr_calls = []\<rparr> in
      if length argv < 2 then Inl 1
      else let ((ret, _), s) = ccall e E_startup s in
      if ret \<noteq> 0 then Inl 1
      else let ((sock, _), s) = ccall e E_socket s;
               (_, s) = ccall e (E_nonblocking (word_of_int sock)) s;
               a = \<lparr>sin_family = AF_INET, sin_port = htons (word_of_int (atoi (argv ! 1))), sin_addr = (0, 0, 0, 0)\<rparr>;
               ((ret, _), s) = ccall e (E_bind (word_of_int sock) a) s in
      if ret = SOCKET_ERROR then Inl 1
      else let ((ret, _), s) = ccall e (E_listen (word_of_int sock)) s in
      if ret = SOCKET_ERROR then Inl 1
      else Inr (word_of_int sock, s))"

section \<open>The blocks the kernel holds\<close>

definition held_blocks :: "ie_state \<Rightarrow> nat list" where
  "held_blocks s = map snd (pending s)"

definition blocks_ok :: "ie_state \<Rightarrow> bool" where
  "blocks_ok s \<longleftrightarrow> distinct (held_blocks s) \<and> (\<forall>a \<in> set (held_blocks s). deref (ios s) a \<noteq> None)"

lemma ecall_fields [simp]:
  "handles (snd (ecall e k s)) = handles s" "ios (snd (ecall e k s)) = ios s" "pending (snd (ecall e k s)) = pending s"
  by (simp_all add: ecall_def)

lemma blocks_ok_cong: "ios s' = ios s \<Longrightarrow> pending s' = pending s \<Longrightarrow> blocks_ok s' = blocks_ok s"
  by (simp add: blocks_ok_def held_blocks_def)

lemma deref_update: "a < length xs \<Longrightarrow> deref (xs[a := x]) b = (if b = a then x else deref xs b)"
  by (simp add: deref_def)

lemma deref_Some_less: "deref xs a = Some x \<Longrightarrow> a < length xs"
  by (simp add: deref_def split: if_splits)

lemma request_ok:
  assumes "blocks_ok s" and "a \<notin> set (held_blocks s)" and "deref (ios s) a \<noteq> None"
  shows "blocks_ok (snd (request e k h a s))" and "ios (snd (request e k h a s)) = ios s"
  using assms by (auto simp: request_def case_prod_unfold Let_def blocks_ok_def held_blocks_def ecall_def)

lemma post_read_ok:
  assumes "blocks_ok s"
  shows "blocks_ok (snd (post_read e sock h s))"
proof -
  let ?s = "s\<lparr>ios := ios s @ [Some \<lparr>io_len = word_of_nat IE_BUF_SIZE, io_buffer = replicate IE_BUF_SIZE NUL, rwMode = READ\<rparr>]\<rparr>"
  have "deref (ios ?s) a \<noteq> None" if "deref (ios s) a \<noteq> None" for a
    using that by (auto simp: deref_def nth_append split: if_splits)
  then have "blocks_ok ?s" using assms by (auto simp: blocks_ok_def held_blocks_def)
  moreover have "length (ios s) \<notin> set (held_blocks ?s)"
    using assms by (auto simp: blocks_ok_def held_blocks_def deref_def)
  moreover have "deref (ios ?s) (length (ios s)) \<noteq> None" by (simp add: deref_def)
  ultimately show ?thesis unfolding post_read_def Let_def by (rule request_ok(1))
qed

lemma accept_round_ok: "blocks_ok s \<Longrightarrow> blocks_ok (snd (accept_round e sock s))"
  by (simp add: accept_round_def case_prod_unfold Let_def) (rule post_read_ok, simp add: blocks_ok_def held_blocks_def)

text \<open>After a completion its block belongs to the program alone.\<close>

lemma complete_ok:
  assumes "blocks_ok s" and "(h, a) \<in> set (pending s)"
  shows "blocks_ok (complete h a data s)" and "a \<notin> set (held_blocks (complete h a data s))"
    and "deref (ios (complete h a data s)) a \<noteq> None"
proof -
  let ?s = "s\<lparr>pending := remove1 (h, a) (pending s)\<rparr>"
  obtain xs ys where p: "pending s = xs @ (h, a) # ys" "(h, a) \<notin> set xs" using split_list_first [OF assms(2)] by blast
  have live: "deref (ios s) a \<noteq> None" using assms by (force simp: blocks_ok_def held_blocks_def)
  then obtain io where io: "deref (ios s) a = Some io" by blast
  have 1: "blocks_ok ?s" "a \<notin> set (held_blocks ?s)"
    using assms(1) p by (auto simp: blocks_ok_def held_blocks_def remove1_append)
  have c: "complete h a data s = (if rwMode io = READ
     then ?s\<lparr>ios := (ios s)[a := Some (io\<lparr>io_buffer := splice (io_buffer io) 0 (take IE_BUF_SIZE data)\<rparr>)]\<rparr> else ?s)"
    using io by (simp add: complete_def)
  show "blocks_ok (complete h a data s)" "a \<notin> set (held_blocks (complete h a data s))"
    "deref (ios (complete h a data s)) a \<noteq> None"
    using 1 io deref_Some_less [OF io] unfolding c by (auto simp: blocks_ok_def held_blocks_def deref_update)
qed

text \<open>
  The ways a worker round can change the blocks: it releases the block of the completion, or it reuses it
  for a request, perhaps followed by a receive on a new block.
\<close>

lemma round_blocks_ok:
  assumes "blocks_ok s" and "a \<notin> set (held_blocks s)" and "deref (ios s) a = Some io"
    and "ios s' = (ios s)[a := None] \<and> pending s' = pending s
      \<or> (\<exists>k x sock. s' = snd (request e k h a (s\<lparr>ios := (ios s)[a := Some x]\<rparr>))
          \<or> s' = snd (post_read e sock h (snd (request e k h a (s\<lparr>ios := (ios s)[a := Some x]\<rparr>)))))"
  shows "blocks_ok s'"
proof -
  have upd: "blocks_ok (s\<lparr>ios := (ios s)[a := x]\<rparr>)" for x
    using assms(1,2) deref_Some_less [OF assms(3)] by (auto simp: blocks_ok_def held_blocks_def deref_update)
  have "blocks_ok (snd (request e k h a (s\<lparr>ios := (ios s)[a := Some x]\<rparr>)))" for k x
    using request_ok(1) [OF upd [of "Some x"]] assms(2) deref_Some_less [OF assms(3)] by (simp add: held_blocks_def deref_update)
  then show ?thesis
    using assms(4) upd [of None] blocks_ok_cong [of s' "s\<lparr>ios := (ios s)[a := None]\<rparr>"] post_read_ok by auto
qed

lemma EchoThread_round_ok:
  assumes "blocks_ok s" and "a \<notin> set (held_blocks s)" and r: "EchoThread_round e n h a s = Some s'"
  shows "blocks_ok s'"
proof -
  from r obtain hi io where d: "deref (handles s) h = Some hi" "deref (ios s) a = Some io"
    by (auto simp: EchoThread_round_def bind_eq_Some_conv Let_def)
  show ?thesis
    by (rule round_blocks_ok [OF assms(1,2) d(2)])
      (use r d in \<open>auto simp: EchoThread_round_def case_prod_unfold Let_def split: if_splits\<close>)
qed

lemma demo_round_ok:
  assumes "blocks_ok s" and "a \<notin> set (held_blocks s)" and r: "demo_round e n h a s = Some (b, s')"
  shows "blocks_ok s'"
proof -
  from r obtain hi io where d: "deref (handles s) h = Some hi" "deref (ios s) a = Some io"
    by (auto simp: demo_round_def bind_eq_Some_conv Let_def)
  show ?thesis
    by (rule round_blocks_ok [OF assms(1,2) d(2)])
      (use r d in \<open>auto simp: demo_round_def case_prod_unfold Let_def prod_eq_iff split: if_splits\<close>)
qed

lemma demo_accept_round_ok: "blocks_ok s \<Longrightarrow> blocks_ok (snd (demo_accept_round e sock s))"
  using accept_round_ok [of s e sock]
  by (auto simp: demo_accept_round_def case_prod_unfold Let_def blocks_ok_def held_blocks_def)

lemma start_threads_fields [simp]:
  "handles (start_threads e n s) = handles s" "ios (start_threads e n s) = ios s" "pending (start_threads e n s) = pending s"
  by (induction n arbitrary: s) simp_all

lemma main_start_ok:
  shows "echo_main_start e port = Inr (sock, s) \<Longrightarrow> pending s = []"
    and "demo_main_start e = Inr (sock, s) \<Longrightarrow> pending s = []"
  by (auto simp: echo_main_start_def demo_main_start_def case_prod_unfold Let_def split: if_splits)

text \<open>
  What a server of this kind promises: it comes up with no request outstanding, and its two loops keep the
  blocks of the outstanding requests, a worker provided that the block of its completion is its own.
\<close>

locale block_server =
  fixes starts :: "SOCKET \<Rightarrow> ie_state \<Rightarrow> bool"
    and accepts :: "SOCKET \<Rightarrow> ie_state \<Rightarrow> bool \<times> ie_state"
    and works :: "u32 \<Rightarrow> nat \<Rightarrow> nat \<Rightarrow> ie_state \<Rightarrow> ie_state option"
  assumes starts_idle: "starts sock s \<Longrightarrow> pending s = []"
    and accepts_keeps: "blocks_ok s \<Longrightarrow> blocks_ok (snd (accepts sock s))"
    and works_keeps: "blocks_ok s \<Longrightarrow> a \<notin> set (held_blocks s) \<Longrightarrow> works n h a s = Some s' \<Longrightarrow> blocks_ok s'"
begin

lemma reach_blocks_ok: "server_reach starts accepts works sock s \<Longrightarrow> blocks_ok s"
proof (induction rule: server_reach.induct)
  case (reach_start sock s)
  then show ?case using starts_idle by (simp add: blocks_ok_def held_blocks_def)
next
  case (reach_accept sock s b s')
  then show ?case using accepts_keeps [of s sock] by simp
next
  case (reach_complete sock s h a n data s')
  then show ?case using works_keeps complete_ok by blast
qed

end

interpretation echo_server: block_server "\<lambda>sock s. echo_main_start e port = Inr (sock, s)" "accept_round e" "EchoThread_round e"
  for e port
  by unfold_locales (simp_all add: main_start_ok accept_round_ok EchoThread_round_ok)

interpretation demo_server: block_server "\<lambda>sock s. demo_main_start e = Inr (sock, s)" "demo_accept_round e"
    "\<lambda>n h a s. map_option snd (demo_round e n h a s)"
  for e
  by unfold_locales (auto simp: main_start_ok demo_accept_round_ok dest: demo_round_ok)

section \<open>Properties\<close>

text \<open>
  C33. In the completion-port echo servers no I/O block is released or reused while the kernel works on
  it: in every state IOCPEchoServ or IOCPDemo reaches, whatever the system answers, the blocks of the
  requests the kernel holds are pairwise different and none of them has been freed.
\<close>

theorem io_blocks_stay_alive:
  assumes "echo_reach e port sock s \<or> demo_reach e sock s"
  shows "distinct (map snd (pending s)) \<and> (\<forall>(h, a) \<in> set (pending s). \<exists>io. deref (ios s) a = Some io)"
proof -
  have "blocks_ok s" using assms echo_server.reach_blocks_ok demo_server.reach_blocks_ok
    unfolding echo_reach_def demo_reach_def by blast
  then show ?thesis by (fastforce simp: blocks_ok_def held_blocks_def)
qed

text \<open>A system on which every call succeeds; sockets are numbered 7.\<close>

definition echo_sys :: ie_sys where
  "echo_sys = \<lparr>eans = (\<lambda>tr k. case k of E_socket \<Rightarrow> (7, 0) | E_accept _ \<Rightarrow> (7, 0) | _ \<Rightarrow> (0, 0)), epeer = (\<lambda>tr. zero_addr)\<rparr>"

lemma echo_sys_reach: "\<exists>s. echo_reach echo_sys ''5000'' 7 s \<and> pending s = [(0, 0)]"
proof -
  obtain s where s: "echo_main_start echo_sys ''5000'' = Inr (7, s)" "handles s = []" "ios s = []" "pending s = []"
    by (simp add: echo_main_start_def echo_sys_def ecall_def SOCKET_ERROR_def)
  then have "pending (snd (accept_round echo_sys 7 s)) = [(0, 0)]"
    by (simp add: accept_round_def post_read_def request_def refused_def ecall_def echo_sys_def SOCKET_ERROR_def Let_def)
  moreover have "echo_reach echo_sys ''5000'' 7 (snd (accept_round echo_sys 7 s))"
    unfolding echo_reach_def by (rule reach_accept, rule reach_start, rule s(1)) (rule prod.collapse [symmetric])
  ultimately show ?thesis by blast
qed

theorem io_blocks_stay_alive_witness:
  "\<exists>s. echo_reach echo_sys ''5000'' 7 s \<and> pending s = [(0, 0)] \<and> (\<exists>io. deref (ios s) 0 = Some io)"
  using echo_sys_reach io_blocks_stay_alive [OF disjI1, of echo_sys "''5000''" 7] by fastforce

text \<open>
  The handle block is released too early: when the client closes its side, the worker frees the
  handle block at once; a completion that is still outstanding for that connection, such as the one
  of the last echo, then makes the worker read the freed block.
\<close>

theorem close_frees_handle_in_use:
  assumes "deref (handles s) h = Some hi" and "deref (ios s) a = Some io" and "rwMode io = READ"
  shows "\<exists>s'. EchoThread_round e 0 h a s = Some s' \<and> (\<forall>n b data. EchoThread_round e n h b (complete h b data s') = None)"
proof -
  have l: "h < length (handles s)" using deref_Some_less [OF assms(1)] .
  have "deref (handles (complete h b data t)) h = deref (handles t) h" for b data t
    by (simp add: complete_def Let_def split: option.splits)
  then show ?thesis
    using assms l by (simp add: EchoThread_round_def ecall_def deref_update)
qed

theorem close_frees_handle_in_use_witness:
  "\<exists>s'. EchoThread_round echo_sys 0 0 1 \<lparr>handles = [Some \<lparr>hClntSock = 7, clntAddr = zero_addr\<rparr>],
        ios = [Some \<lparr>io_len = 2, io_buffer = ''hi'', rwMode = WRITE\<rparr>, Some \<lparr>io_len = 100, io_buffer = [], rwMode = READ\<rparr>],
        pending = [(0, 0)], ecalls = []\<rparr> = Some s'
     \<and> (\<forall>n b data. EchoThread_round echo_sys n 0 b (complete 0 b data s') = None)"
  by (rule close_frees_handle_in_use [where io = "\<lparr>io_len = 100, io_buffer = [], rwMode = READ\<rparr>"]) (simp_all add: deref_def)

text \<open>
  The completion-routine server echoes what it received, but its receive window shrinks: after a
  read of \<open>n\<close> bytes the same bytes are sent back on the same socket, and the receive posted when they
  are sent asks for at most \<open>n\<close> bytes, as the length of the buffer descriptor is never set back.
\<close>

theorem completion_echo_shrinks_window:
  assumes "deref (cr_ios s) a = Some io" and "n \<noteq> 0" and "unat n \<le> length (cr_buf io)"
  shows "\<exists>s1 s2. ReadCompRoutine e n a s = Some s1 \<and> WriteCompRoutine e a s1 = Some s2
     \<and> cr_calls s2 = cr_calls s @ [E_send (cr_sock io) (take (unat n) (cr_buf io)) a, E_recv (cr_sock io) n a]"
  using assms deref_Some_less [OF assms(1)]
  by (simp add: ReadCompRoutine_def WriteCompRoutine_def ccall_def deref_update)

theorem completion_echo_shrinks_window_witness:
  "\<exists>s1 s2. ReadCompRoutine echo_sys 2 0 \<lparr>cr_ios = [Some \<lparr>cr_sock = 7, cr_buf = ''hi there'', cr_len = 1024\<rparr>], cr_calls = []\<rparr> = Some s1
     \<and> WriteCompRoutine echo_sys 0 s1 = Some s2 \<and> cr_calls s2 = [E_send 7 ''hi'' 0, E_recv 7 2 0]"
  using completion_echo_shrinks_window [of "\<lparr>cr_ios = [Some \<lparr>cr_sock = 7, cr_buf = ''hi there'', cr_len = 1024\<rparr>], cr_calls = []\<rparr>" 0
      "\<lparr>cr_sock = 7, cr_buf = ''hi there'', cr_len = 1024\<rparr>" 2 echo_sys]
  by (simp add: deref_def)

end
