(* ===== verification/ManyConnect.thy ===== *)
theory ManyConnect
  imports Connect
begin

text \<open>
  nbc.cpp: connecting to many hosts at once without blocking. The program starts a connect to every
  address of every host of its table and then waits with \<^verbatim>\<open>select\<close> until every connect is decided or ten
  waits have passed without news.

  The system is the parameter \<open>nbsys\<close>: \<open>nans\<close> gives the returned value and the error number of a call, given
  the calls before it, \<open>nresolve\<close> what \<^verbatim>\<open>getaddrinfo\<close> returns for a host and a port, and \<open>nready\<close> the set of
  descriptors \<^verbatim>\<open>select\<close> leaves. An \<^verbatim>\<open>fd_set\<close> is a set of descriptors; \<^verbatim>\<open>FD_SET\<close> and \<^verbatim>\<open>FD_ISSET\<close> on a number
  outside 0 to 1023 leave the bit array and are \<open>None\<close>, as is an access outside an array. What is printed
  is left out, but for the last loop, whose output is the result of the program.
\<close>

unbundle bit_operations_syntax

section \<open>Data\<close>

definition TIMEOUT :: int where
  "TIMEOUT = 10"

definition MAX_SOCKETS :: nat where
  "MAX_SOCKETS = 10"

definition AF_INET6 :: nat where
  "AF_INET6 = 10"

record host_s =
  hostname :: "string option"
  h_port :: string
  sockets :: "int list"
  numsock :: int

text \<open>An entry of the table as the program initialises it: elements that are not given are 0.\<close>

definition host_entry :: "string option \<Rightarrow> string \<Rightarrow> host_s" where
  "host_entry name p = \<lparr>hostname = name, h_port = p, sockets = [-1, -1, -1] @ replicate (MAX_SOCKETS - 3) 0, numsock = 0\<rparr>"

definition hosts :: "host_s list" where
  "hosts = [host_entry (Some ''www.devnull.cz'') ''80'', host_entry (Some ''www.devnull.cz'') ''33'',
     host_entry (Some ''mail.kolej.mff.cuni.cz'') ''999'', host_entry (Some ''localhost'') ''22'',
     host_entry (Some ''localhost'') ''7'', host_entry None ''0'']"

record addrinfo =
  ai_family :: nat
  ai_socktype :: int
  ai_addr :: string

datatype nbcall =
    N_getaddrinfo string string
  | N_getnameinfo string
  | N_socket nat int
  | N_getfl int
  | N_setfl int int
  | N_connect int string
  | N_select "int set"
  | N_so_error int
  | N_close int

record nbsys =
  nans :: "nbcall list \<Rightarrow> nbcall \<Rightarrow> int \<times> int"
  nresolve :: "string \<Rightarrow> string \<Rightarrow> int \<times> addrinfo list"
  nready :: "nbcall list \<Rightarrow> int set \<Rightarrow> int set"

text \<open>The locals of \<^verbatim>\<open>main\<close>; \<open>decided\<close> is \<^verbatim>\<open>n\<close>, the count of finished connects.\<close>

record nb_state =
  wrfds :: "int set"
  wrfds_orig :: "int set"
  decided :: int
  num_sockets :: int
  timeouts :: int
  nb_errno :: int
  ncalls :: "nbcall list"

definition ncall :: "nbsys \<Rightarrow> nbcall \<Rightarrow> nb_state \<Rightarrow> int \<times> nb_state" where
  "ncall y k s = (let (ret, err) = nans y (ncalls s) k
     in (ret, s\<lparr>ncalls := ncalls s @ [k], nb_errno := (if ret = -1 then err else nb_errno s)\<rparr>))"

section \<open>Starting the connects\<close>

text \<open>What is done with the socket of one address: the flags, the connect and the counting.\<close>

definition start_connect :: "nbsys \<Rightarrow> int \<Rightarrow> string \<Rightarrow> nb_state \<Rightarrow> (int + nb_state) option" where
  "start_connect y fd addr s =
     (let (flags, s) = ncall y (N_getfl fd) s;
          (ret, s) = ncall y (N_setfl fd (flags OR O_NONBLOCK)) s in
      if ret = -1 then Some (Inl 1)
      else let (ret, s) = ncall y (N_connect fd addr) s in
      if ret = -1 then
        (if nb_errno s = EINPROGRESS then
           (if fd_ok fd then Some (Inr (s\<lparr>wrfds := insert fd (wrfds s), num_sockets := num_sockets s + 1\<rparr>)) else None)
         else Some (Inr (s\<lparr>decided := decided s + 1, num_sockets := num_sockets s + 1\<rparr>)))
      else Some (Inr (s\<lparr>decided := decided s + 1, num_sockets := num_sockets s + 1\<rparr>)))"

text \<open>
  The loop over the addresses of one host. The index \<open>i\<close> also advances for an address that is skipped and
  for one whose socket could not be created, while \<^verbatim>\<open>numsock\<close> counts the sockets only.
\<close>

fun open_addresses :: "nbsys \<Rightarrow> int \<Rightarrow> addrinfo list \<Rightarrow> host_s \<Rightarrow> nb_state \<Rightarrow> (int + host_s \<times> nb_state) option" where
  "open_addresses y i [] h s = Some (Inr (h, s))"
| "open_addresses y i (res # rs) h s =
     (if ai_family res \<noteq> AF_INET \<and> ai_family res \<noteq> AF_INET6 then open_addresses y (i + 1) rs h s
      else let (error, s) = ncall y (N_getnameinfo (ai_addr res)) s in
      if error \<noteq> 0 then Some (Inl 1)
      else let (fd, s) = ncall y (N_socket (ai_family res) (ai_socktype res)) s in do {
        socks \<leftarrow> arr_set (sockets h) i fd;
        let h = h\<lparr>sockets := socks\<rparr>;
        if fd = -1 then open_addresses y (i + 1) rs h s
        else do {
          r \<leftarrow> start_connect y fd (ai_addr res) s;
          case r of
            Inl c \<Rightarrow> Some (Inl c)
          | Inr s \<Rightarrow> open_addresses y (i + 1) rs (h\<lparr>numsock := numsock h + 1\<rparr>) s } })"

text \<open>The loop over the hosts, up to the entry without a name; a table without one is left at its end.\<close>

fun open_hosts :: "nbsys \<Rightarrow> host_s list \<Rightarrow> nb_state \<Rightarrow> (int + host_s list \<times> nb_state) option" where
  "open_hosts y [] s = None"
| "open_hosts y (h # hs) s = (case hostname h of
      None \<Rightarrow> Some (Inr (h # hs, s))
    | Some name \<Rightarrow>
        (let (error, res) = nresolve y name (h_port h);
             s = s\<lparr>ncalls := ncalls s @ [N_getaddrinfo name (h_port h)]\<rparr> in
         if error \<noteq> 0 then Some (Inl 1)
         else do {
           r \<leftarrow> open_addresses y 0 res h s;
           case r of
             Inl c \<Rightarrow> Some (Inl c)
           | Inr (h, s) \<Rightarrow> do {
               r \<leftarrow> open_hosts y hs s;
               case r of
                 Inl c \<Rightarrow> Some (Inl c)
               | Inr (hs, s) \<Rightarrow> Some (Inr (h # hs, s)) } }))"

section \<open>Waiting for the connects\<close>

definition check_socket :: "nbsys \<Rightarrow> int \<Rightarrow> nb_state \<Rightarrow> (int + nb_state) option" where
  "check_socket y fd s =
     (if \<not> fd_ok fd then None
      else if fd \<notin> wrfds s then Some (Inr s)
      else let (ret, s) = ncall y (N_so_error fd) s in
      if ret = -1 then Some (Inl 1)
      else let s = s\<lparr>wrfds_orig := wrfds_orig s - {fd}\<rparr>;
               (_, s) = ncall y (N_close fd) s
           in Some (Inr (s\<lparr>decided := decided s + 1\<rparr>)))"

text \<open>The sockets of a host from \<open>i\<close> on, \<open>k\<close> of them.\<close>

fun check_sockets :: "nbsys \<Rightarrow> host_s \<Rightarrow> int \<Rightarrow> nat \<Rightarrow> nb_state \<Rightarrow> (int + nb_state) option" where
  "check_sockets y h i 0 s = Some (Inr s)"
| "check_sockets y h i (Suc k) s = do {
     fd \<leftarrow> arr_get (sockets h) i;
     r \<leftarrow> check_socket y fd s;
     case r of Inl c \<Rightarrow> Some (Inl c) | Inr s \<Rightarrow> check_sockets y h (i + 1) k s }"

fun check_hosts :: "nbsys \<Rightarrow> host_s list \<Rightarrow> nb_state \<Rightarrow> (int + nb_state) option" where
  "check_hosts y [] s = None"
| "check_hosts y (h # hs) s = (case hostname h of
      None \<Rightarrow> Some (Inr s)
    | Some _ \<Rightarrow> do {
        r \<leftarrow> check_sockets y h 0 (nat (numsock h)) s;
        case r of Inl c \<Rightarrow> Some (Inl c) | Inr s \<Rightarrow> check_hosts y hs s })"

text \<open>
  The loop around \<^verbatim>\<open>select\<close>. Note the \<^verbatim>\<open>continue\<close> after a wait that timed out: it skips the assignment at the
  end of the loop, so the next \<^verbatim>\<open>select\<close> gets the set the last one left.
\<close>

partial_function (option) wait_loop :: "nbsys \<Rightarrow> host_s list \<Rightarrow> nb_state \<Rightarrow> (int + nb_state) option" where
  "wait_loop y hs s =
     (if decided s \<noteq> num_sockets s then
        (let ready = nready y (ncalls s) (wrfds s);
             (error, s) = ncall y (N_select (wrfds s)) s;
             s = s\<lparr>wrfds := ready\<rparr> in
         if error = 0 then
           (let s = s\<lparr>timeouts := timeouts s + 1\<rparr>
            in if timeouts s = TIMEOUT then Some (Inr s) else wait_loop y hs s)
         else if error = -1 then Some (Inl 1)
         else do {
           r \<leftarrow> check_hosts y hs s;
           case r of Inl c \<Rightarrow> Some (Inl c) | Inr s \<Rightarrow> wait_loop y hs (s\<lparr>wrfds := wrfds_orig s\<rparr>) })
      else Some (Inr s))"

declare wait_loop.simps [code]

text \<open>The last loop: the hosts, ports and sockets that are reported as timed out.\<close>

fun report_sockets :: "string \<Rightarrow> host_s \<Rightarrow> int \<Rightarrow> nat \<Rightarrow> nb_state \<Rightarrow> (string \<times> string \<times> int) list option" where
  "report_sockets name h i 0 s = Some []"
| "report_sockets name h i (Suc k) s = do {
     fd \<leftarrow> arr_get (sockets h) i;
     if \<not> fd_ok fd then None
     else do {
       rs \<leftarrow> report_sockets name h (i + 1) k s;
       Some (if fd \<in> wrfds_orig s then (name, h_port h, fd) # rs else rs) } }"

fun report_hosts :: "host_s list \<Rightarrow> nb_state \<Rightarrow> (string \<times> string \<times> int) list option" where
  "report_hosts [] s = None"
| "report_hosts (h # hs) s = (case hostname h of
      None \<Rightarrow> Some []
    | Some name \<Rightarrow> do {
        r \<leftarrow> report_sockets name h 0 (nat (numsock h)) s;
        rs \<leftarrow> report_hosts hs s;
        Some (r @ rs) })"

definition nb_init :: nb_state where
  "nb_init = \<lparr>wrfds = {}, wrfds_orig = {}, decided = 0, num_sockets = 0, timeouts = 0, nb_errno = 0, ncalls = []\<rparr>"

text \<open>\<^verbatim>\<open>main\<close> on the table \<open>tab\<close>: the exit code, what is reported as timed out, and the final state if it is reached.\<close>

definition nbc_main :: "nbsys \<Rightarrow> host_s list \<Rightarrow> (int \<times> (string \<times> string \<times> int) list \<times> nb_state option) option" where
  "nbc_main y tab = do {
     r \<leftarrow> open_hosts y tab nb_init;
     case r of
       Inl c \<Rightarrow> Some (c, [], None)
     | Inr (hs, s) \<Rightarrow> do {
         r \<leftarrow> wait_loop y hs (s\<lparr>wrfds_orig := wrfds s\<rparr>);
         case r of
           Inl c \<Rightarrow> Some (c, [], None)
         | Inr s \<Rightarrow> do {
             rep \<leftarrow> report_hosts hs s;
             Some (0, rep, Some s) } } }"

section \<open>The system and the table\<close>

text \<open>
  What the manual of \<^verbatim>\<open>select\<close> says, for calls that do not fail: the descriptors left are among those
  given, their number is positive unless the time is over, and then none is left.
\<close>

definition select_ok :: "nbsys \<Rightarrow> bool" where
  "select_ok y \<longleftrightarrow> (\<forall>tr W. nready y tr W \<subseteq> W \<and> 0 \<le> fst (nans y tr (N_select W))
     \<and> (fst (nans y tr (N_select W)) = 0 \<longleftrightarrow> nready y tr W = {}))"

definition is_socket :: "nbcall \<Rightarrow> bool" where
  "is_socket k = (case k of N_socket _ _ \<Rightarrow> True | _ \<Rightarrow> False)"

lemma is_socket_simps [simp]:
  "is_socket (N_socket f t)" "\<not> is_socket (N_getaddrinfo a b)" "\<not> is_socket (N_getnameinfo a)" "\<not> is_socket (N_getfl fd)"
  "\<not> is_socket (N_setfl fd fl)" "\<not> is_socket (N_connect fd a)" "\<not> is_socket (N_select W)" "\<not> is_socket (N_so_error fd)"
  "\<not> is_socket (N_close fd)"
  by (simp_all add: is_socket_def)

definition nsock :: "nbcall list \<Rightarrow> nat" where
  "nsock tr = length (filter is_socket tr)"

lemma nsock_append [simp]: "nsock (tr @ tr') = nsock tr + nsock tr'"
  by (simp add: nsock_def)

lemma nsock_Cons [simp]: "nsock (k # tr) = (if is_socket k then Suc (nsock tr) else nsock tr)" "nsock [] = 0"
  by (simp_all add: nsock_def)

definition named :: "host_s list \<Rightarrow> host_s list" where
  "named tab = takeWhile (\<lambda>h. hostname h \<noteq> None) tab"




definition net_ok :: "nbsys \<Rightarrow> (nat \<Rightarrow> int) \<Rightarrow> nat \<Rightarrow> bool" where
  "net_ok y fdno N \<longleftrightarrow> (\<forall>tr a. fst (nans y tr (N_getnameinfo a)) = 0)
     \<and> (\<forall>tr f t. nsock tr < N \<longrightarrow> fst (nans y tr (N_socket f t)) = fdno (nsock tr))
     \<and> inj_on fdno {..< N} \<and> (\<forall>k < N. fd_ok (fdno k))
     \<and> (\<forall>tr fd fl. fst (nans y tr (N_setfl fd fl)) \<noteq> -1) \<and> (\<forall>tr fd. fst (nans y tr (N_so_error fd)) \<noteq> -1)
     \<and> select_ok y"


section \<open>The connects are started\<close>

lemma ncall_fst [simp]: "fst (ncall y k s) = fst (nans y (ncalls s) k)"
  by (simp add: ncall_def case_prod_unfold Let_def)

lemma ncall_fields [simp]:
  "wrfds (snd (ncall y k s)) = wrfds s" "wrfds_orig (snd (ncall y k s)) = wrfds_orig s" "decided (snd (ncall y k s)) = decided s"
  "num_sockets (snd (ncall y k s)) = num_sockets s" "timeouts (snd (ncall y k s)) = timeouts s"
  "ncalls (snd (ncall y k s)) = ncalls s @ [k]"
  by (simp_all add: ncall_def case_prod_unfold Let_def)


text \<open>A connect on \<open>fd\<close> was answered ``in progress''.\<close>

definition in_progress :: "nbsys \<Rightarrow> nbcall list \<Rightarrow> int \<Rightarrow> bool" where
  "in_progress y tr fd \<longleftrightarrow> (\<exists>i < length tr. \<exists>a. tr ! i = N_connect fd a \<and> nans y (take i tr) (N_connect fd a) = (-1, EINPROGRESS))"

lemma in_progress_Nil [simp]: "\<not> in_progress y [] fd"
  by (simp add: in_progress_def)








text \<open>The sockets of the table that the loops over it visit.\<close>

definition host_fds :: "host_s \<Rightarrow> int list" where
  "host_fds h = take (nat (numsock h)) (sockets h)"

definition live :: "host_s list \<Rightarrow> int list" where
  "live hs = concat (map host_fds (named hs))"

definition table_ok :: "host_s list \<Rightarrow> bool" where
  "table_ok hs \<longleftrightarrow> named hs \<noteq> hs \<and> (\<forall>h \<in> set (named hs). nat (numsock h) \<le> length (sockets h))"

lemma named_simps [simp]:
  "named [] = []" "hostname h = None \<Longrightarrow> named (h # hs) = []" "hostname h = Some n \<Longrightarrow> named (h # hs) = h # named hs"
  by (simp_all add: named_def)

lemma live_simps [simp]:
  "live [] = []" "hostname h = None \<Longrightarrow> live (h # hs) = []" "hostname h = Some n \<Longrightarrow> live (h # hs) = host_fds h @ live hs"
  by (simp_all add: live_def)

lemma table_ok_simps [simp]:
  "\<not> table_ok []" "hostname h = None \<Longrightarrow> table_ok (h # hs)"
  "hostname h = Some n \<Longrightarrow> table_ok (h # hs) \<longleftrightarrow> nat (numsock h) \<le> length (sockets h) \<and> table_ok hs"
  by (auto simp: table_ok_def)


section \<open>The connects are awaited\<close>












section \<open>Properties\<close>


text \<open>
  A machine whose descriptors count up from 3 and on which every host has the two addresses \<open>as\<close>; every
  connect is in progress at first, and every wait reports what \<open>rdy\<close> says.
\<close>

definition machine :: "addrinfo list \<Rightarrow> (nbcall list \<Rightarrow> int set \<Rightarrow> int set) \<Rightarrow> nbsys" where
  "machine as rdy = \<lparr>nans = (\<lambda>tr k. case k of
       N_socket _ _ \<Rightarrow> (3 + int (nsock tr), 0) | N_connect _ _ \<Rightarrow> (-1, EINPROGRESS)
     | N_select W \<Rightarrow> (if rdy tr W = {} then 0 else 1, 0) | _ \<Rightarrow> (0, 0)),
     nresolve = (\<lambda>name p. (0, as)), nready = rdy\<rparr>"

definition two_addresses :: "addrinfo list" where
  "two_addresses = [\<lparr>ai_family = AF_INET, ai_socktype = 1, ai_addr = ''a''\<rparr>, \<lparr>ai_family = AF_INET6, ai_socktype = 1, ai_addr = ''b''\<rparr>]"


lemma machine_ok:
  assumes "\<And>tr W. rdy tr W \<subseteq> W" and "N \<le> 1000"
  shows "net_ok (machine as rdy) (\<lambda>k. 3 + int k) N"
  using assms by (auto simp: net_ok_def machine_def select_ok_def inj_on_def fd_ok_def FD_SETSIZE_def)


text \<open>After a wait without news the set is empty, and it stays so.\<close>

lemma wait_empty:
  assumes "select_ok y" and "wrfds s = {}" and "decided s \<noteq> num_sockets s" and "timeouts s < TIMEOUT"
  shows "\<exists>s'. wait_loop y hs s = Some (Inr s') \<and> timeouts s' = TIMEOUT \<and> decided s' = decided s \<and> wrfds_orig s' = wrfds_orig s
     \<and> num_sockets s' = num_sockets s \<and> ncalls s' = ncalls s @ replicate (nat (TIMEOUT - timeouts s)) (N_select {})"
  using assms(2-)
proof (induction "nat (TIMEOUT - timeouts s)" arbitrary: s)
  case (Suc n)
  let ?t = "(snd (ncall y (N_select {}) s))\<lparr>wrfds := {}, timeouts := timeouts s + 1\<rparr>"
  have "nready y (ncalls s) {} = {}" "fst (nans y (ncalls s) (N_select {})) = 0" using assms(1) by (auto simp: select_ok_def)
  then have w: "wait_loop y hs s = (if timeouts s + 1 = TIMEOUT then Some (Inr ?t) else wait_loop y hs ?t)"
    using Suc.prems by (simp add: wait_loop.simps [of y hs s] case_prod_unfold Let_def)
  have n: "nat (TIMEOUT - timeouts s) = Suc (nat (TIMEOUT - (timeouts s + 1)))" using Suc.prems(3) by simp
  show ?case
  proof (cases "timeouts s + 1 = TIMEOUT")
    case False
    then show ?thesis using Suc.hyps(1) [of ?t] Suc.hyps(2) Suc.prems n w by (auto simp: replicate_app_Cons_same)
  qed (use w n in simp)
qed simp

text \<open>
  C38. One quiet second loses all connects that are still open. When a wait times out, \<^verbatim>\<open>select\<close> has cleared the
  set, and the program goes on without restoring it: it then waits on the empty set until ten waits have
  passed, asks no socket for its state any more, and gives up on all connects that were outstanding,
  whatever becomes of them.
\<close>

theorem quiet_wait_loses_connects:
  assumes "select_ok y" and "decided s \<noteq> num_sockets s" and "timeouts s < TIMEOUT"
    and "fst (nans y (ncalls s) (N_select (wrfds s))) = 0"
  shows "\<exists>s'. wait_loop y hs s = Some (Inr s') \<and> timeouts s' = TIMEOUT \<and> decided s' = decided s \<and> wrfds_orig s' = wrfds_orig s
     \<and> ncalls s' = ncalls s @ N_select (wrfds s) # replicate (nat (TIMEOUT - timeouts s) - 1) (N_select {})"
proof -
  let ?t = "(snd (ncall y (N_select (wrfds s)) s))\<lparr>wrfds := {}, timeouts := timeouts s + 1\<rparr>"
  have "nready y (ncalls s) (wrfds s) = {}" using assms(1,4) by (simp add: select_ok_def)
  then have w: "wait_loop y hs s = (if timeouts s + 1 = TIMEOUT then Some (Inr ?t) else wait_loop y hs ?t)"
    using assms(2,4) by (simp add: wait_loop.simps [of y hs s] case_prod_unfold Let_def)
  have n: "nat (TIMEOUT - timeouts s) - 1 = nat (TIMEOUT - (timeouts s + 1))" by simp
  show ?thesis
  proof (cases "timeouts s + 1 = TIMEOUT")
    case False
    then show ?thesis using wait_empty [OF assms(1), of ?t hs] assms(2,3) n w by auto
  qed (use w n in simp)
qed

text \<open>Nothing is ready in the first wait, everything that is asked for in every other one.\<close>

definition slow_start :: "nbcall list \<Rightarrow> int set \<Rightarrow> int set" where
  "slow_start tr W = (if tr = [] then {} else W)"

theorem quiet_wait_loses_connects_witness:
  "\<exists>s'. wait_loop (machine two_addresses slow_start) hosts (nb_init\<lparr>wrfds := {3}, wrfds_orig := {3}, num_sockets := 1\<rparr>) = Some (Inr s')
     \<and> timeouts s' = TIMEOUT \<and> decided s' = 0 \<and> wrfds_orig s' = {3} \<and> ncalls s' = N_select {3} # replicate 9 (N_select {})"
proof -
  let ?y = "machine two_addresses slow_start" and ?s = "nb_init\<lparr>wrfds := {3}, wrfds_orig := {3}, num_sockets := 1\<rparr>"
  have "select_ok ?y" using machine_ok [of slow_start 0 two_addresses] by (simp add: net_ok_def slow_start_def)
  moreover have "fst (nans ?y (ncalls ?s) (N_select (wrfds ?s))) = 0" by (simp add: machine_def slow_start_def nb_init_def)
  ultimately show ?thesis
    using quiet_wait_loses_connects [of ?y ?s hosts] by (simp add: nb_init_def TIMEOUT_def)
qed

text \<open>
  A socket that cannot be created shifts the table. When a host has an IPv6 address followed by another
  one, on a machine without IPv6, the one socket of the host stands at index 1 of its array while
  \<^verbatim>\<open>numsock\<close> is 1: the loops over the first \<^verbatim>\<open>numsock\<close> entries look at the \<open>-1\<close> in index 0, outside the bits of
  the set.
\<close>

theorem missing_ipv6_faults:
  assumes "nresolve y name p = (0, [\<lparr>ai_family = AF_INET6, ai_socktype = t, ai_addr = a\<rparr>, \<lparr>ai_family = AF_INET, ai_socktype = t, ai_addr = b\<rparr>])"
    and "\<And>tr a. fst (nans y tr (N_getnameinfo a)) = 0" and "\<And>tr. fst (nans y tr (N_socket AF_INET6 t)) = -1"
    and "\<And>tr. fst (nans y tr (N_socket AF_INET t)) = fd" and "fd_ok fd" and "\<And>tr fl. fst (nans y tr (N_setfl fd fl)) \<noteq> -1"
    and "\<And>tr. nans y tr (N_connect fd b) = (-1, EINPROGRESS)" and "\<And>tr. fst (nans y tr (N_select {fd})) = 1"
  shows "nbc_main y [host_entry (Some name) p, host_entry None ''0''] = None"
proof -
  have fd: "fd \<noteq> -1" using assms(5) by (auto simp: fd_ok_def)
  have fam: "AF_INET6 \<noteq> AF_INET" by (simp add: AF_INET6_def AF_INET_def)
  obtain s where s: "open_hosts y [host_entry (Some name) p, host_entry None ''0''] nb_init = Some (Inr
      ([(host_entry (Some name) p)\<lparr>sockets := [-1, fd, -1] @ replicate 7 0, numsock := 1\<rparr>, host_entry None ''0''], s))"
      "wrfds s = {fd}" "decided s = 0" "num_sockets s = 1"
    using assms fd fam
    by (simp add: host_entry_def nb_init_def MAX_SOCKETS_def arr_set_def start_connect_def case_prod_unfold Let_def ncall_def)
  have "wait_loop y [(host_entry (Some name) p)\<lparr>sockets := [-1, fd, -1] @ replicate 7 0, numsock := 1\<rparr>, host_entry None ''0'']
      (s\<lparr>wrfds_orig := wrfds s\<rparr>) = None"
    using s(2-4) assms(8)
    by (subst wait_loop.simps) (simp add: case_prod_unfold Let_def host_entry_def arr_get_def check_socket_def fd_ok_def)
  with s show ?thesis by (simp add: nbc_main_def)
qed

definition no_ipv6 :: nbsys where
  "no_ipv6 = \<lparr>nans = (\<lambda>tr k. case k of N_socket f t \<Rightarrow> if f = AF_INET6 then (-1, 97) else (3, 0)
     | N_connect _ _ \<Rightarrow> (-1, EINPROGRESS) | N_select _ \<Rightarrow> (1, 0) | _ \<Rightarrow> (0, 0)),
     nresolve = (\<lambda>name p. (0, rev two_addresses)), nready = (\<lambda>tr W. W)\<rparr>"

theorem missing_ipv6_faults_witness: "nbc_main no_ipv6 [host_entry (Some ''localhost'') ''22'', host_entry None ''0''] = None"
  by (rule missing_ipv6_faults [where fd = 3 and t = 1 and a = "''b''" and b = "''a''"])
    (simp_all add: no_ipv6_def two_addresses_def AF_INET6_def AF_INET_def fd_ok_def FD_SETSIZE_def)

end
