(* ===== verification/WritevReply.thy ===== *)
theory WritevReply
  imports Net
begin

text \<open>
  writev.cpp: a server that accepts one connection and sends a file with a header in front of it, gathered by
  \<^verbatim>\<open>writev\<close>. The file system and the socket calls are the parameter \<open>unix\<close>: \<open>u_stat\<close> gives whether the
  name is a directory, whether others may read it and its size, \<open>u_read\<close> what \<^verbatim>\<open>read\<close> returns and stores, and
  \<open>u_ans\<close> what the other calls return.
\<close>

section \<open>The program\<close>

definition WV_BUFFER_SIZE :: nat where
  "WV_BUFFER_SIZE = 1024"

definition status_line :: "string list" where
  "status_line = [''200 OK'', ''500 Internal server error'']"

datatype ucall =
    U_socket
  | U_bind int SOCKADDR_IN
  | U_listen int
  | U_accept int
  | U_stat string
  | U_open string
  | U_read int nat
  | U_writev int string string
  | U_send int string
  | U_close int

record file_info =
  st_dir :: bool
  st_roth :: bool
  st_size :: nat

record unix =
  u_ans :: "ucall list \<Rightarrow> ucall \<Rightarrow> int"
  u_stat :: "string \<Rightarrow> file_info option"
  u_read :: "int \<Rightarrow> nat \<Rightarrow> int \<times> string"
  u_pton :: "string \<Rightarrow> nat \<times> nat \<times> nat \<times> nat"

text \<open>How the program ends: with an exit code, in a failed assertion, or in an access that has no meaning.\<close>

datatype ending = Exited int | Asserted | Fault

text \<open>
  \<^verbatim>\<open>snprintf(buf + pos, n, "%s", txt)\<close>: at most \<open>n - 1\<close> characters and a NUL are stored. It returns the length
  of \<open>txt\<close>, which the callers below take directly.
\<close>

definition snprintf_at :: "string \<Rightarrow> nat \<Rightarrow> nat \<Rightarrow> string \<Rightarrow> string option" where
  "snprintf_at buf pos n txt =
     (if n = 0 then Some buf
      else let w = take (n - 1) txt @ [NUL]
           in if pos + length w \<le> length buf then Some (splice buf pos w) else None)"

text \<open>\<^verbatim>\<open>strlen\<close> and the characters it counts.\<close>

definition c_string :: "string \<Rightarrow> string option" where
  "c_string buf = (if NUL \<in> set buf then Some (takeWhile (\<lambda>c. c \<noteq> NUL) buf) else None)"

text \<open>\<^verbatim>\<open>"%d"\<close> takes the low 32 bits of the size, as a signed number.\<close>

definition percent_d :: "nat \<Rightarrow> string" where
  "percent_d n = dec_int (sint (word_of_nat n :: 32 word))"

definition ok_header :: "nat \<Rightarrow> string option" where
  "ok_header fsize = do {
     let header_buf = replicate WV_BUFFER_SIZE NUL;
     let line = ''HTTP/1.1'' @ '' '' @ status_line ! 0 @ [CR, LF];
     header_buf \<leftarrow> snprintf_at header_buf 0 (WV_BUFFER_SIZE - 1) line;
     let len = length line;
     let line = ''Content-Length: '' @ percent_d fsize @ [CR, LF];
     header_buf \<leftarrow> snprintf_at header_buf len (WV_BUFFER_SIZE - 1 - len) line;
     let len = len + length line;
     header_buf \<leftarrow> snprintf_at header_buf len (WV_BUFFER_SIZE - 1 - len) [CR, LF];
     c_string header_buf }"

definition error_header :: "string option" where
  "error_header = do {
     let header_buf = replicate WV_BUFFER_SIZE NUL;
     let line = ''HTTP/1.1'' @ '' '' @ status_line ! 1 @ [CR, LF];
     header_buf \<leftarrow> snprintf_at header_buf 0 (WV_BUFFER_SIZE - 1) line;
     let len = length line;
     header_buf \<leftarrow> snprintf_at header_buf 0 (WV_BUFFER_SIZE - 1 - len) [CR, LF];
     c_string header_buf }"

text \<open>
  Reading the file: the calls made, \<^verbatim>\<open>valid\<close> and \<^verbatim>\<open>file_buf\<close>, which is \<open>None\<close> where the program has not
  assigned it.
\<close>

definition load_file :: "unix \<Rightarrow> string \<Rightarrow> ucall list \<Rightarrow> ucall list \<times> bool \<times> string option \<times> nat" where
  "load_file u file_name tr =
     (let tr = tr @ [U_stat file_name] in
      case u_stat u file_name of
        None \<Rightarrow> (tr, False, None, 0)
      | Some st \<Rightarrow>
          if st_dir st then (tr, False, None, st_size st)
          else if st_roth st then
            (let fd = u_ans u tr (U_open file_name);
                 tr = tr @ [U_open file_name];
                 file_buf = replicate (st_size st + 1) NUL;
                 (ret, bytes) = u_read u fd (st_size st);
                 tr = tr @ [U_read fd (st_size st)] in
             if ret < 0 then (tr, False, Some file_buf, st_size st)
             else (tr, True, Some (splice file_buf 0 (take (st_size st) bytes)), st_size st))
          else (tr, False, None, st_size st))"

text \<open>What is done for the accepted connection.\<close>

definition answer :: "unix \<Rightarrow> int \<Rightarrow> string \<Rightarrow> ucall list \<Rightarrow> ucall list \<times> ending option" where
  "answer u connfd file_name tr =
     (let (tr, valid, file_buf, fsize) = load_file u file_name tr in
      if valid then
        (case (ok_header fsize, file_buf) of
           (Some header, Some buf) \<Rightarrow> (tr @ [U_writev connfd header (take fsize buf), U_close connfd], None)
         | _ \<Rightarrow> (tr, Some Fault))
      else
        (case error_header of
           Some header \<Rightarrow> (tr @ [U_send connfd header, U_close connfd], if file_buf = None then Some Fault else None)
         | None \<Rightarrow> (tr, Some Fault)))"

definition writev_main :: "unix \<Rightarrow> string list \<Rightarrow> ucall list \<times> ending" where
  "writev_main u argv =
     (if length argv \<le> 3 then ([], Exited 1)
      else let file_name = argv ! 3;
               address = \<lparr>sin_family = AF_INET, sin_port = htons (word_of_int (atoi (argv ! 2))), sin_addr = u_pton u (argv ! 1)\<rparr>;
               sock = u_ans u [] U_socket;
               tr = [U_socket] in
      if \<not> sock \<ge> 0 then (tr, Asserted)
      else let ret = u_ans u tr (U_bind sock address);
               tr = tr @ [U_bind sock address] in
      if \<not> ret \<noteq> -1 then (tr, Asserted)
      else let ret = u_ans u tr (U_listen sock);
               tr = tr @ [U_listen sock] in
      if \<not> ret \<noteq> -1 then (tr, Asserted)
      else let connfd = u_ans u tr (U_accept sock);
               tr = tr @ [U_accept sock] in
      if connfd < 0 then (tr @ [U_close sock], Exited 0)
      else let (tr, e) = answer u connfd file_name tr in
      case e of
        Some e \<Rightarrow> (tr, e)
      | None \<Rightarrow> (tr @ [U_close sock], Exited 0))"

section \<open>The headers\<close>

text \<open>The buffer holds the C string \<open>t\<close>.\<close>

definition holds :: "string \<Rightarrow> string \<Rightarrow> bool" where
  "holds buf t \<longleftrightarrow> length buf = WV_BUFFER_SIZE \<and> NUL \<notin> set t \<and> (\<exists>z. buf = t @ NUL # z)"

lemma holds_empty: "holds (replicate WV_BUFFER_SIZE NUL) []"
  by (simp add: holds_def WV_BUFFER_SIZE_def replicate_Suc [of 1023, symmetric] exI [of _ "replicate 1023 NUL"])

lemma holds_c_string: "holds buf t \<Longrightarrow> c_string buf = Some t"
  by (auto simp: holds_def c_string_def takeWhile_append)

lemma snprintf_appends:
  assumes "holds buf t" and "NUL \<notin> set txt" and "length t + length txt < WV_BUFFER_SIZE - 1"
  shows "\<exists>buf'. snprintf_at buf (length t) (WV_BUFFER_SIZE - 1 - length t) txt = Some buf' \<and> holds buf' (t @ txt)"
proof -
  have "take (WV_BUFFER_SIZE - 1 - length t - 1) txt = txt" using assms(3) by simp
  then have "snprintf_at buf (length t) (WV_BUFFER_SIZE - 1 - length t) txt = Some (splice buf (length t) (txt @ [NUL]))"
    using assms by (auto simp: snprintf_at_def Let_def holds_def)
  then show ?thesis using assms by (auto simp: holds_def splice_def)
qed

lemma digit_char:
  assumes "k < 10"
  shows "of_char (char_of (48 + k)) = (48 + k :: nat)" and "char_of (48 + k :: nat) \<noteq> NUL" and "char_of (48 + k :: nat) \<noteq> CHR ''-''"
proof -
  show v: "of_char (char_of (48 + k)) = (48 + k :: nat)" using assms by simp
  have "of_char (char_of (48 + k)) \<noteq> (of_char NUL :: nat)" "of_char (char_of (48 + k)) \<noteq> (of_char CHR ''-'' :: nat)"
    unfolding v by simp_all
  then show "char_of (48 + k :: nat) \<noteq> NUL" "char_of (48 + k :: nat) \<noteq> CHR ''-''" by metis+
qed

lemma dec_nat_chars: "NUL \<notin> set (dec_nat n) \<and> CHR ''-'' \<notin> set (dec_nat n)"
proof (induction n rule: dec_nat.induct)
  case (1 n)
  then show ?case using digit_char(2,3) [of n] digit_char(2,3) [of "n mod 10"] by (auto simp: dec_nat.simps [of n])
qed

text \<open>The number that is written can be read back, so two numbers are never written alike.\<close>

lemma dec_nat_value: "foldl (\<lambda>v c. v * 10 + (of_char c - 48)) 0 (dec_nat n) = n"
proof (induction n rule: dec_nat.induct)
  case (1 n)
  then show ?case using digit_char(1) [of n] digit_char(1) [of "n mod 10"] by (auto simp: dec_nat.simps [of n])
qed

lemma dec_nat_inj: "dec_nat m = dec_nat n \<Longrightarrow> m = n"
  using dec_nat_value by metis

lemma dec_nat_length: "n < 10 ^ Suc k \<Longrightarrow> length (dec_nat n) \<le> Suc k"
proof (induction k arbitrary: n)
  case (Suc k)
  have "n div 10 < 10 ^ Suc k" using Suc.prems by (simp add: less_mult_imp_div_less)
  then show ?case using Suc.IH [of "n div 10"] by (auto simp: dec_nat.simps [of n])
qed (simp add: dec_nat.simps)

lemma percent_d_short: "length (percent_d n) \<le> 11" "NUL \<notin> set (percent_d n)"
proof -
  let ?i = "sint (word_of_nat n :: 32 word)"
  have "- (2 ^ 31) \<le> ?i" "?i < 2 ^ 31" using sint_greater_eq [of "word_of_nat n :: 32 word"] sint_less [of "word_of_nat n :: 32 word"] by simp_all
  then have "nat (- ?i) < 10 ^ Suc 9" "nat ?i < 10 ^ Suc 9" by simp_all
  then show "length (percent_d n) \<le> 11" using dec_nat_length [of "nat (- ?i)" 9] dec_nat_length [of "nat ?i" 9]
    by (auto simp: percent_d_def dec_int_def)
  show "NUL \<notin> set (percent_d n)" using dec_nat_chars by (auto simp: percent_d_def dec_int_def)
qed

text \<open>The size is printed as it is just below two gigabytes.\<close>

lemma percent_d_exact: "percent_d n = dec_nat n \<longleftrightarrow> n < 2 ^ 31"
proof
  assume "n < 2 ^ 31"
  then have "unat (word_of_nat n :: 32 word) = n" by (intro unat_word_of_nat) simp
  then have "sint (word_of_nat n :: 32 word) = int n" using sint_small [of "word_of_nat n"] \<open>n < 2 ^ 31\<close> by simp
  then show "percent_d n = dec_nat n" by (simp add: percent_d_def dec_int_def)
next
  assume e: "percent_d n = dec_nat n"
  let ?i = "sint (word_of_nat n :: 32 word)"
  have "\<not> ?i < 0"
  proof
    assume "?i < 0"
    then have "CHR ''-'' \<in> set (dec_nat n)" using e by (simp add: percent_d_def dec_int_def flip: e)
    then show False using dec_nat_chars by blast
  qed
  then have "nat ?i = n" using e dec_nat_inj by (simp add: percent_d_def dec_int_def)
  moreover have "?i < 2 ^ 31" using sint_less [of "word_of_nat n :: 32 word"] by simp
  ultimately show "n < 2 ^ 31" by (metis nat_less_numeral_power_cancel_iff)
qed

lemma ok_header_text: "ok_header n = Some (''HTTP/1.1 200 OK'' @ [CR, LF] @ ''Content-Length: '' @ percent_d n @ [CR, LF] @ [CR, LF])"
proof -
  let ?l1 = "''HTTP/1.1 200 OK'' @ [CR, LF]" and ?l2 = "''Content-Length: '' @ percent_d n @ [CR, LF]"
  note n = percent_d_short [of n]
  obtain b1 where 1: "snprintf_at (replicate WV_BUFFER_SIZE NUL) 0 (WV_BUFFER_SIZE - 1) ?l1 = Some b1" "holds b1 ?l1"
    using snprintf_appends [OF holds_empty, of ?l1] by (auto simp: WV_BUFFER_SIZE_def)
  obtain b2 where 2: "snprintf_at b1 (length ?l1) (WV_BUFFER_SIZE - 1 - length ?l1) ?l2 = Some b2" "holds b2 (?l1 @ ?l2)"
    using snprintf_appends [OF 1(2), of ?l2] n by (auto simp: WV_BUFFER_SIZE_def)
  obtain b3 where 3: "snprintf_at b2 (length (?l1 @ ?l2)) (WV_BUFFER_SIZE - 1 - length (?l1 @ ?l2)) [CR, LF] = Some b3"
      "holds b3 ((?l1 @ ?l2) @ [CR, LF])"
    using snprintf_appends [OF 2(2), of "[CR, LF]"] n by (auto simp: WV_BUFFER_SIZE_def)
  show ?thesis using 1(1) 2(1) 3(1) holds_c_string [OF 3(2)] by (simp add: ok_header_def status_line_def Let_def)
qed

lemma error_header_text: "error_header = Some [CR, LF]"
  by (simp add: error_header_def snprintf_at_def c_string_def splice_def WV_BUFFER_SIZE_def status_line_def Let_def)

section \<open>Properties\<close>

text \<open>The calls with which the program gets its connection.\<close>

definition connected :: "unix \<Rightarrow> string list \<Rightarrow> int \<Rightarrow> int \<Rightarrow> bool" where
  "connected u argv sock connfd \<longleftrightarrow> 3 < length argv \<and> (\<forall>tr. u_ans u tr U_socket = sock) \<and> 0 \<le> sock
     \<and> (\<forall>tr a. u_ans u tr (U_bind sock a) \<noteq> -1) \<and> (\<forall>tr. u_ans u tr (U_listen sock) \<noteq> -1)
     \<and> (\<forall>tr. u_ans u tr (U_accept sock) = connfd) \<and> 0 \<le> connfd"

lemma connected_main:
  assumes "connected u argv sock connfd"
  shows "\<exists>tr. writev_main u argv = (let (tr, e) = answer u connfd (argv ! 3) tr in
     case e of Some e \<Rightarrow> (tr, e) | None \<Rightarrow> (tr @ [U_close sock], Exited 0)) \<and> (\<forall>d. U_close d \<notin> set tr)"
  using assms unfolding connected_def writev_main_def Let_def by auto

text \<open>
  C37. What a connected client gets for a file that is readable for others, where a \<^verbatim>\<open>read\<close> of the opened descriptor
  succeeds (perhaps short) and one of a negative descriptor fails. When the file can be opened, one \<^verbatim>\<open>writev\<close> is given the status
  line, a Content-Length, the empty line and a body of just as many bytes as the size of the file, which begins with the bytes read
  and is filled up with NUL. The Content-Length is that size for files below two gigabytes, and not for any other, because
  the size is printed with \<^verbatim>\<open>%d\<close>. When it cannot be opened, an empty line without a status is sent instead. Either way
  both sockets are closed and the program ends with 0; the file is not closed.
\<close>

theorem file_is_sent:
  assumes "connected u argv sock connfd" and "u_stat u (argv ! 3) = Some st" and "\<not> st_dir st" and "st_roth st"
    and "\<And>tr. u_ans u tr (U_open (argv ! 3)) = fd"
    and "0 \<le> fd \<Longrightarrow> u_read u fd (st_size st) = (int (length bytes), bytes)" and "length bytes \<le> st_size st"
    and "\<And>d n. d < 0 \<Longrightarrow> fst (u_read u d n) = -1"
  shows "\<exists>tr body. writev_main u argv = (tr @ [U_open (argv ! 3), U_read fd (st_size st),
         if 0 \<le> fd then U_writev connfd (''HTTP/1.1 200 OK'' @ [CR, LF] @ ''Content-Length: '' @ percent_d (st_size st) @ [CR, LF] @ [CR, LF]) body
         else U_send connfd [CR, LF], U_close connfd, U_close sock], Exited 0)
     \<and> U_close fd \<notin> set tr \<and> body = bytes @ replicate (st_size st - length bytes) NUL
     \<and> (percent_d (st_size st) = dec_nat (st_size st) \<longleftrightarrow> st_size st < 2 ^ 31)"
proof -
  obtain tr where "writev_main u argv = (let (tr, e) = answer u connfd (argv ! 3) tr in
     case e of Some e \<Rightarrow> (tr, e) | None \<Rightarrow> (tr @ [U_close sock], Exited 0))" and tr: "\<forall>d. U_close d \<notin> set tr"
    using connected_main [OF assms(1)] by blast
  moreover have "answer u connfd (argv ! 3) tr = (tr @ [U_stat (argv ! 3), U_open (argv ! 3), U_read fd (st_size st),
      if 0 \<le> fd then U_writev connfd (''HTTP/1.1 200 OK'' @ [CR, LF] @ ''Content-Length: '' @ percent_d (st_size st) @ [CR, LF] @ [CR, LF])
        (bytes @ replicate (st_size st - length bytes) NUL)
      else U_send connfd [CR, LF], U_close connfd], None)"
  proof (cases "0 \<le> fd")
    case True
    have "take (st_size st) (splice (replicate (st_size st + 1) NUL) 0 bytes) = bytes @ replicate (st_size st - length bytes) NUL"
      using assms(7) by (simp add: splice_def del: replicate_Suc)
    with True assms(2-7) ok_header_text show ?thesis by (simp add: answer_def load_file_def Let_def)
  next
    case False
    have "fst (u_read u fd (st_size st)) = -1" using False assms(8) by simp
    then show ?thesis using False assms(2-5) by (simp add: answer_def load_file_def Let_def case_prod_unfold error_header_text)
  qed
  ultimately show ?thesis using percent_d_exact by (intro exI [of _ "tr @ [U_stat (argv ! 3)]"]) simp
qed

text \<open>A machine with one readable file of five bytes and one that cannot be opened.\<close>

definition small_unix :: unix where
  "small_unix = \<lparr>u_ans = (\<lambda>tr k. case k of U_socket \<Rightarrow> 3 | U_accept _ \<Rightarrow> 4 | U_open f \<Rightarrow> if f = ''page'' then 5 else -1 | _ \<Rightarrow> 0),
     u_stat = (\<lambda>name. if name \<in> {''page'', ''lock''} then Some \<lparr>st_dir = False, st_roth = True, st_size = 5\<rparr> else None),
     u_read = (\<lambda>fd n. if fd = 5 then (3, ''abc'') else (-1, [])), u_pton = (\<lambda>ip. (127, 0, 0, 1))\<rparr>"

lemma small_unix_calls:
  "u_stat small_unix ''page'' = Some \<lparr>st_dir = False, st_roth = True, st_size = 5\<rparr>"
  "u_stat small_unix ''lock'' = Some \<lparr>st_dir = False, st_roth = True, st_size = 5\<rparr>"
  "u_ans small_unix tr (U_open ''page'') = 5" "u_ans small_unix tr (U_open ''lock'') = -1"
  "u_read small_unix 5 n = (3, ''abc'')" "d < 0 \<Longrightarrow> u_read small_unix d n = (-1, [])"
  by (simp_all add: small_unix_def)

lemma small_unix_connected: "connected small_unix [''serv'', ''127.0.0.1'', ''80'', f] 3 4"
  by (simp add: connected_def small_unix_def)

theorem file_is_sent_witness:
  "(\<exists>tr. writev_main small_unix [''serv'', ''127.0.0.1'', ''80'', ''page''] = (tr @ [U_open ''page'', U_read 5 5, U_writev 4 (''HTTP/1.1 200 OK''
         @ [CR, LF] @ ''Content-Length: '' @ dec_nat 5 @ [CR, LF] @ [CR, LF]) (''abc'' @ [NUL, NUL]), U_close 4, U_close 3], Exited 0))
     \<and> (\<exists>tr. writev_main small_unix [''serv'', ''127.0.0.1'', ''80'', ''lock'']
         = (tr @ [U_open ''lock'', U_read (-1) 5, U_send 4 [CR, LF], U_close 4, U_close 3], Exited 0))"
proof
  have d: "percent_d 5 = dec_nat 5" using percent_d_exact [of 5] by simp
  show "\<exists>tr. writev_main small_unix [''serv'', ''127.0.0.1'', ''80'', ''page''] = (tr @ [U_open ''page'', U_read 5 5, U_writev 4 (''HTTP/1.1 200 OK''
         @ [CR, LF] @ ''Content-Length: '' @ dec_nat 5 @ [CR, LF] @ [CR, LF]) (''abc'' @ [NUL, NUL]), U_close 4, U_close 3], Exited 0)"
    using file_is_sent [OF small_unix_connected, of "''page''" "\<lparr>st_dir = False, st_roth = True, st_size = 5\<rparr>" 5 "''abc''"]
    by (auto simp: small_unix_calls d numeral_2_eq_2)
  show "\<exists>tr. writev_main small_unix [''serv'', ''127.0.0.1'', ''80'', ''lock'']
         = (tr @ [U_open ''lock'', U_read (-1) 5, U_send 4 [CR, LF], U_close 4, U_close 3], Exited 0)"
    using file_is_sent [OF small_unix_connected, of "''lock''" "\<lparr>st_dir = False, st_roth = True, st_size = 5\<rparr>" "-1" "''abc''"]
    by (auto simp: small_unix_calls)
qed

text \<open>
  The error reply is lost and the program ends in a fault: when the file does not exist, is a directory
  or is not readable for others, the second \<^verbatim>\<open>snprintf\<close> writes over the status line, so the client gets an
  empty line and no status, and then \<^verbatim>\<open>delete[]\<close> is applied to a pointer that was never set.
\<close>

theorem missing_file_faults:
  assumes "connected u argv sock connfd" and "case u_stat u (argv ! 3) of None \<Rightarrow> True | Some st \<Rightarrow> st_dir st \<or> \<not> st_roth st"
  shows "\<exists>tr. writev_main u argv = (tr @ [U_stat (argv ! 3), U_send connfd [CR, LF], U_close connfd], Fault)"
proof -
  obtain tr where "writev_main u argv = (let (tr, e) = answer u connfd (argv ! 3) tr in
     case e of Some e \<Rightarrow> (tr, e) | None \<Rightarrow> (tr @ [U_close sock], Exited 0))" using connected_main [OF assms(1)] by blast
  moreover have "\<exists>n. load_file u (argv ! 3) tr = (tr @ [U_stat (argv ! 3)], False, None, n)"
    using assms(2) by (cases "u_stat u (argv ! 3)") (auto simp: load_file_def Let_def)
  ultimately show ?thesis by (auto simp: answer_def error_header_text Let_def)
qed

theorem missing_file_faults_witness:
  "\<exists>tr. writev_main small_unix [''serv'', ''127.0.0.1'', ''80'', ''none''] = (tr @ [U_stat ''none'', U_send 4 [CR, LF], U_close 4], Fault)"
  using missing_file_faults [OF small_unix_connected, of "''none''"] by (simp add: small_unix_def)

end
