(* ===== verification/AcceptDemo.thy ===== *)
theory AcceptDemo
  imports Net "HOL-Library.Multiset"
begin

text \<open>
  AcceptExFunction.cpp: one overlapped accept on a completion port, with a test after nearly every call. The
  system is the parameter \<open>ax_sys\<close>: \<open>ax_ans\<close> gives the value a call returns and the last error, given the
  calls before it; \<open>ax_host\<close> is the address of this machine that \<^verbatim>\<open>gethostbyname\<close> finds, if it finds one. The
  program reads the result of \<^verbatim>\<open>gethostbyname\<close> without a test: without a result it ends in a fault, \<open>None\<close>.
\<close>

section \<open>The program\<close>

datatype axcall =
    A_startup
  | A_new_port
  | A_socket
  | A_associate SOCKET
  | A_hostname
  | A_bind SOCKET SOCKADDR_IN
  | A_listen SOCKET
  | A_load SOCKET
  | A_AcceptEx SOCKET SOCKET nat
  | A_close SOCKET
  | A_cleanup

record ax_sys =
  ax_ans :: "axcall list \<Rightarrow> axcall \<Rightarrow> int \<times> int"
  ax_host :: "(nat \<times> nat \<times> nat \<times> nat) option"

text \<open>A call: what it returns, and the calls made afterwards.\<close>

definition acall :: "ax_sys \<Rightarrow> axcall \<Rightarrow> axcall list \<Rightarrow> int \<times> axcall list" where
  "acall y k tr = (fst (ax_ans y tr k), tr @ [k])"

definition new_socket :: "ax_sys \<Rightarrow> axcall list \<Rightarrow> SOCKET \<times> axcall list" where
  "new_socket y tr = (word_of_int (fst (ax_ans y tr A_socket)), tr @ [A_socket])"

text \<open>The way out after an error: the sockets are closed in this order, then Winsock is left.\<close>

definition bail_out :: "SOCKET list \<Rightarrow> axcall list \<Rightarrow> int \<times> axcall list" where
  "bail_out socks tr = (1, tr @ map A_close socks @ [A_cleanup])"

definition outBufLen :: nat where
  "outBufLen = 1024"

text \<open>\<^verbatim>\<open>sizeof(sockaddr_in) + 16\<close>\<close>

definition addr_room :: nat where
  "addr_room = 32"

definition accept_main :: "ax_sys \<Rightarrow> (int \<times> axcall list) option" where
  "accept_main y =
     (let (iResult, tr) = acall y A_startup [] in
      if iResult \<noteq> 0 then Some (1, tr)
      else let (hCompPort, tr) = acall y A_new_port tr in
      if hCompPort = 0 then Some (bail_out [] tr)
      else let (ListenSocket, tr) = new_socket y tr in
      if ListenSocket = INVALID_SOCKET then Some (bail_out [] tr)
      else let (_, tr) = acall y (A_associate ListenSocket) tr;
               tr = tr @ [A_hostname] in
      case ax_host y of
        None \<Rightarrow> None
      | Some ip \<Rightarrow>
      (let service = \<lparr>sin_family = AF_INET, sin_port = htons 27015, sin_addr = ip\<rparr>;
           (ret, tr) = acall y (A_bind ListenSocket service) tr in
      if ret = SOCKET_ERROR then Some (bail_out [ListenSocket] tr)
      else let (iResult, tr) = acall y (A_listen ListenSocket) tr in
      if iResult = SOCKET_ERROR then Some (bail_out [ListenSocket] tr)
      else let (iResult, tr) = acall y (A_load ListenSocket) tr in
      if iResult = SOCKET_ERROR then Some (bail_out [ListenSocket] tr)
      else let (AcceptSocket, tr) = new_socket y tr in
      if AcceptSocket = INVALID_SOCKET then Some (bail_out [ListenSocket] tr)
      else let error = snd (ax_ans y tr (A_AcceptEx ListenSocket AcceptSocket (outBufLen - addr_room * 2)));
               (bRetVal, tr) = acall y (A_AcceptEx ListenSocket AcceptSocket (outBufLen - addr_room * 2)) tr in
      if bRetVal = 0 \<and> error \<noteq> WSA_IO_PENDING then Some (bail_out [AcceptSocket, ListenSocket] tr)
      else let (hCompPort2, tr) = acall y (A_associate AcceptSocket) tr in
      if hCompPort2 = 0 then Some (bail_out [AcceptSocket, ListenSocket] tr)
      else Some (0, tr)))"

section \<open>Sockets that were made and closed\<close>

fun made :: "ax_sys \<Rightarrow> axcall list \<Rightarrow> axcall list \<Rightarrow> SOCKET list" where
  "made y pre [] = []"
| "made y pre (k # ks) =
     (if k = A_socket \<and> fst (new_socket y pre) \<noteq> INVALID_SOCKET then fst (new_socket y pre) # made y (pre @ [k]) ks
      else made y (pre @ [k]) ks)"

fun closed :: "axcall list \<Rightarrow> SOCKET list" where
  "closed [] = []"
| "closed (A_close sock # ks) = sock # closed ks"
| "closed (_ # ks) = closed ks"

lemma made_append: "made y pre (ks @ ks') = made y pre ks @ made y (pre @ ks) ks'"
  by (induction ks arbitrary: pre) simp_all

lemma closed_append: "closed (ks @ ks') = closed ks @ closed ks'"
  by (induction ks rule: closed.induct) simp_all

lemma made_bail [simp]: "made y pre (map A_close socks) = []"
  by (induction socks arbitrary: pre) simp_all

lemma closed_bail [simp]: "closed (map A_close socks) = socks"
  by (induction socks) simp_all

text \<open>
  Before it leaves, the program has closed nothing; \<open>holding\<close> says that \<open>socks\<close> are the sockets made so far.
\<close>

definition holding :: "ax_sys \<Rightarrow> SOCKET list \<Rightarrow> axcall list \<Rightarrow> bool" where
  "holding y socks tr \<longleftrightarrow> made y [] tr = socks \<and> closed tr = [] \<and> A_cleanup \<notin> set tr \<and> (\<exists>ks. tr = A_startup # ks)"

definition cleaned_up :: "ax_sys \<Rightarrow> int \<times> axcall list \<Rightarrow> bool" where
  "cleaned_up y r \<longleftrightarrow> fst r = 1 \<and> mset (closed (snd r)) = mset (made y [] (snd r))
     \<and> (\<exists>ks. snd r = ks @ [A_cleanup] \<and> A_cleanup \<notin> set ks)"

lemma made_no_socket: "A_socket \<notin> set ks \<Longrightarrow> made y pre ks = []"
  by (induction ks arbitrary: pre) auto

lemma holding_calls:
  "holding y socks tr \<Longrightarrow> A_socket \<notin> set ks \<Longrightarrow> A_cleanup \<notin> set ks \<Longrightarrow> closed ks = [] \<Longrightarrow> holding y socks (tr @ ks)"
  by (auto simp: holding_def made_append made_no_socket closed_append)

lemma holding_socket:
  assumes "holding y socks tr" and "new_socket y tr = (s, tr')"
  shows "holding y (if s = INVALID_SOCKET then socks else socks @ [s]) tr'"
  using assms by (auto simp: holding_def made_append closed_append new_socket_def)

lemma bail_out_cleans:
  assumes "holding y socks tr" and "mset socks' = mset socks"
  shows "cleaned_up y (bail_out socks' tr)"
  using assms by (auto simp: cleaned_up_def bail_out_def holding_def made_append closed_append)

text \<open>
  C36. Every way out with an error gives everything back: for every system on which the address of the machine
  can be found, the program ends; when \<^verbatim>\<open>WSAStartup\<close> fails it makes no other call; with any other error it
  ends with 1, having closed every socket it made, each exactly once, and having left Winsock once, as its
  last call; with success it ends with 0, having closed nothing.
\<close>

theorem errors_give_all_back:
  assumes "ax_host y = Some ip"
  shows "\<exists>r. accept_main y = Some r
     \<and> (fst (ax_ans y [] A_startup) \<noteq> 0 \<and> r = (1, [A_startup]) \<or> cleaned_up y r
        \<or> fst r = 0 \<and> closed (snd r) = [] \<and> length (made y [] (snd r)) = 2)"
proof -
  define svc where "svc = \<lparr>sin_family = AF_INET, sin_port = htons 27015, sin_addr = ip\<rparr>"
  let ?ans = "\<lambda>tr k. fst (ax_ans y tr k)"
  obtain l t2 where l: "new_socket y [A_startup, A_new_port] = (l, t2)" by fastforce
  define t3 where "t3 = t2 @ [A_associate l] @ [A_hostname] @ [A_bind l svc]"
  define t4 where "t4 = t3 @ [A_listen l] @ [A_load l]"
  obtain a t5 where a: "new_socket y t4 = (a, t5)" by fastforce
  define t6 where "t6 = t5 @ [A_AcceptEx l a (outBufLen - addr_room * 2)]"
  have h1: "holding y [] [A_startup, A_new_port]" by (simp add: holding_def)
  have h2: "holding y (if l = INVALID_SOCKET then [] else [l]) t2" using holding_socket [OF h1 l] by (cases "l = INVALID_SOCKET") simp_all
  have h: "holding y [l] t3" "holding y [l] (t3 @ [A_listen l])" "holding y [l] t4" if "l \<noteq> INVALID_SOCKET"
    using h2 that by (simp_all add: t3_def t4_def holding_calls)
  have h5: "holding y (if a = INVALID_SOCKET then [l] else [l, a]) t5" if "l \<noteq> INVALID_SOCKET"
    using holding_socket [OF h(3) [OF that] a] by (cases "a = INVALID_SOCKET") simp_all
  have h6: "holding y [l, a] t6" "holding y [l, a] (t6 @ [A_associate a])" if "l \<noteq> INVALID_SOCKET" "a \<noteq> INVALID_SOCKET"
    using h5 that by (simp_all add: t6_def holding_calls)
  have "accept_main y = Some (
     if ?ans [] A_startup \<noteq> 0 then (1, [A_startup])
     else if ?ans [A_startup] A_new_port = 0 then bail_out [] [A_startup, A_new_port]
     else if l = INVALID_SOCKET then bail_out [] t2
     else if ?ans (t2 @ [A_associate l, A_hostname]) (A_bind l svc) = SOCKET_ERROR then bail_out [l] t3
     else if ?ans t3 (A_listen l) = SOCKET_ERROR then bail_out [l] (t3 @ [A_listen l])
     else if ?ans (t3 @ [A_listen l]) (A_load l) = SOCKET_ERROR then bail_out [l] t4
     else if a = INVALID_SOCKET then bail_out [l] t5
     else if ?ans t5 (A_AcceptEx l a (outBufLen - addr_room * 2)) = 0
        \<and> snd (ax_ans y t5 (A_AcceptEx l a (outBufLen - addr_room * 2))) \<noteq> WSA_IO_PENDING then bail_out [a, l] t6
     else if ?ans t6 (A_associate a) = 0 then bail_out [a, l] (t6 @ [A_associate a])
     else (0, t6 @ [A_associate a]))"
    using assms l a by (simp add: accept_main_def acall_def svc_def t3_def t4_def t6_def)
  moreover have "closed (t6 @ [A_associate a]) = [] \<and> length (made y [] (t6 @ [A_associate a])) = 2"
    if "l \<noteq> INVALID_SOCKET" "a \<noteq> INVALID_SOCKET" using h6(2) [OF that] by (simp add: holding_def)
  moreover have "cleaned_up y (bail_out [] t2)" if "l = INVALID_SOCKET"
    using h2 that by (intro bail_out_cleans) auto
  moreover have "cleaned_up y (bail_out [l] t5)" if "l \<noteq> INVALID_SOCKET" "a = INVALID_SOCKET"
    using h5 that by (intro bail_out_cleans) auto
  ultimately show ?thesis
    using h1 h h6 by (simp add: bail_out_cleans [of y "[l]"] bail_out_cleans [of y "[l, a]"] bail_out_cleans [of y "[]"])
qed

text \<open>A system on which the second socket cannot be made.\<close>

definition one_socket :: ax_sys where
  "one_socket = \<lparr>ax_ans = (\<lambda>tr k. case k of A_socket \<Rightarrow> (if A_socket \<in> set tr then (-1, 10024) else (7, 0))
     | A_new_port \<Rightarrow> (5, 0) | _ \<Rightarrow> (0, 0)), ax_host = Some (127, 0, 0, 1)\<rparr>"

theorem errors_give_all_back_witness:
  "\<exists>r. accept_main one_socket = Some r \<and> (cleaned_up one_socket r \<or> fst r = 0 \<and> closed (snd r) = [])"
proof -
  have "ax_host one_socket = Some (127, 0, 0, 1)" "fst (ax_ans one_socket [] A_startup) = 0" by (simp_all add: one_socket_def)
  then show ?thesis using errors_give_all_back [of one_socket "(127, 0, 0, 1)"] by auto
qed

end
