(* ===== verification/Stdio.thy ===== *)
theory Stdio
  imports Prelude
begin

text \<open>
  The part of the C library that the Linux text programs use: reading lines from a stream, and the string
  functions \<^verbatim>\<open>strcpy\<close>, \<^verbatim>\<open>strstr\<close> and \<^verbatim>\<open>strtok\<close>. A C string is the list of its characters before the
  terminating NUL. A stream that is read is the rest of its data and its end-of-file flag, which is set by the
  read that meets the end, not by the one that takes the last character.
\<close>

section \<open>Streams\<close>

record FILE =
  f_rest :: string
  f_eof :: bool

definition fopen_read :: "string \<Rightarrow> FILE" where
  "fopen_read data = \<lparr>f_rest = data, f_eof = False\<rparr>"

text \<open>The first line, with its line feed if it has one.\<close>

definition first_line :: "string \<Rightarrow> string" where
  "first_line xs = takeWhile (\<lambda>c. c \<noteq> LF) xs @ (if LF \<in> set xs then [LF] else [])"

text \<open>
  \<^verbatim>\<open>fgets(buf, n, fp)\<close> for \<open>n > 1\<close>: the characters stored, or \<open>None\<close> for a null result, which leaves \<^verbatim>\<open>buf\<close> as it
  was; and the stream afterwards.
\<close>

definition fgets :: "nat \<Rightarrow> FILE \<Rightarrow> string option \<times> FILE" where
  "fgets n fp =
     (let line = take (n - 1) (first_line (f_rest fp));
          hit_end = (length line < n - 1 \<and> (line = [] \<or> last line \<noteq> LF));
          fp = fp\<lparr>f_rest := drop (length line) (f_rest fp), f_eof := f_eof fp \<or> hit_end\<rparr>
      in (if line = [] \<and> hit_end then None else Some line, fp))"

text \<open>What \<^verbatim>\<open>fputs\<close>, \<^verbatim>\<open>strlen\<close> and \<^verbatim>\<open>printf("%s")\<close> see of stored characters: those before the first NUL.\<close>

definition c_str :: "string \<Rightarrow> string" where
  "c_str buf = takeWhile (\<lambda>c. c \<noteq> NUL) buf"

text \<open>The loop \<^verbatim>\<open>while (fgets(buf, n, in) != NULL) fputs(buf, out);\<close>: what is written.\<close>

partial_function (option) copy_loop :: "nat \<Rightarrow> FILE \<Rightarrow> string option" where
  "copy_loop n fp = (case fgets n fp of
      (None, fp) \<Rightarrow> Some []
    | (Some buf, fp) \<Rightarrow> do { out \<leftarrow> copy_loop n fp; Some (c_str buf @ out) })"

declare copy_loop.simps [code]

text \<open>The pieces in which a text is read.\<close>

function chunks :: "nat \<Rightarrow> string \<Rightarrow> string list" where
  "chunks n xs = (if xs = [] \<or> n < 2 then [] else
     let l = take (n - 1) (first_line xs) in l # chunks n (drop (length l) xs))"
  by pat_completeness auto

lemma first_line_prefix: "\<exists>ys. xs = first_line xs @ ys"
proof (cases "LF \<in> set xs")
  case True
  then obtain ys zs where "xs = ys @ LF # zs" "LF \<notin> set ys" by (meson split_list_first)
  then show ?thesis by (simp add: first_line_def takeWhile_append)
next
  case False
  then have "first_line xs = xs" by (auto simp: first_line_def takeWhile_eq_all_conv)
  then show ?thesis by (intro exI [of _ "[]"]) simp
qed

lemma first_line_Nil [simp]: "first_line xs = [] \<longleftrightarrow> xs = []"
  by (cases xs) (auto simp: first_line_def)

termination chunks
  by (relation "measure (\<lambda>(n, xs). length xs)") (auto simp: min_def)

declare chunks.simps [simp del]

lemma chunks_Nil [simp]: "chunks n [] = []"
  by (simp add: chunks.simps)

lemma take_line_append: "take k (first_line xs) @ drop (length (take k (first_line xs))) xs = xs"
proof -
  obtain ys where "xs = first_line xs @ ys" using first_line_prefix by blast
  then have "take (length (take k (first_line xs))) xs = take k (first_line xs)"
    by (metis append_take_drop_id append_eq_conv_conj append.assoc)
  then show ?thesis by (metis append_take_drop_id)
qed

lemma concat_chunks: "2 \<le> n \<Longrightarrow> concat (chunks n xs) = xs"
proof (induction n xs rule: chunks.induct)
  case (1 n xs)
  then show ?case
    using take_line_append [of "n - 1" xs] by (cases "xs = []") (simp_all add: chunks.simps [of n xs] Let_def)
qed

lemma chunks_nonempty: "2 \<le> n \<Longrightarrow> [] \<notin> set (chunks n xs)"
proof (induction n xs rule: chunks.induct)
  case (1 n xs)
  then show ?case by (cases "xs = []") (simp_all add: chunks.simps [of n xs] Let_def)
qed

lemma chunks_ne: "2 \<le> n \<Longrightarrow> chunks n xs = [] \<longleftrightarrow> xs = []"
  by (simp add: chunks.simps [of n xs] Let_def)

lemma last_chunk:
  assumes "2 \<le> n" and "xs \<noteq> []"
  shows "last (last (chunks n xs)) = last xs"
proof -
  obtain ys y where c: "chunks n xs = ys @ [y]" using chunks_ne [OF assms(1), of xs] assms(2) by (meson rev_exhaust)
  then have "y \<noteq> []" "xs = concat ys @ y" using chunks_nonempty [OF assms(1), of xs] concat_chunks [OF assms(1), of xs] by auto
  with c show ?thesis by simp
qed

lemma one_chunk:
  assumes "2 \<le> n" and "xs \<noteq> []" and "LF \<notin> set xs" and "length xs < n"
  shows "chunks n xs = [xs]"
proof -
  have "first_line xs = xs" using assms(3) by (auto simp: first_line_def takeWhile_eq_all_conv)
  then show ?thesis using assms by (simp add: chunks.simps [of n xs])
qed

text \<open>A \<^verbatim>\<open>fgets\<close> on a stream with data takes the first of its pieces.\<close>

lemma fgets_chunk:
  assumes "2 \<le> n" and "f_rest fp \<noteq> []"
  shows "fst (fgets n fp) = Some (hd (chunks n (f_rest fp)))" and "chunks n (f_rest fp) \<noteq> []"
    and "chunks n (f_rest (snd (fgets n fp))) = tl (chunks n (f_rest fp))"
    and "length (f_rest (snd (fgets n fp))) < length (f_rest fp)"
  using assms by (auto simp: fgets_def Let_def chunks.simps [of n "f_rest fp"])

lemma fgets_end: "2 \<le> n \<Longrightarrow> f_rest fp = [] \<Longrightarrow> fgets n fp = (None, fp\<lparr>f_eof := True\<rparr>)"
  by (simp add: fgets_def first_line_def)

text \<open>A piece that is shorter than the buffer and has no line feed is the last one, and its read meets the end.\<close>

definition meets_end :: "nat \<Rightarrow> string \<Rightarrow> bool" where
  "meets_end n l \<longleftrightarrow> length l < n - 1 \<and> last l \<noteq> LF"

lemma take_line_meets_end:
  assumes "meets_end n (take (n - 1) (first_line xs))"
  shows "take (n - 1) (first_line xs) = xs"
proof -
  let ?l = "take (n - 1) (first_line xs)"
  have l: "?l = first_line xs" using assms by (auto simp: meets_end_def)
  then have "LF \<notin> set xs" using assms by (auto simp: meets_end_def first_line_def)
  then have "first_line xs = xs" by (auto simp: first_line_def takeWhile_eq_all_conv)
  with l show ?thesis by simp
qed

lemma fgets_piece:
  assumes "2 \<le> n" and "f_rest fp \<noteq> []" and "\<not> f_eof fp"
  shows "fgets n fp = (Some (hd (chunks n (f_rest fp))), snd (fgets n fp))"
    and "f_eof (snd (fgets n fp)) = meets_end n (hd (chunks n (f_rest fp)))"
    and "chunks n (f_rest fp) = hd (chunks n (f_rest fp)) # chunks n (f_rest (snd (fgets n fp)))"
    and "length (f_rest (snd (fgets n fp))) < length (f_rest fp)"
    and "meets_end n (hd (chunks n (f_rest fp))) \<Longrightarrow> f_rest (snd (fgets n fp)) = []"
proof -
  note c = fgets_chunk [OF assms(1,2)]
  have hd: "hd (chunks n (f_rest fp)) = take (n - 1) (first_line (f_rest fp))"
    using assms(1,2) by (simp add: chunks.simps [of n "f_rest fp"] Let_def)
  have ne: "take (n - 1) (first_line (f_rest fp)) \<noteq> []" using assms(1,2) by simp
  show "fgets n fp = (Some (hd (chunks n (f_rest fp))), snd (fgets n fp))" using c(1) by (simp add: prod_eq_iff)
  show "f_eof (snd (fgets n fp)) = meets_end n (hd (chunks n (f_rest fp)))"
    using ne assms(3) unfolding hd by (auto simp: fgets_def Let_def meets_end_def)
  show "chunks n (f_rest fp) = hd (chunks n (f_rest fp)) # chunks n (f_rest (snd (fgets n fp)))" using c(2,3) by simp
  show "length (f_rest (snd (fgets n fp))) < length (f_rest fp)" by (rule c(4))
  assume "meets_end n (hd (chunks n (f_rest fp)))"
  then have "take (n - 1) (first_line (f_rest fp)) = f_rest fp" using take_line_meets_end unfolding hd by blast
  then have "length (f_rest fp) \<le> length (take (n - 1) (first_line (f_rest fp)))" by simp
  then show "f_rest (snd (fgets n fp)) = []" unfolding fgets_def Let_def by simp
qed

lemma copy_loop_chunks: "2 \<le> n \<Longrightarrow> copy_loop n fp = Some (concat (map c_str (chunks n (f_rest fp))))"
proof (induction "length (f_rest fp)" arbitrary: fp rule: less_induct)
  case less
  show ?case
  proof (cases "f_rest fp = []")
    case True
    then show ?thesis using fgets_end [OF less.prems True] by (simp add: copy_loop.simps [of n fp])
  next
    case False
    note c = fgets_chunk [OF less.prems False]
    obtain buf fp' where f: "fgets n fp = (Some buf, fp')" using c(1) by (cases "fgets n fp") auto
    then have "copy_loop n fp' = Some (concat (map c_str (chunks n (f_rest fp'))))" using less.hyps [of fp'] less.prems c(4) by simp
    moreover have "chunks n (f_rest fp) = buf # chunks n (f_rest fp')" using c(1-3) f by (cases "chunks n (f_rest fp)") auto
    ultimately show ?thesis using f by (simp add: copy_loop.simps [of n fp])
  qed
qed

lemma c_str_id: "NUL \<notin> set xs \<Longrightarrow> c_str xs = xs"
  by (auto simp: c_str_def takeWhile_eq_all_conv)

lemma c_str_length: "length (c_str xs) \<le> length xs" "NUL \<in> set xs \<Longrightarrow> length (c_str xs) < length xs"
proof -
  show "length (c_str xs) \<le> length xs" by (simp add: c_str_def length_takeWhile_le)
  assume "NUL \<in> set xs"
  then obtain ys zs where "xs = ys @ NUL # zs" by (meson split_list)
  then show "length (c_str xs) < length xs"
    using length_takeWhile_le [of "\<lambda>c. c \<noteq> NUL" ys] by (simp add: c_str_def takeWhile_tail)
qed

text \<open>Copying line by line keeps a text exactly when it has no NUL.\<close>

lemma concat_c_str_eq: "concat (map c_str xss) = concat xss \<longleftrightarrow> NUL \<notin> set (concat xss)"
proof
  assume e: "concat (map c_str xss) = concat xss"
  have len: "length (concat (map c_str xss)) \<le> length (concat xss)" for xss
    by (induction xss) (auto simp: add_mono c_str_length(1))
  have "length (concat (map c_str xss)) < length (concat xss)" if "xs \<in> set xss" "NUL \<in> set xs" for xs
    using that
  proof (induction xss)
    case (Cons ys xss)
    then show ?case using len [of xss] c_str_length(1) [of ys] c_str_length(2) [of ys] by fastforce
  qed simp
  with e show "NUL \<notin> set (concat xss)" by auto
next
  assume "NUL \<notin> set (concat xss)"
  then have "map c_str xss = xss" by (intro map_idI c_str_id) auto
  then show "concat (map c_str xss) = concat xss" by simp
qed

lemma chunks_c_str: "2 \<le> n \<Longrightarrow> NUL \<notin> set xs \<Longrightarrow> concat (map c_str (chunks n xs)) = xs"
  using concat_c_str_eq [of "chunks n xs"] by (simp only: concat_chunks simp_thms)

section \<open>Strings\<close>

text \<open>Copying a C string into an array of \<open>cap\<close> characters.\<close>

definition strcpy :: "nat \<Rightarrow> string \<Rightarrow> string option" where
  "strcpy cap src = (if length src < cap then Some src else None)"

lemma strcpy_Some: "strcpy cap src = Some dst \<longleftrightarrow> dst = src \<and> length src < cap"
  by (auto simp: strcpy_def)

fun strstr :: "string \<Rightarrow> string \<Rightarrow> bool" where
  "strstr [] p \<longleftrightarrow> p = []"
| "strstr (c # cs) p \<longleftrightarrow> take (length p) (c # cs) = p \<or> strstr cs p"

text \<open>
  \<^verbatim>\<open>strtok\<close>: the next token and what follows its delimiter, or \<open>None\<close> when only delimiters are left.
\<close>

definition strtok :: "string \<Rightarrow> string \<Rightarrow> (string \<times> string) option" where
  "strtok delims s =
     (let s = dropWhile (\<lambda>c. c \<in> set delims) s in
      if s = [] then None
      else Some (takeWhile (\<lambda>c. c \<notin> set delims) s, drop 1 (dropWhile (\<lambda>c. c \<notin> set delims) s)))"

lemma strtok_token:
  assumes "w \<noteq> []" and "set w \<inter> set delims = {}" and "set pre \<subseteq> set delims" and "d \<in> set delims"
  shows "strtok delims (pre @ w @ d # rest) = Some (w, rest)"
proof -
  have pre: "dropWhile (\<lambda>c. c \<in> set delims) (pre @ w @ d # rest) = w @ d # rest"
    using assms by (cases w) (auto simp: dropWhile_append3 subset_iff dropWhile_append2)
  have "takeWhile (\<lambda>c. c \<notin> set delims) (w @ d # rest) = w" "dropWhile (\<lambda>c. c \<notin> set delims) (w @ d # rest) = d # rest"
    using assms(2,4) by (auto simp: takeWhile_append2 dropWhile_append2 disjoint_iff)
  with pre assms(1) show ?thesis by (simp add: strtok_def Let_def)
qed

lemma strtok_last:
  assumes "w \<noteq> []" and "set w \<inter> set delims = {}" and "set pre \<subseteq> set delims"
  shows "strtok delims (pre @ w) = Some (w, [])"
proof -
  have pre: "dropWhile (\<lambda>c. c \<in> set delims) (pre @ w) = w"
    using assms by (cases w) (auto simp: subset_iff dropWhile_append2)
  have "takeWhile (\<lambda>c. c \<notin> set delims) w = w" "dropWhile (\<lambda>c. c \<notin> set delims) w = []"
    using assms(2) by (auto simp: takeWhile_eq_all_conv dropWhile_eq_Nil_conv disjoint_iff)
  with pre assms(1) show ?thesis by (simp add: strtok_def Let_def del: dropWhile_eq_Nil_conv)
qed

lemma strstr_append: "strstr (xs @ p @ ys) p"
proof (induction xs)
  case Nil
  have "take (length p) (p @ ys) = p" by simp
  then show ?case by (cases "p @ ys") (auto simp del: take_append)
qed simp

end
