(* ===== verification/TextHttp.thy ===== *)
theory TextHttp
  imports Stdio
begin

text \<open>
  http_server.c and http_client.c of http_server: a server that reads one request line per connection in a
  thread of its own and answers with a file, and a client that asks for one path and prints the answer. An
  undefined operation (a null pointer handed to a string function, a copy behind the end of an array, the use of
  an array that was never written) is \<open>None\<close>.
\<close>

abbreviation CRLF :: string where
  "CRLF \<equiv> [CR, LF]"

section \<open>http_server.c: answering one request\<close>

definition BUF_SIZE :: nat where
  "BUF_SIZE = 1024"

definition SMALL_BUF :: nat where
  "SMALL_BUF = 100"

text \<open>
  What a thread has done: \<open>net\<close> is the text written to \<^verbatim>\<open>clnt_write\<close> (\<open>None\<close> for the null pointer that
  \<^verbatim>\<open>fdopen\<close> returns on failure), \<open>net_open\<close> and \<open>read_open\<close> whether the two streams of the connection are
  still open, \<open>opened\<close> the number of files that are open, \<open>console\<close> what was printed.
\<close>

record http_thread =
  net :: "string option"
  net_open :: bool
  read_open :: bool
  opened :: nat
  console :: string

definition fputs :: "string \<Rightarrow> http_thread \<Rightarrow> http_thread option" where
  "fputs s h = (case net h of None \<Rightarrow> None | Some t \<Rightarrow> Some (h\<lparr>net := Some (t @ s)\<rparr>))"

definition print :: "string \<Rightarrow> http_thread \<Rightarrow> http_thread" where
  "print s h = h\<lparr>console := console h @ s @ [LF]\<rparr>"

definition content_type :: "string \<Rightarrow> string option" where
  "content_type file_name = do {
     file_name \<leftarrow> strcpy SMALL_BUF file_name;
     (base, rest) \<leftarrow> strtok ''.'' file_name;
     (token, rest) \<leftarrow> strtok ''.'' rest;
     extension \<leftarrow> strcpy SMALL_BUF token;
     Some (if extension = ''html'' \<or> extension = ''htm'' then ''text/html'' else ''text/plain'') }"

definition send_error :: "http_thread \<Rightarrow> http_thread option" where
  "send_error h = do {
     h \<leftarrow> fputs (''HTPP/1.0 400 Bad Request'' @ CRLF) h;
     h \<leftarrow> fputs (''Server:Linux Web Sserver '' @ CRLF) h;
     h \<leftarrow> fputs (''Content-length:2048'' @ CRLF) h;
     fputs (''Content-type:text/html'' @ CRLF @ CRLF) h }"

text \<open>\<open>files\<close> gives the contents of the files that can be opened.\<close>

definition send_data :: "(string \<Rightarrow> string option) \<Rightarrow> string \<Rightarrow> string \<Rightarrow> http_thread \<Rightarrow> http_thread option" where
  "send_data files ct file_name h = do {
     cnt_type \<leftarrow> strcpy SMALL_BUF (''Content-type:'' @ ct @ CRLF @ CRLF);
     case files file_name of
       None \<Rightarrow> send_error (print ''fopen() error'' h)
     | Some data \<Rightarrow> do {
         h \<leftarrow> fputs (''HTTP/1.0 200 OK'' @ CRLF) (h\<lparr>opened := opened h + 1\<rparr>);
         h \<leftarrow> fputs (''Server:Linux Web Server '' @ CRLF) h;
         h \<leftarrow> fputs (''Content-length:2048'' @ CRLF) h;
         h \<leftarrow> fputs cnt_type h;
         text \<leftarrow> copy_loop BUF_SIZE (fopen_read data);
         h \<leftarrow> fputs text h;
         Some (h\<lparr>net_open := False\<rparr>) } }"

text \<open>
  The thread of a connection. \<open>clnt_read\<close> is the stream of what the client sends until it closes or the line is
  complete (\<open>None\<close> when \<^verbatim>\<open>fdopen\<close> fails), \<open>can_write\<close> whether \<^verbatim>\<open>fdopen(dup(clnt_sock), "w")\<close> gives a stream.
  Both tokens are cut from the one line; the arrays hold 10, 30 and 15 characters.
\<close>

definition request_handler :: "(string \<Rightarrow> string option) \<Rightarrow> FILE option \<Rightarrow> bool \<Rightarrow> http_thread option" where
  "request_handler files clnt_read can_write = do {
     clnt_read \<leftarrow> clnt_read;
     buf \<leftarrow> fst (fgets SMALL_BUF clnt_read);
     let req_line = c_str buf;
     let h = print (''req_line: '' @ req_line)
       \<lparr>net = (if can_write then Some [] else None), net_open = can_write, read_open = True, opened = 0, console = []\<rparr>;
     if \<not> strstr req_line ''HTTP/'' then do {
       h \<leftarrow> send_error (print ''not http protocal'' h);
       Some (h\<lparr>read_open := False, net_open := False\<rparr>) }
     else do {
       (token, rest) \<leftarrow> strtok '' /'' req_line;
       req_method \<leftarrow> strcpy 10 token;
       (token, rest) \<leftarrow> strtok '' /'' rest;
       file_name \<leftarrow> strcpy 30 token;
       ct \<leftarrow> content_type file_name;
       ct \<leftarrow> strcpy 15 ct;
       if req_method \<noteq> ''GET'' then do {
         h \<leftarrow> send_error (print ''not get method'' (print (''file_name: '' @ file_name) (print (''method: '' @ req_method) h)));
         Some (h\<lparr>read_open := False, net_open := False\<rparr>) }
       else send_data files ct file_name (h\<lparr>read_open := False\<rparr>) } }"

section \<open>http_server.c: accepting connections\<close>

text \<open>
  The loop of \<^verbatim>\<open>main\<close> and the first line of the threads. Every thread gets the address of the one variable
  \<^verbatim>\<open>clnt_sock\<close> and reads it when it first runs; until then it is among the \<open>unread\<close>. \<open>accepted\<close> and \<open>served\<close>
  are the connections in the order in which they were accepted and picked up by a thread.
\<close>

datatype accept_event = Accept int | Start

record accept_state =
  clnt_sock :: int
  unread :: nat
  accepted :: "int list"
  served :: "int list"

definition accept_start :: accept_state where
  "accept_start = \<lparr>clnt_sock = 0, unread = 0, accepted = [], served = []\<rparr>"

text \<open>
  The set-up of \<^verbatim>\<open>main\<close>, with the results of \<^verbatim>\<open>bind\<close> and \<^verbatim>\<open>listen\<close>: the status of \<^verbatim>\<open>exit\<close>, or the state in
  which the loop begins. The result of \<^verbatim>\<open>socket\<close> is not looked at.
\<close>

definition http_server_start :: "string list \<Rightarrow> int \<Rightarrow> int \<Rightarrow> int + accept_state" where
  "http_server_start argv bind_result listen_result =
     (if length argv \<noteq> 2 then Inl 1
      else if bind_result = -1 then Inl 1
      else if listen_result = -1 then Inl 1
      else Inr accept_start)"

fun accept_step :: "accept_event \<Rightarrow> accept_state \<Rightarrow> accept_state option" where
  "accept_step (Accept fd) s = Some (s\<lparr>clnt_sock := fd, unread := unread s + 1, accepted := accepted s @ [fd]\<rparr>)"
| "accept_step Start s = (if unread s = 0 then None
     else Some (s\<lparr>unread := unread s - 1, served := served s @ [clnt_sock s]\<rparr>))"

fun accept_run :: "accept_event list \<Rightarrow> accept_state \<Rightarrow> accept_state option" where
  "accept_run [] s = Some s"
| "accept_run (e # es) s = do { s \<leftarrow> accept_step e s; accept_run es s }"

section \<open>http_client.c\<close>

definition PATH_SIZE :: nat where
  "PATH_SIZE = 512"

definition MAX_SIZE :: nat where
  "MAX_SIZE = 1024"

text \<open>The request for what is typed. An empty path has no last character to overwrite.\<close>

definition get_handler :: "FILE \<Rightarrow> string option" where
  "get_handler stdin = do {
     buf \<leftarrow> fst (fgets PATH_SIZE stdin);
     let path = c_str buf;
     if path = [] then None else do {
       let path = butlast path;
       strcpy MAX_SIZE (''GET '' @ path @ '' HTTP/1.1'' @ CRLF) } }"

text \<open>The loop of the reader, with what \<^verbatim>\<open>read_buf\<close> holds: what is printed.\<close>

partial_function (option) read_loop :: "string option \<Rightarrow> FILE \<Rightarrow> string option" where
  "read_loop read_buf fp =
     (if f_eof fp then Some []
      else do {
        buf \<leftarrow> read_buf;
        let (got, fp) = fgets MAX_SIZE fp;
        printed \<leftarrow> read_loop (if got = None then Some buf else got) fp;
        Some (c_str buf @ printed) })"

declare read_loop.simps [code]

definition read_handler :: "FILE \<Rightarrow> string option" where
  "read_handler fp = (let (got, fp) = fgets MAX_SIZE fp in read_loop got fp)"

text \<open>
  Both programs on one connection. When the server keeps its stream open the client's reader never meets the end
  of its stream, and \<^verbatim>\<open>pthread_join\<close> does not return.
\<close>

datatype client_end = Returns string | Waits

definition http_session :: "(string \<Rightarrow> string option) \<Rightarrow> string \<Rightarrow> client_end option" where
  "http_session files typed = do {
     req \<leftarrow> get_handler (fopen_read typed);
     h \<leftarrow> request_handler files (Some (fopen_read req)) True;
     if net_open h then Some Waits
     else do {
       reply \<leftarrow> net h;
       printed \<leftarrow> read_handler (fopen_read reply);
       Some (Returns printed) } }"

text \<open>\<^verbatim>\<open>main\<close> with the results of \<^verbatim>\<open>socket\<close> and \<^verbatim>\<open>connect\<close>: the status of \<^verbatim>\<open>exit\<close>, or how the session ends.\<close>

definition http_client_main :: "string list \<Rightarrow> int \<Rightarrow> int \<Rightarrow> client_end option \<Rightarrow> (int + client_end) option" where
  "http_client_main argv sock connect_r session =
     (if sock = -1 then Some (Inl 1)
      else if length argv < 3 then Some (Inl 1)
      else if connect_r = -1 then Some (Inl 1)
      else map_option Inr session)"

section \<open>The reader of the client\<close>

text \<open>The reader prints piece after piece; a last piece whose read meets the end is not printed.\<close>

definition printed_pieces :: "string \<Rightarrow> string list" where
  "printed_pieces data = (let ps = chunks MAX_SIZE data in
     if ps \<noteq> [] \<and> meets_end MAX_SIZE (last ps) then butlast ps else ps)"

lemma MAX_2: "2 \<le> MAX_SIZE"
  by (simp add: MAX_SIZE_def)

lemma read_step:
  assumes "f_rest fp \<noteq> []" and "\<not> f_eof fp"
  obtains l fp' where "fgets MAX_SIZE fp = (Some l, fp')" and "f_eof fp' = meets_end MAX_SIZE l"
    and "length (f_rest fp') < length (f_rest fp)"
    and "printed_pieces (f_rest fp) = (if meets_end MAX_SIZE l then [] else l # printed_pieces (f_rest fp'))"
proof -
  note p = fgets_piece [OF MAX_2 assms]
  obtain l ls where c: "chunks MAX_SIZE (f_rest fp) = l # ls" using p(3) by blast
  then have "printed_pieces (f_rest fp) = (if meets_end MAX_SIZE l then [] else l # printed_pieces (f_rest (snd (fgets MAX_SIZE fp))))"
    using p(3,5) by (auto simp: printed_pieces_def Let_def)
  then show thesis using that [of l "snd (fgets MAX_SIZE fp)"] p(1,2,4) c by simp
qed

lemma read_loop_eof: "f_eof fp \<Longrightarrow> read_loop buf fp = Some []"
  by (simp add: read_loop.simps)

lemma read_loop_prints:
  assumes "\<not> f_eof fp"
  shows "read_loop (Some buf) fp = Some (c_str buf @ concat (map c_str (printed_pieces (f_rest fp))))"
  using assms
proof (induction "length (f_rest fp)" arbitrary: fp buf rule: less_induct)
  case less
  show ?case
  proof (cases "f_rest fp = []")
    case True
    then show ?thesis using less.prems fgets_end [OF MAX_2 True]
      by (simp add: read_loop.simps [of "Some buf" fp] read_loop_eof printed_pieces_def)
  next
    case False
    obtain l fp' where l: "fgets MAX_SIZE fp = (Some l, fp')" "f_eof fp' = meets_end MAX_SIZE l"
      "length (f_rest fp') < length (f_rest fp)"
      "printed_pieces (f_rest fp) = (if meets_end MAX_SIZE l then [] else l # printed_pieces (f_rest fp'))"
      by (rule read_step [OF False less.prems])
    then show ?thesis using less.prems less.hyps [of fp' l]
      by (cases "f_eof fp'") (simp_all add: read_loop.simps [of "Some buf" fp] read_loop_eof)
  qed
qed

lemma read_handler_prints: "read_handler (fopen_read data) = Some (concat (map c_str (printed_pieces data)))"
proof (cases "data = []")
  case True
  then show ?thesis
    by (simp add: read_handler_def fgets_end [OF MAX_2] fopen_read_def read_loop_eof printed_pieces_def)
next
  case False
  have *: "f_rest (fopen_read data) \<noteq> []" "\<not> f_eof (fopen_read data)" "f_rest (fopen_read data) = data"
    using False by (simp_all add: fopen_read_def)
  obtain l fp' where l: "fgets MAX_SIZE (fopen_read data) = (Some l, fp')" "f_eof fp' = meets_end MAX_SIZE l"
    "printed_pieces data = (if meets_end MAX_SIZE l then [] else l # printed_pieces (f_rest fp'))"
    using read_step [OF *(1,2)] *(3) by metis
  then show ?thesis using read_loop_prints [of fp' l] by (cases "f_eof fp'") (simp_all add: read_handler_def read_loop_eof)
qed

text \<open>A text that ends in a line feed has no such last piece.\<close>

lemma printed_whole:
  assumes "data = [] \<or> last data = LF" and "NUL \<notin> set data"
  shows "concat (map c_str (printed_pieces data)) = data"
proof -
  have "printed_pieces data = chunks MAX_SIZE data"
    using assms(1) last_chunk [OF MAX_2, of data] by (cases "data = []") (auto simp: printed_pieces_def Let_def meets_end_def)
  then show ?thesis using assms(2) MAX_2 by (simp add: chunks_c_str)
qed

section \<open>The server on one request\<close>

lemma fputs_open [simp]: "net h = Some t \<Longrightarrow> fputs s h = Some (h\<lparr>net := Some (t @ s)\<rparr>)"
  by (simp add: fputs_def)

lemma print_fields [simp]:
  "net (print s h) = net h" "net_open (print s h) = net_open h" "read_open (print s h) = read_open h" "opened (print s h) = opened h"
  by (simp_all add: print_def)

definition error_page :: string where
  "error_page = ''HTPP/1.0 400 Bad Request'' @ CRLF @ ''Server:Linux Web Sserver '' @ CRLF @ ''Content-length:2048'' @ CRLF @
     ''Content-type:text/html'' @ CRLF @ CRLF"

lemma send_error_page: "net h = Some t \<Longrightarrow> send_error h = Some (h\<lparr>net := Some (t @ error_page)\<rparr>)"
  by (simp add: send_error_def error_page_def)

definition ok_header :: "string \<Rightarrow> string" where
  "ok_header ct = ''HTTP/1.0 200 OK'' @ CRLF @ ''Server:Linux Web Server '' @ CRLF @ ''Content-length:2048'' @ CRLF @
     ''Content-type:'' @ ct @ CRLF @ CRLF"

lemma send_data_file:
  assumes "net h = Some t" and "files name = Some data" and "length ct < 15"
  shows "send_data files ct name h
    = Some (h\<lparr>opened := opened h + 1, net := Some (t @ ok_header ct @ concat (map c_str (chunks BUF_SIZE data))), net_open := False\<rparr>)"
proof -
  have "copy_loop BUF_SIZE (fopen_read data) = Some (concat (map c_str (chunks BUF_SIZE data)))"
    by (simp add: copy_loop_chunks BUF_SIZE_def fopen_read_def)
  then show ?thesis using assms by (simp add: send_data_def strcpy_def SMALL_BUF_def ok_header_def)
qed

text \<open>The request line of the client, read by the server.\<close>

definition request_line :: "string \<Rightarrow> string" where
  "request_line path = ''GET '' @ path @ '' HTTP/1.1'' @ CRLF"

lemma request_line_read:
  assumes "LF \<notin> set path" and "NUL \<notin> set path" and "length path \<le> 84"
  shows "fst (fgets SMALL_BUF (fopen_read (request_line path))) = Some (request_line path)"
    and "c_str (request_line path) = request_line path" and "strstr (request_line path) ''HTTP/''"
proof -
  have "takeWhile (\<lambda>c. c \<noteq> LF) path = path" using assms(1) by (auto simp: takeWhile_eq_all_conv)
  then have "first_line (request_line path) = request_line path"
    using assms(1) by (simp add: first_line_def request_line_def takeWhile_append2 takeWhile_append)
  then show "fst (fgets SMALL_BUF (fopen_read (request_line path))) = Some (request_line path)"
    using assms(3) by (simp add: fgets_def fopen_read_def SMALL_BUF_def Let_def) (simp add: request_line_def)
  show "c_str (request_line path) = request_line path" using assms(2) by (intro c_str_id) (simp add: request_line_def)
  show "strstr (request_line path) ''HTTP/''"
    using strstr_append [of "''GET '' @ path @ '' ''" "''HTTP/''" "''1.1'' @ CRLF"] by (simp add: request_line_def)
qed

lemma method_token: "strtok '' /'' (request_line path) = Some (''GET'', path @ '' HTTP/1.1'' @ CRLF)"
  using strtok_token [of "''GET''" "'' /''" "[]" "CHR '' ''" "path @ '' HTTP/1.1'' @ CRLF"] by (simp add: request_line_def)

lemma name_token:
  assumes "name \<noteq> []" and "set name \<inter> {CHR '' '', CHR ''/''} = {}" and "c \<in> {CHR '' '', CHR ''/''}"
  shows "strtok '' /'' (CHR ''/'' # name @ c # rest) = Some (name, rest)"
  using strtok_token [of name "'' /''" "''/''" c rest] assms by simp

lemma content_type_of:
  assumes "base \<noteq> []" and "ext \<noteq> []" and "CHR ''.'' \<notin> set (base @ ext)" and "length base + length ext < 99"
  shows "content_type (base @ ''.'' @ ext) = Some (if ext \<in> {''html'', ''htm''} then ''text/html'' else ''text/plain'')"
  using strtok_token [of base "''.''" "[]" "CHR ''.''" ext] strtok_last [of ext "''.''" "[]"] assms
  by (auto simp: content_type_def strcpy_def SMALL_BUF_def)

lemma content_type_no_dot:
  assumes "CHR ''.'' \<notin> set name"
  shows "content_type name = None"
proof (cases "name = []")
  case False
  with assms have "strtok ''.'' name = Some (name, [])" using strtok_last [of name "''.''" "[]"] by simp
  moreover have "strtok ''.'' [] = None" by (simp add: strtok_def)
  ultimately show ?thesis by (simp add: content_type_def strcpy_def)
qed (simp add: content_type_def strtok_def strcpy_def SMALL_BUF_def)

text \<open>Two components of a file name that the server can take apart again.\<close>

definition web_name :: "string \<Rightarrow> string \<Rightarrow> bool" where
  "web_name base ext \<longleftrightarrow> base \<noteq> [] \<and> ext \<noteq> [] \<and> set (base @ ext) \<inter> {CHR '' '', CHR ''/'', CHR ''.'', NUL, LF} = {}
     \<and> length base + length ext < 29"

definition mime :: "string \<Rightarrow> string" where
  "mime ext = (if ext \<in> {''html'', ''htm''} then ''text/html'' else ''text/plain'')"

lemma get_is_answered:
  assumes "web_name base ext"
  shows "\<exists>h. net h = Some [] \<and> net_open h \<and> \<not> read_open h \<and> opened h = 0
     \<and> request_handler files (Some (fopen_read (request_line (''/'' @ base @ ''.'' @ ext)))) True
       = send_data files (mime ext) (base @ ''.'' @ ext) h"
proof -
  let ?name = "base @ ''.'' @ ext"
  note w = assms [unfolded web_name_def]
  have r: "LF \<notin> set (''/'' @ ?name)" "NUL \<notin> set (''/'' @ ?name)" "length (''/'' @ ?name) \<le> 84" using w by auto
  have n: "strtok '' /'' ((''/'' @ ?name) @ '' HTTP/1.1'' @ CRLF) = Some (?name, ''HTTP/1.1'' @ CRLF)"
    using name_token [of ?name "CHR '' ''" "''HTTP/1.1'' @ CRLF"] w by auto
  have ct: "content_type ?name = Some (mime ext)"
    unfolding mime_def using w by (intro content_type_of) auto
  have len: "strcpy 30 ?name = Some ?name" "strcpy 15 (mime ext) = Some (mime ext)" "strcpy 10 ''GET'' = Some ''GET''"
    using w by (auto simp: strcpy_def mime_def)
  let ?h = "print (''req_line: '' @ request_line (''/'' @ ?name)) \<lparr>net = Some [], net_open = True, read_open = True, opened = 0, console = []\<rparr>"
  have "request_handler files (Some (fopen_read (request_line (''/'' @ ?name)))) True
      = send_data files (mime ext) ?name (?h\<lparr>read_open := False\<rparr>)"
    unfolding request_handler_def using request_line_read [OF r] n ct len method_token [of "''/'' @ ?name"] by simp
  then show ?thesis by (intro exI [of _ "?h\<lparr>read_open := False\<rparr>"]) simp
qed

lemma typed_path_requested:
  assumes "LF \<notin> set path" and "NUL \<notin> set path" and "length path < 511"
  shows "get_handler (fopen_read (path @ [LF] @ typed)) = Some (request_line path)"
proof -
  have "first_line (path @ [LF] @ typed) = path @ [LF]"
    using assms(1) by (simp add: first_line_def takeWhile_append takeWhile_eq_all_conv)
  then have "fst (fgets PATH_SIZE (fopen_read (path @ [LF] @ typed))) = Some (path @ [LF])"
    using assms(3) by (simp add: fgets_def fopen_read_def PATH_SIZE_def)
  moreover have "c_str (path @ [LF]) = path @ [LF]" using assms(2) by (intro c_str_id) simp
  ultimately show ?thesis using assms(3) by (simp add: get_handler_def strcpy_def MAX_SIZE_def request_line_def)
qed

text \<open>A piece that does not end in a line feed has none.\<close>

lemma chunk_no_LF: "2 \<le> n \<Longrightarrow> p \<in> set (chunks n xs) \<Longrightarrow> last p \<noteq> LF \<Longrightarrow> LF \<notin> set p"
proof (induction n xs rule: chunks.induct)
  case (1 n xs)
  let ?l = "take (n - 1) (first_line xs)"
  have "LF \<notin> set ?l" if "last ?l \<noteq> LF"
  proof (cases "length (first_line xs) \<le> n - 1")
    case True
    then show ?thesis using that by (auto simp: first_line_def dest: set_takeWhileD split: if_splits)
  next
    case False
    then have "?l = take (n - 1) (takeWhile (\<lambda>c. c \<noteq> LF) xs)" by (auto simp: first_line_def split: if_splits)
    then show ?thesis by (auto dest!: in_set_takeD set_takeWhileD)
  qed
  then show ?case using 1 by (cases "xs = []") (auto simp: chunks.simps [of n xs] Let_def)
qed

text \<open>
  What the reader of the client prints of any answer without NULs: a prefix that misses at most an unfinished
  last line of less than 1023 characters. An answer that is empty or ends in a line feed is printed whole; a
  short answer that is one unfinished line is not printed at all.
\<close>

lemma reader_prints:
  assumes "NUL \<notin> set data"
  shows "\<exists>printed lost. read_handler (fopen_read data) = Some printed \<and> data = printed @ lost \<and> length lost < 1023
     \<and> LF \<notin> set lost \<and> (data = [] \<or> last data = LF \<longrightarrow> lost = [])
     \<and> (LF \<notin> set data \<and> length data < 1023 \<longrightarrow> printed = [])"
proof (cases "data \<noteq> [] \<and> meets_end MAX_SIZE (last (chunks MAX_SIZE data))")
  case True
  then obtain ps p where ps: "chunks MAX_SIZE data = ps @ [p]" "meets_end MAX_SIZE p"
    using chunks_ne [OF MAX_2, of data] by (metis append_butlast_last_id)
  have d: "data = concat ps @ p" using concat_chunks [OF MAX_2, of data] ps(1) by simp
  then have "map c_str ps = ps" using assms by (intro map_idI c_str_id) auto
  then have r: "read_handler (fopen_read data) = Some (concat ps)"
    using True ps by (simp add: read_handler_prints printed_pieces_def)
  have one: "concat ps = []" if "LF \<notin> set data" "length data < 1023"
    using one_chunk [OF MAX_2, of data] that True ps(1) by (simp add: MAX_SIZE_def)
  have "p \<noteq> []" using chunks_nonempty [OF MAX_2, of data] ps(1) by auto
  have "LF \<notin> set p" using chunk_no_LF [OF MAX_2, of p data] ps by (simp add: meets_end_def)
  with \<open>p \<noteq> []\<close> show ?thesis using r d ps(2) one
    by (intro exI [of _ "concat ps"] exI [of _ p]) (auto simp: meets_end_def MAX_SIZE_def)
next
  case False
  then have "printed_pieces data = chunks MAX_SIZE data" by (auto simp: printed_pieces_def Let_def)
  then have r: "read_handler (fopen_read data) = Some data" using assms MAX_2 by (simp add: read_handler_prints chunks_c_str)
  have "data = []" if "LF \<notin> set data" "length data < 1023"
    using one_chunk [OF MAX_2, of data] that False last_in_set [of data] by (cases "data = []") (auto simp: meets_end_def MAX_SIZE_def)
  with r show ?thesis by auto
qed

text \<open>
  C17. The two programs together fetch a page. When the user types the path of a file whose name is two components
  around one dot, shorter than 30 characters and free of blanks, slashes, dots and control characters, the client returns. It
  has printed the header with the type that the extension gives and then what the server sent of the file, but for an unfinished
  last line, of fewer than 1023 characters, if there is one. A file without zero bytes is sent whole, and when it is also empty or
  ends in a line feed it is printed whole.
\<close>

theorem page_is_fetched:
  assumes "web_name base ext" and "files (base @ ''.'' @ ext) = Some content"
    and "sock \<noteq> -1" and "3 \<le> length argv" and "connect_r \<noteq> -1"
  shows "\<exists>printed lost. http_client_main argv sock connect_r (http_session files (''/'' @ base @ ''.'' @ ext @ [LF] @ typed))
        = Some (Inr (Returns (ok_header (mime ext) @ printed)))
     \<and> printed @ lost = concat (map c_str (chunks BUF_SIZE content)) \<and> length lost < 1023 \<and> LF \<notin> set lost
     \<and> (NUL \<notin> set content \<longrightarrow> printed @ lost = content)
     \<and> (NUL \<notin> set content \<and> (content = [] \<or> last content = LF) \<longrightarrow> printed = content)"
proof -
  note w = assms(1) [unfolded web_name_def]
  define body where "body = concat (map c_str (chunks BUF_SIZE content))"
  obtain h where h: "net h = Some []" "request_handler files (Some (fopen_read (request_line (''/'' @ base @ ''.'' @ ext)))) True
      = send_data files (mime ext) (base @ ''.'' @ ext) h"
    using get_is_answered [OF assms(1), of files] by blast
  have "length (mime ext) < 15" by (simp add: mime_def)
  then have s: "send_data files (mime ext) (base @ ''.'' @ ext) h
      = Some (h\<lparr>opened := opened h + 1, net := Some (ok_header (mime ext) @ body), net_open := False\<rparr>)"
    using send_data_file [of h "[]" files "base @ ''.'' @ ext" content "mime ext"] h(1) assms(2) by (simp add: body_def)
  have "NUL \<notin> set body" by (auto simp: body_def c_str_def dest: set_takeWhileD)
  then have "NUL \<notin> set (ok_header (mime ext) @ body)" by (simp add: ok_header_def mime_def)
  from reader_prints [OF this] obtain pr lost where
    r: "read_handler (fopen_read (ok_header (mime ext) @ body)) = Some pr" "ok_header (mime ext) @ body = pr @ lost" "length lost < 1023"
      "LF \<notin> set lost" by blast
  have "\<exists>t. ok_header (mime ext) = t @ [LF]" by (simp add: ok_header_def)
  then obtain t where t: "ok_header (mime ext) = t @ [LF]" by blast
  have "length (ok_header (mime ext)) \<le> length pr"
  proof (rule ccontr)
    assume "\<not> length (ok_header (mime ext)) \<le> length pr"
    then have "\<exists>u. lost = u @ [LF] @ body" using r(2) unfolding t by (auto simp: append_eq_append_conv2 Cons_eq_append_conv)
    with r(4) show False by auto
  qed
  with r(2) obtain printed where printed: "pr = ok_header (mime ext) @ printed" "body = printed @ lost"
    by (auto simp: append_eq_append_conv2)
  have whole: "body = content" if "NUL \<notin> set content" using that by (simp add: body_def chunks_c_str BUF_SIZE_def)
  have "lost = []" if "NUL \<notin> set content" "content = [] \<or> last content = LF"
  proof (rule ccontr)
    assume ne: "lost \<noteq> []"
    then have "content \<noteq> []" "last content = last lost" using whole [OF that(1)] printed(2) by auto
    with that(2) last_in_set [OF ne] r(4) show False by simp
  qed
  moreover have "http_client_main argv sock connect_r (http_session files (''/'' @ base @ ''.'' @ ext @ [LF] @ typed))
        = Some (Inr (Returns (ok_header (mime ext) @ printed)))"
    using typed_path_requested [of "''/'' @ base @ ''.'' @ ext" typed] h(2) s w assms(3-5) r(1) printed(1)
    by (auto simp: http_session_def http_client_main_def)
  ultimately show ?thesis using printed(2) r(3,4) whole by (intro exI [of _ printed] exI [of _ lost]) (auto simp: body_def [symmetric])
qed

theorem page_is_fetched_witness:
  "http_client_main [''c'', ''ip'', ''80''] 3 0 (http_session (\<lambda>f. if f = ''a.htm'' then Some (''<p>'' @ [LF]) else None) (''/'' @ ''a'' @ ''.'' @ ''htm'' @ [LF] @ []))
     = Some (Inr (Returns (ok_header (mime ''htm'') @ ''<p>'' @ [LF])))"
proof -
  have "web_name ''a'' ''htm''" by (simp add: web_name_def)
  from page_is_fetched [OF this, of "\<lambda>f. if f = ''a.htm'' then Some (''<p>'' @ [LF]) else None" "''<p>'' @ [LF]" 3 "[''c'', ''ip'', ''80'']" 0 "[]"]
  show ?thesis by auto
qed

text \<open>
  A missing page. The request for a file that cannot be opened is answered with the error header, but the
  stream is not closed: the client waits for the end of the answer for ever.
\<close>

theorem missing_page_never_ends:
  assumes "web_name base ext" and "files (base @ ''.'' @ ext) = None"
  shows "(\<exists>h. request_handler files (Some (fopen_read (request_line (''/'' @ base @ ''.'' @ ext)))) True = Some h
        \<and> net h = Some error_page \<and> net_open h)
     \<and> http_session files (''/'' @ base @ ''.'' @ ext @ [LF] @ typed) = Some Waits"
proof -
  note w = assms(1) [unfolded web_name_def]
  obtain h where h: "net h = Some []" "net_open h"
    "request_handler files (Some (fopen_read (request_line (''/'' @ base @ ''.'' @ ext)))) True
      = send_data files (mime ext) (base @ ''.'' @ ext) h"
    using get_is_answered [OF assms(1), of files] by blast
  then have "request_handler files (Some (fopen_read (request_line (''/'' @ base @ ''.'' @ ext)))) True
      = Some ((print ''fopen() error'' h)\<lparr>net := Some error_page\<rparr>)"
    using assms(2) by (simp add: send_data_def strcpy_def SMALL_BUF_def mime_def send_error_page)
  with h(2) typed_path_requested [of "''/'' @ base @ ''.'' @ ext" typed] w show ?thesis by (auto simp: http_session_def)
qed

theorem missing_page_never_ends_witness: "http_session (\<lambda>f. None) (''/'' @ ''a'' @ ''.'' @ ''htm'' @ [LF] @ []) = Some Waits"
  by (rule missing_page_never_ends [THEN conjunct2]) (simp_all add: web_name_def)

text \<open>What the server reads of a request line: its first 99 characters.\<close>

lemma request_line_cut:
  assumes "LF \<notin> set path" and "NUL \<notin> set path"
  shows "fst (fgets SMALL_BUF (fopen_read (request_line path))) = Some (take 99 (request_line path))"
    and "c_str (take 99 (request_line path)) = take 99 (request_line path)"
proof -
  have "takeWhile (\<lambda>c. c \<noteq> LF) path = path" using assms(1) by (auto simp: takeWhile_eq_all_conv)
  then have "first_line (request_line path) = request_line path"
    using assms(1) by (simp add: first_line_def request_line_def takeWhile_append2 takeWhile_append)
  moreover have "take 99 (request_line path) \<noteq> []" by (simp add: request_line_def)
  ultimately show "fst (fgets SMALL_BUF (fopen_read (request_line path))) = Some (take 99 (request_line path))"
    by (simp add: fgets_def fopen_read_def SMALL_BUF_def Let_def)
  have "NUL \<notin> set (take 99 (request_line path))" using assms(2) by (auto simp: request_line_def dest!: in_set_takeD)
  then show "c_str (take 99 (request_line path)) = take 99 (request_line path)" by (rule c_str_id)
qed

lemma request_line_89:
  assumes "length path \<le> 89"
  shows "take 99 (request_line path) = ''GET '' @ path @ '' HTTP/'' @ take (89 - length path) (''1.1'' @ CRLF)"
proof -
  have "95 - length path = Suc (Suc (Suc (Suc (Suc (Suc (89 - length path))))))" using assms by simp
  then show ?thesis using assms by (simp add: request_line_def)
qed

text \<open>
  C28. Requests that bring the server down. A \<^verbatim>\<open>GET\<close> for the root page, or for a path whose first component has no
  dot or has 30 characters or more, makes the thread copy from a null pointer or behind its array, whatever
  files there are, when the path has at most 89 characters. The server reads the first 99 characters of the request line
  only; when \<^verbatim>\<open>HTTP/\<close> is not among them, the request is answered with the error page instead, and the stream closed.
\<close>

theorem undotted_path_faults:
  assumes "LF \<notin> set path" and "NUL \<notin> set path"
  shows "(length path \<le> 89 \<and> (path = ''/'' @ first \<or> first \<noteq> [] \<and> path = ''/'' @ first @ ''/'' @ deeper)
        \<and> set first \<inter> {CHR '' '', CHR ''/''} = {} \<and> (CHR ''.'' \<notin> set first \<or> 30 \<le> length first)
      \<longrightarrow> request_handler files (Some (fopen_read (request_line path))) True = None)
     \<and> (\<not> strstr (take 99 (request_line path)) ''HTTP/''
      \<longrightarrow> (\<exists>h. request_handler files (Some (fopen_read (request_line path))) True = Some h \<and> net h = Some error_page \<and> \<not> net_open h))"
proof (rule conjI)
  note line = request_line_cut [OF assms]
  show "length path \<le> 89 \<and> (path = ''/'' @ first \<or> first \<noteq> [] \<and> path = ''/'' @ first @ ''/'' @ deeper)
        \<and> set first \<inter> {CHR '' '', CHR ''/''} = {} \<and> (CHR ''.'' \<notin> set first \<or> 30 \<le> length first)
      \<longrightarrow> request_handler files (Some (fopen_read (request_line path))) True = None"
  proof (intro impI, elim conjE)
    assume len: "length path \<le> 89" and path: "path = ''/'' @ first \<or> first \<noteq> [] \<and> path = ''/'' @ first @ ''/'' @ deeper"
      and first: "set first \<inter> {CHR '' '', CHR ''/''} = {}" "CHR ''.'' \<notin> set first \<or> 30 \<le> length first"
    define more where "more = take (89 - length path) (''1.1'' @ CRLF)"
    note cut = request_line_89 [OF len, folded more_def]
    have "strstr (''GET '' @ path @ '' HTTP/'' @ more) ''HTTP/''"
      using strstr_append [of "''GET '' @ path @ '' ''" "''HTTP/''" more] by simp
    moreover have "strtok '' /'' (''GET '' @ path @ '' HTTP/'' @ more) = Some (''GET'', path @ '' HTTP/'' @ more)"
      using strtok_token [of "''GET''" "'' /''" "[]" "CHR '' ''" "path @ '' HTTP/'' @ more"] by simp
    moreover obtain token rest where t: "strtok '' /'' (path @ '' HTTP/'' @ more) = Some (token, rest)"
      "token = (if first = [] then ''HTTP'' else first)"
    proof (cases "first = []")
      case True
      then show thesis using path that [of "''HTTP''" more] by (simp add: strtok_def)
    next
      case False
      then show thesis
        using path that name_token [OF False first(1), of "CHR '' ''" "''HTTP/'' @ more"]
          name_token [OF False first(1), of "CHR ''/''" "deeper @ '' HTTP/'' @ more"] by auto
    qed
    moreover have "strcpy 30 token = None \<or> content_type token = None"
      using first(2) t(2) by (auto simp: strcpy_def content_type_no_dot)
    ultimately show "request_handler files (Some (fopen_read (request_line path))) True = None"
      unfolding request_handler_def using line unfolding cut by (auto simp: strcpy_def)
  qed
  show "\<not> strstr (take 99 (request_line path)) ''HTTP/''
      \<longrightarrow> (\<exists>h. request_handler files (Some (fopen_read (request_line path))) True = Some h \<and> net h = Some error_page \<and> \<not> net_open h)"
    unfolding request_handler_def using line by (simp add: send_error_page)
qed

theorem undotted_path_faults_witness:
  "request_handler (\<lambda>f. None) (Some (fopen_read (request_line ''/''))) True = None
   \<and> request_handler (\<lambda>f. None) (Some (fopen_read (request_line (''/'' @ replicate 50 CHR ''x'')))) True = None
   \<and> (\<exists>h. request_handler (\<lambda>f. None) (Some (fopen_read (request_line (''/'' @ replicate 95 CHR ''x'')))) True = Some h \<and> net h = Some error_page)"
proof -
  have "\<not> strstr (take 99 (request_line (''/'' @ replicate 95 CHR ''x''))) ''HTTP/''" by code_simp
  then show ?thesis
    using undotted_path_faults [THEN conjunct1, of "''/''" "[]" "[]" "\<lambda>f. None"] undotted_path_faults [THEN conjunct1, of "''/'' @ replicate 50 CHR ''x''" "replicate 50 CHR ''x''" "[]" "\<lambda>f. None"]
      undotted_path_faults [THEN conjunct2, of "''/'' @ replicate 95 CHR ''x''" "\<lambda>f. None"] by auto
qed

lemma content_type_range: "content_type name = Some ct \<Longrightarrow> ct \<in> {''text/html'', ''text/plain''}"
  by (auto simp: content_type_def bind_eq_Some_conv split: if_splits)

lemma send_error_net: "send_error h = Some h' \<Longrightarrow> \<exists>t. net h = Some t \<and> h' = h\<lparr>net := Some (t @ error_page)\<rparr>"
  using send_error_page [of h] by (cases "net h") (auto simp: send_error_def fputs_def)

lemma send_data_outcome:
  assumes "send_data files ct name h = Some h'" and "length ct < 15"
  shows "\<exists>t. net h = Some t \<and>
    (files name = None \<and> h' = (print ''fopen() error'' h)\<lparr>net := Some (t @ error_page)\<rparr>
     \<or> (\<exists>data. files name = Some data \<and> h' = h\<lparr>opened := opened h + 1,
          net := Some (t @ ok_header ct @ concat (map c_str (chunks BUF_SIZE data))), net_open := False\<rparr>))"
proof (cases "files name")
  case None
  then show ?thesis using assms send_error_net [of "print ''fopen() error'' h" h'] by (auto simp: send_data_def bind_eq_Some_conv)
next
  case (Some data)
  then obtain t where t: "net h = Some t" using assms(1) by (cases "net h") (auto simp: send_data_def fputs_def bind_eq_Some_conv)
  then show ?thesis using send_data_file [of h t files name data ct] Some assms by simp
qed

text \<open>The branches of a thread that ends: the error page after some printing, or the answer to a \<^verbatim>\<open>GET\<close>.\<close>

lemma request_branches:
  assumes "request_handler files clnt_read can_write = Some h"
  obtains h0 where "net h0 = (if can_write then Some [] else None)" and "opened h0 = 0"
    and "(\<exists>h'. send_error h0 = Some h' \<and> h = h'\<lparr>read_open := False, net_open := False\<rparr>)
      \<or> (\<exists>ct name. content_type name = Some ct \<and> length name < 30 \<and> send_data files ct name h0 = Some h \<and> \<not> read_open h0)"
proof -
  obtain fp buf where fp: "clnt_read = Some fp" "fst (fgets SMALL_BUF fp) = Some buf"
    using assms by (auto simp: request_handler_def bind_eq_Some_conv)
  define h1 where "h1 = print (''req_line: '' @ c_str buf)
     \<lparr>net = (if can_write then Some [] else None), net_open = can_write, read_open = True, opened = 0, console = []\<rparr>"
  have net: "net h1 = (if can_write then Some [] else None)" "opened h1 = 0" by (simp_all add: h1_def)
  note body = assms [unfolded request_handler_def fp(1) Let_def bind.bind_lunit fp(2), folded h1_def]
  show thesis
  proof (cases "strstr (c_str buf) ''HTTP/''")
    case False
    then show thesis using body net that [of "print ''not http protocal'' h1"] by (auto simp: bind_eq_Some_conv)
  next
    case True
    then obtain m name ct where *: "content_type name = Some ct" "length name < 30"
      "(if m \<noteq> ''GET'' then do {
         h \<leftarrow> send_error (print ''not get method'' (print (''file_name: '' @ name) (print (''method: '' @ m) h1)));
         Some (h\<lparr>read_open := False, net_open := False\<rparr>) }
       else send_data files ct name (h1\<lparr>read_open := False\<rparr>)) = Some h"
      using body by (auto simp: bind_eq_Some_conv strcpy_Some simp del: append_Cons append_Nil)
    show thesis
    proof (cases "m = ''GET''")
      case True
      with * net show thesis by (intro that [of "h1\<lparr>read_open := False\<rparr>"]) auto
    next
      case False
      with * net show thesis
        by (intro that [of "print ''not get method'' (print (''file_name: '' @ name) (print (''method: '' @ m) h1))"])
          (auto simp: bind_eq_Some_conv)
    qed
  qed
qed

text \<open>
  C21. Every answer has one of two forms. Whatever the client sends, a thread that ends has closed the stream it
  read from and has written either the error header, with no file left open, or the header of a text page and the
  file that was asked for, up to NULs; then the file has been left open, the connection has not. The stream of
  the connection stays open only behind an error header.
\<close>

theorem answers_have_two_forms:
  assumes "request_handler files clnt_read can_write = Some h"
  shows "\<not> read_open h \<and>
    (net h = Some error_page \<and> opened h = 0
     \<or> (\<exists>name data ct. files name = Some data \<and> ct \<in> {''text/html'', ''text/plain''} \<and> length name < 30
          \<and> net h = Some (ok_header ct @ concat (map c_str (chunks BUF_SIZE data))) \<and> opened h = 1 \<and> \<not> net_open h))"
proof -
  obtain h0 where h0: "net h0 = (if can_write then Some [] else None)" "opened h0 = 0"
    and "(\<exists>h'. send_error h0 = Some h' \<and> h = h'\<lparr>read_open := False, net_open := False\<rparr>)
      \<or> (\<exists>ct name. content_type name = Some ct \<and> length name < 30 \<and> send_data files ct name h0 = Some h \<and> \<not> read_open h0)"
    by (rule request_branches [OF assms])
  then consider h' where "send_error h0 = Some h'" "h = h'\<lparr>read_open := False, net_open := False\<rparr>"
    | ct name where "content_type name = Some ct" "length name < 30" "send_data files ct name h0 = Some h" "\<not> read_open h0"
    by blast
  then show ?thesis
  proof cases
    case 1
    then show ?thesis using h0 send_error_net [of h0 h'] by (auto split: if_splits)
  next
    case 2
    then have ct: "ct \<in> {''text/html'', ''text/plain''}" "length ct < 15" using content_type_range [of name ct] by auto
    obtain t where t: "net h0 = Some t" "files name = None \<and> h = (print ''fopen() error'' h0)\<lparr>net := Some (t @ error_page)\<rparr>
      \<or> (\<exists>data. files name = Some data \<and> h = h0\<lparr>opened := opened h0 + 1,
          net := Some (t @ ok_header ct @ concat (map c_str (chunks BUF_SIZE data))), net_open := False\<rparr>)"
      using send_data_outcome [OF 2(3) ct(2)] by blast
    then have "t = []" using h0(1) by (simp split: if_splits)
    show ?thesis
    proof (cases "files name")
      case None
      with t(2) \<open>t = []\<close> h0(2) 2(4) show ?thesis by auto
    next
      case (Some data)
      with t(2) \<open>t = []\<close> h0(2) 2(2,4) ct(1) show ?thesis
        by (intro conjI disjI2 exI [of _ name] exI [of _ data] exI [of _ ct]) auto
    qed
  qed
qed

theorem answers_have_two_forms_witness:
  "\<exists>h. request_handler (\<lambda>f. None) (Some (fopen_read ''x'')) True = Some h \<and> net h = Some error_page"
proof -
  obtain h where "request_handler (\<lambda>f. None) (Some (fopen_read ''x'')) True = Some h"
    by (simp add: request_handler_def fgets_def fopen_read_def first_line_def SMALL_BUF_def c_str_def send_error_page)
  with answers_have_two_forms [OF this] show ?thesis by auto
qed

section \<open>One variable for all connections\<close>

lemma accept_run_append: "accept_run (es @ es') s = do { s \<leftarrow> accept_run es s; accept_run es' s }"
proof (induction es arbitrary: s)
  case (Cons e es)
  then show ?case by (cases "accept_step e s") simp_all
qed simp

lemma accept_run_snoc:
  "accept_run (es @ [e]) s = Some t \<longleftrightarrow> (\<exists>u. accept_run es s = Some u \<and> accept_step e u = Some t)"
  by (auto simp: accept_run_append bind_eq_Some_conv)

text \<open>Every thread that has not started stands for one connection; the variable holds the last one.\<close>

lemma accept_inv:
  assumes "accept_run es accept_start = Some s"
  shows "length (served s) + unread s = length (accepted s)" and "accepted s \<noteq> [] \<Longrightarrow> clnt_sock s = last (accepted s)"
  using assms
proof (induction es arbitrary: s rule: rev_induct)
  case Nil
  { case 1 from this show ?case by (auto simp: accept_start_def) }
  { case 2 from this show ?case by (auto simp: accept_start_def) }
next
  case (snoc e es)
  { case 1 then show ?case using snoc.IH(1) by (cases e) (fastforce simp: accept_run_snoc split: if_splits)+ }
  { case 2 then show ?case using snoc.IH(2) by (cases e) (fastforce simp: accept_run_snoc split: if_splits)+ }
qed

lemma served_accepted:
  assumes "accept_run es accept_start = Some s"
  shows "set (served s) \<subseteq> set (accepted s)"
  using assms
proof (induction es arbitrary: s rule: rev_induct)
  case (snoc e es)
  then obtain u where u: "accept_run es accept_start = Some u" "accept_step e u = Some s" by (auto simp: accept_run_snoc)
  show ?case
  proof (cases e)
    case Start
    then have "accepted u \<noteq> []" using u accept_inv(1) [OF u(1)] by (auto split: if_splits)
    then have "clnt_sock u \<in> set (accepted u)" using accept_inv(2) [OF u(1)] by simp
    then show ?thesis using Start u snoc.IH [OF u(1)] by (auto split: if_splits)
  qed (use u snoc.IH [OF u(1)] in auto)
qed (simp add: accept_start_def)

text \<open>Every thread starts before the next connection is accepted.\<close>

definition prompt :: "int list \<Rightarrow> accept_event list" where
  "prompt fds = concat (map (\<lambda>fd. [Accept fd, Start]) fds)"

lemma prompt_snoc: "prompt (fds @ [fd]) = prompt fds @ [Accept fd, Start]"
  by (simp add: prompt_def)

lemma prompt_run:
  "\<exists>s. accept_run (prompt fds) accept_start = Some s \<and> accepted s = fds \<and> served s = fds \<and> unread s = 0"
proof (induction fds rule: rev_induct)
  case (snoc fd fds)
  then show ?case by (auto simp: prompt_snoc accept_run_append)
qed (simp add: prompt_def accept_start_def)

text \<open>
  When no connection but perhaps the last one has been missed, and none has been served twice, the run so far is
  prompt, up to one thread that may not have started.
\<close>

lemma run_is_prompt:
  assumes "accept_run es accept_start = Some s" and "distinct (accepted s)" and "distinct (served s)"
    and "set (butlast (accepted s)) \<subseteq> set (served s)"
  shows "if unread s = 0 then es = prompt (accepted s)
    else accepted s \<noteq> [] \<and> unread s = 1 \<and> es = prompt (butlast (accepted s)) @ [Accept (last (accepted s))]"
  using assms
proof (induction es arbitrary: s rule: rev_induct)
  case Nil
  then show ?case by (auto simp: accept_start_def prompt_def)
next
  case (snoc e es)
  then obtain u where u: "accept_run es accept_start = Some u" "accept_step e u = Some s" by (auto simp: accept_run_snoc)
  have "length (butlast (accepted s)) \<le> length (served s)"
    using snoc.prems(2-4) by (metis card_mono distinct_butlast distinct_card finite_set)
  then have count: "unread s \<le> 1" using accept_inv(1) [OF snoc.prems(1)] by simp
  show ?case
  proof (cases e)
    case (Accept fd)
    with u(2) have s: "accepted s = accepted u @ [fd]" "unread s = unread u + 1" "served s = served u" by auto
    then have "set (butlast (accepted u)) \<subseteq> set (served u)" using snoc.prems(4) in_set_butlastD by fastforce
    then show ?thesis using snoc.IH [OF u(1)] snoc.prems(2,3) s count Accept by simp
  next
    case Start
    with u(2) have s: "accepted s = accepted u" "unread u = unread s + 1" "served s = served u @ [clnt_sock u]" by (auto split: if_splits)
    then have ne: "accepted u \<noteq> []" using accept_inv(1) [OF u(1)] by auto
    then have "clnt_sock u = last (accepted u)" using accept_inv(2) [OF u(1)] by simp
    moreover have "last (accepted u) \<notin> set (butlast (accepted u))"
      using snoc.prems(2) s(1) ne by (metis append_butlast_last_id distinct_append disjoint_insert(1) list.set(2))
    ultimately have "set (butlast (accepted u)) \<subseteq> set (served u)" using snoc.prems(4) s by auto
    then have "unread u = 1 \<and> es = prompt (butlast (accepted u)) @ [Accept (last (accepted u))]"
      using snoc.IH [OF u(1)] snoc.prems(2,3) s by (auto split: if_splits)
    then have "unread s = 0 \<and> es @ [Start] = prompt (butlast (accepted u) @ [last (accepted u)])"
      using s by (simp add: prompt_snoc)
    then show ?thesis using Start s(1) ne by simp
  qed
qed

text \<open>
  C22. The threads share the variable that names their connection. In every order of accepting and starting in
  which all threads have started, every connection has been served if and only if each thread started before the
  next connection was accepted; in every other order one connection is served by two threads and another is
  never served.
\<close>

theorem all_served_iff_prompt:
  assumes "http_server_start argv b l = Inr s0" and "accept_run es s0 = Some s" and "unread s = 0" and "distinct (accepted s)"
  shows "(set (accepted s) \<subseteq> set (served s) \<longleftrightarrow> es = prompt (accepted s))
     \<and> (es \<noteq> prompt (accepted s) \<longrightarrow> \<not> distinct (served s) \<and> \<not> set (accepted s) \<subseteq> set (served s))
     \<and> length (served s) = length (accepted s)"
proof -
  have run: "accept_run es accept_start = Some s" using assms(1,2) by (auto simp: http_server_start_def split: if_splits)
  have len: "length (served s) = length (accepted s)" using accept_inv(1) [OF run] assms(3) by simp
  have d: "distinct (served s)" if "set (accepted s) \<subseteq> set (served s)"
    using that len assms(4) by (metis card_distinct card_length card_mono distinct_card finite_set le_antisym)
  have p: "es = prompt (accepted s)" if "distinct (served s)" "set (butlast (accepted s)) \<subseteq> set (served s)"
    using run_is_prompt [OF run assms(4) that] assms(3) by simp
  have all: "set (accepted s) \<subseteq> set (served s)" if "distinct (served s)"
    using that len assms(4) served_accepted [OF run] by (metis card_subset_eq distinct_card finite_set order_refl)
  have "set (accepted s) \<subseteq> set (served s)" if "es = prompt (accepted s)"
    using prompt_run [of "accepted s"] that run by auto
  moreover have "es = prompt (accepted s)" if "set (accepted s) \<subseteq> set (served s)"
    using p d that in_set_butlastD by fast
  ultimately show ?thesis using all len by blast
qed

theorem all_served_iff_prompt_witness:
  "\<exists>s0 s. http_server_start [''http_server'', ''80''] 0 0 = Inr s0 \<and> accept_run [Accept 4, Accept 5, Start, Start] s0 = Some s \<and> served s = [5, 5] \<and> \<not> set (accepted s) \<subseteq> set (served s)"
proof -
  let ?es = "[Accept 4, Accept 5, Start, Start]"
  obtain s where s: "accept_run ?es accept_start = Some s" "served s = [5, 5]" "accepted s = [4, 5]" "unread s = 0"
    by (simp add: accept_start_def)
  then have "distinct (accepted s)" "?es \<noteq> prompt (accepted s)" by (simp_all add: prompt_def)
  moreover have "http_server_start [''http_server'', ''80''] 0 0 = Inr accept_start" by (simp add: http_server_start_def)
  ultimately show ?thesis using all_served_iff_prompt [OF _ s(1,4)] s by blast
qed

end
