(* ===== verification/SelectEcho.thy ===== *)
theory SelectEcho
  imports Net
begin

text \<open>
  echo_selectserv.c: an echo server for Linux that waits with \<^verbatim>\<open>select\<close>. The system is the parameter \<open>sel_sys\<close>,
  whose answers depend on the events so far; the events are recorded with their results. An \<^verbatim>\<open>fd_set\<close> is a
  set of descriptors. The macros on a number outside the set, such as the \<open>-1\<close> of a failed \<^verbatim>\<open>accept\<close>, and the
  \<^verbatim>\<open>write\<close> with the length \<open>-1\<close> of a failed \<^verbatim>\<open>read\<close> leave their arrays: \<open>None\<close>.
\<close>

section \<open>The program\<close>

definition SE_BUF_SIZE :: nat where
  "SE_BUF_SIZE = 100"

datatype sel_event =
    Ev_socket int
  | Ev_bind int SOCKADDR_IN int
  | Ev_listen int int
  | Ev_select int "int set" int
  | Ev_accept int int
  | Ev_read int "string option"
  | Ev_write int string int
  | Ev_close int

record sel_sys =
  sl_socket :: int
  sl_bind :: int
  sl_listen :: int
  sl_select :: "sel_event list \<Rightarrow> int \<Rightarrow> int set \<Rightarrow> int \<times> int set"
  sl_accept :: "sel_event list \<Rightarrow> int"
  sl_read :: "sel_event list \<Rightarrow> int \<Rightarrow> string option"
  sl_write :: "sel_event list \<Rightarrow> int \<Rightarrow> string \<Rightarrow> int"

record sel_state =
  serv_sock :: int
  reads :: "int set"
  fd_max :: int
  events :: "sel_event list"

definition log :: "sel_event \<Rightarrow> sel_state \<Rightarrow> sel_state" where
  "log e s = s\<lparr>events := events s @ [e]\<rparr>"

text \<open>\<^verbatim>\<open>error_handling\<close> prints its message and returns, so a failed \<^verbatim>\<open>bind\<close> or \<^verbatim>\<open>listen\<close> changes nothing.\<close>

definition sel_start :: "sel_sys \<Rightarrow> string list \<Rightarrow> (int + sel_state) option" where
  "sel_start y argv =
     (if length argv \<noteq> 2 then Some (Inl 1)
      else let sock = sl_socket y;
               adr = \<lparr>sin_family = AF_INET, sin_port = htons (word_of_int (atoi (argv ! 1))), sin_addr = (0, 0, 0, 0)\<rparr>;
               evs = [Ev_socket sock, Ev_bind sock adr (sl_bind y), Ev_listen sock (sl_listen y)]
           in if fd_ok sock then Some (Inr \<lparr>serv_sock = sock, reads = {sock}, fd_max = sock, events = evs\<rparr>)
              else None)"

definition serve_fd :: "sel_sys \<Rightarrow> int \<Rightarrow> sel_state \<Rightarrow> sel_state option" where
  "serve_fd y i s =
     (if i = serv_sock s then
        (let clnt_sock = sl_accept y (events s);
             s = log (Ev_accept i clnt_sock) s in
         if \<not> fd_ok clnt_sock then None
         else let s = s\<lparr>reads := insert clnt_sock (reads s)\<rparr>
              in Some (if fd_max s < clnt_sock then s\<lparr>fd_max := clnt_sock\<rparr> else s))
      else
        (let msg = map_option (take SE_BUF_SIZE) (sl_read y (events s) i);
             s = log (Ev_read i msg) s in
         case msg of
           None \<Rightarrow> None
         | Some buf \<Rightarrow>
             if buf = [] then Some (log (Ev_close i) (s\<lparr>reads := reads s - {i}\<rparr>))
             else Some (log (Ev_write i buf (sl_write y (events s) i buf)) s)))"

text \<open>The \<^verbatim>\<open>for\<close> loop; its bound is looked at in every round, and \<^verbatim>\<open>accept\<close> may raise it.\<close>

partial_function (option) scan_fds :: "sel_sys \<Rightarrow> int set \<Rightarrow> int \<Rightarrow> sel_state \<Rightarrow> sel_state option" where
  "scan_fds y cpy_reads i s =
     (if i < fd_max s + 1 then
        (if \<not> fd_ok i then None
         else if i \<in> cpy_reads then do { s \<leftarrow> serve_fd y i s; scan_fds y cpy_reads (i + 1) s }
         else scan_fds y cpy_reads (i + 1) s)
      else Some s)"

declare scan_fds.simps [code]

text \<open>A round of the outer loop: the exit code when the loop is left, or the next state.\<close>

definition sel_round :: "sel_sys \<Rightarrow> sel_state \<Rightarrow> (int \<times> sel_state + sel_state) option" where
  "sel_round y s =
     (let (fd_num, cpy_reads) = sl_select y (events s) (fd_max s) (reads s);
          s = log (Ev_select (fd_max s) (reads s) fd_num) s in
      if fd_num = -1 then Some (Inl (0, log (Ev_close (serv_sock s)) s))
      else if fd_num = 0 then Some (Inr s)
      else map_option Inr (scan_fds y cpy_reads 0 s))"

inductive sel_reach :: "sel_sys \<Rightarrow> string list \<Rightarrow> sel_state \<Rightarrow> bool" for y argv where
  sel_begin: "sel_start y argv = Some (Inr s) \<Longrightarrow> sel_reach y argv s"
| sel_next: "sel_reach y argv s \<Longrightarrow> sel_round y s = Some (Inr s') \<Longrightarrow> sel_reach y argv s'"

section \<open>What the server has done\<close>

text \<open>The descriptors that were accepted and not closed since, next to the listening one.\<close>

fun watch :: "sel_event \<Rightarrow> int set \<Rightarrow> int set" where
  "watch (Ev_accept i c) W = insert c W"
| "watch (Ev_close i) W = W - {i}"
| "watch _ W = W"

definition open_fds :: "int \<Rightarrow> sel_event list \<Rightarrow> int set" where
  "open_fds sock es = fold watch es {sock}"

text \<open>
  The bytes received from a descriptor, and those given to \<^verbatim>\<open>write\<close> for it; the program does not look at what
  \<^verbatim>\<open>write\<close> returns, so how many of them are sent is up to the system.
\<close>

fun received :: "int \<Rightarrow> sel_event \<Rightarrow> string" where
  "received fd (Ev_read i (Some d)) = (if i = fd then d else [])"
| "received fd _ = []"

fun written :: "int \<Rightarrow> sel_event \<Rightarrow> string" where
  "written fd (Ev_write i d n) = (if i = fd then d else [])"
| "written fd _ = []"

definition sel_ok :: "sel_state \<Rightarrow> bool" where
  "sel_ok s \<longleftrightarrow> reads s = open_fds (serv_sock s) (events s) \<and> (\<forall>fd \<in> reads s. fd_ok fd \<and> fd \<le> fd_max s) \<and> fd_ok (fd_max s)
     \<and> (\<forall>fd. concat (map (written fd) (events s)) = concat (map (received fd) (events s)))"

lemma log_fields [simp]:
  "serv_sock (log e s) = serv_sock s" "reads (log e s) = reads s" "fd_max (log e s) = fd_max s" "events (log e s) = events s @ [e]"
  by (simp_all add: log_def)

lemma sel_start_ok: "sel_start y argv = Some (Inr s) \<Longrightarrow> sel_ok s"
  by (auto simp: sel_start_def sel_ok_def open_fds_def Let_def split: if_splits)

lemma serve_fd_ok:
  assumes "sel_ok s" and "serve_fd y i s = Some s'"
  shows "sel_ok s' \<and> serv_sock s' = serv_sock s \<and> fd_max s \<le> fd_max s'"
proof (cases "i = serv_sock s")
  case True
  then show ?thesis
    using assms by (fastforce simp: serve_fd_def Let_def sel_ok_def open_fds_def split: if_splits)
next
  case False
  then show ?thesis
    using assms by (auto simp: serve_fd_def Let_def sel_ok_def open_fds_def split: option.splits if_splits)
qed

lemma scan_fds_ok:
  assumes "scan_fds y cpy i s = Some s'"
  shows "sel_ok s \<longrightarrow> sel_ok s'"
proof (rule scan_fds.raw_induct [where P = "\<lambda>y cpy i s s'. sel_ok s \<longrightarrow> sel_ok s'", OF _ assms], goal_cases)
  case (1 f y cpy i s s')
  show ?case
  proof (cases "i < fd_max s + 1 \<and> fd_ok i \<and> i \<in> cpy")
    case True
    then obtain s1 where "serve_fd y i s = Some s1" "f y cpy (i + 1) s1 = Some s'" using 1(2) by (auto simp: bind_eq_Some_conv)
    then show ?thesis using serve_fd_ok 1(1) by blast
  next
    case False
    then show ?thesis using 1 by (auto split: if_splits)
  qed
qed

lemma sel_round_ok:
  assumes "sel_ok s" and "sel_round y s = Some (Inr s')"
  shows "sel_ok s'"
proof -
  have "sel_ok (log (Ev_select n W r) s)" for n W r using assms(1) by (simp add: sel_ok_def open_fds_def)
  then show ?thesis using assms(2) scan_fds_ok by (auto simp: sel_round_def case_prod_unfold Let_def split: if_splits)
qed

section \<open>Properties\<close>

text \<open>
  The bookkeeping, whatever \<^verbatim>\<open>select\<close> answers: the set that is watched is the listening socket and the descriptors that were
  accepted and not closed, all of them are within the set's range and at most \<^verbatim>\<open>fd_max\<close>, and on every descriptor the bytes given
  to \<^verbatim>\<open>write\<close> are those received there. With a \<^verbatim>\<open>select\<close> that keeps to its manual no client gets that far, as the next theorem shows.
\<close>

lemma select_server_bookkeeping:
  assumes "sel_reach y argv s"
  shows "reads s = open_fds (serv_sock s) (events s) \<and> (\<forall>fd \<in> reads s. 0 \<le> fd \<and> fd \<le> fd_max s \<and> fd_max s < 1024)
     \<and> (\<forall>fd. concat (map (written fd) (events s)) = concat (map (received fd) (events s)))"
proof -
  have "sel_ok s" using assms by induction (auto intro: sel_start_ok sel_round_ok)
  then show ?thesis by (auto simp: sel_ok_def fd_ok_def FD_SETSIZE_def)
qed

text \<open>A system on which every call succeeds and \<^verbatim>\<open>select\<close> finds everything ready.\<close>

definition busy_sys :: "sel_sys" where
  "busy_sys = \<lparr>sl_socket = 3, sl_bind = 0, sl_listen = 0, sl_select = (\<lambda>es n W. let R = {fd \<in> W. fd < n} in (int (card R), R)),
     sl_accept = (\<lambda>es. 4), sl_read = (\<lambda>es fd. Some ''hi''), sl_write = (\<lambda>es fd d. int (length d))\<rparr>"

lemma busy_start: "\<exists>s. sel_start busy_sys [''echo'', ''5000''] = Some (Inr s) \<and> reads s = {3} \<and> serv_sock s = 3 \<and> fd_max s = 3"
  by (simp add: sel_start_def busy_sys_def fd_ok_def FD_SETSIZE_def)

text \<open>The manual of \<^verbatim>\<open>select\<close>: it returns \<open>-1\<close> or a number, and a positive one only for a descriptor below its first argument.\<close>

definition looks_below :: "sel_sys \<Rightarrow> bool" where
  "looks_below y \<longleftrightarrow> (\<forall>es n W. fst (sl_select y es n W) = -1 \<or> fst (sl_select y es n W) = 0
     \<or> 0 < fst (sl_select y es n W) \<and> (\<exists>fd \<in> W. fd < n))"

text \<open>
  C24. The select server never accepts a connection. \<^verbatim>\<open>select\<close> looks at the descriptors below its first argument
  only, and the program passes \<^verbatim>\<open>fd_max\<close> instead of \<^verbatim>\<open>fd_max + 1\<close>: at first the listening socket is the
  highest descriptor, so it is not looked at, no wait reports anything, and this never changes.
\<close>

theorem select_server_never_accepts:
  assumes "sel_reach y argv s" and "looks_below y"
  shows "reads s = {serv_sock s} \<and> (\<forall>i c. Ev_accept i c \<notin> set (events s))"
proof -
  have "reads s = {serv_sock s} \<and> fd_max s = serv_sock s \<and> (\<forall>i c. Ev_accept i c \<notin> set (events s))"
    using assms(1)
  proof induction
    case (sel_begin s)
    then show ?case by (auto simp: sel_start_def Let_def split: if_splits)
  next
    case (sel_next s s')
    have "\<not> (\<exists>fd \<in> reads s. fd < fd_max s)" using sel_next.IH by simp
    then have "fst (sl_select y (events s) (fd_max s) (reads s)) \<in> {-1, 0}"
      using assms(2) unfolding looks_below_def by blast
    then show ?case using sel_next.hyps(2) sel_next.IH
      by (auto simp: sel_round_def case_prod_unfold Let_def log_def split: if_splits)
  qed
  then show ?thesis by blast
qed

theorem select_server_never_accepts_witness:
  "\<exists>s. sel_reach busy_sys [''echo'', ''5000''] s \<and> events s \<noteq> [] \<and> (\<forall>i c. Ev_accept i c \<notin> set (events s))"
proof -
  obtain s where s: "sel_start busy_sys [''echo'', ''5000''] = Some (Inr s)" using busy_start by blast
  then have "sel_reach busy_sys [''echo'', ''5000''] s" by (rule sel_begin)
  moreover have "looks_below busy_sys"
    unfolding looks_below_def busy_sys_def by (auto simp: Let_def card_gt_0_iff)
  moreover have "events s \<noteq> []" using s by (auto simp: sel_start_def Let_def split: if_splits)
  ultimately show ?thesis using select_server_never_accepts by blast
qed

text \<open>The scan over the descriptors ends: the bound stays below 1024.\<close>

lemma scan_fds_ends:
  assumes "sel_ok s" and "0 \<le> i" and "\<And>es. fd_ok (sl_accept y es)" and "\<And>es fd. sl_read y es fd \<noteq> None"
  shows "\<exists>s'. scan_fds y cpy i s = Some s'"
  using assms(1,2)
proof (induction "nat (1024 - i)" arbitrary: i s rule: less_induct)
  case less
  show ?case
  proof (cases "i < fd_max s + 1")
    case True
    have i: "fd_ok i" "i < 1024" using True less.prems by (auto simp: sel_ok_def fd_ok_def FD_SETSIZE_def)
    have "serve_fd y i s \<noteq> None"
      using assms(3) [of "events s"] assms(4) [of "events s" i] by (auto simp: serve_fd_def Let_def)
    then obtain s1 where s1: "serve_fd y i s = Some s1" by blast
    have "sel_ok s1" using serve_fd_ok [OF less.prems(1) s1] by blast
    then show ?thesis using True i s1 less.hyps [of "i + 1"] less.prems by (auto simp: scan_fds.simps [of y cpy i s])
  qed (simp add: scan_fds.simps)
qed

text \<open>
  A round of the select server returns: in every state it reaches, when \<^verbatim>\<open>accept\<close> and \<^verbatim>\<open>read\<close> succeed, the
  scan over the descriptors comes to its end although the bound of its loop grows while it runs.
\<close>

theorem select_round_returns:
  assumes "sel_reach y argv s" and "\<And>es. fd_ok (sl_accept y es)" and "\<And>es fd. sl_read y es fd \<noteq> None"
  shows "\<exists>r. sel_round y s = Some r"
proof -
  have "sel_ok s" using assms(1) by induction (auto intro: sel_start_ok sel_round_ok)
  then have "sel_ok (log (Ev_select n W k) s)" for n W k by (simp add: sel_ok_def open_fds_def)
  then have "\<exists>s'. scan_fds y cpy 0 (log (Ev_select n W k) s) = Some s'" for cpy n W k
    using scan_fds_ends assms(2,3) by simp
  then show ?thesis by (fastforce simp: sel_round_def case_prod_unfold Let_def)
qed

theorem select_round_returns_witness:
  "\<exists>s r. sel_reach busy_sys [''echo'', ''5000''] s \<and> sel_round busy_sys s = Some r"
proof -
  obtain s where "sel_start busy_sys [''echo'', ''5000''] = Some (Inr s)" using busy_start by blast
  then have "sel_reach busy_sys [''echo'', ''5000''] s" by (rule sel_begin)
  then show ?thesis using select_round_returns [of busy_sys] by (auto simp: busy_sys_def fd_ok_def FD_SETSIZE_def)
qed

end
