(* ===== verification/Runs.thy ===== *)
theory Runs
  imports Main
begin

text \<open>
  Programs whose threads, processes or signals run in any order, as transition systems. The locales state
  what has to be shown of a program for a property to stay once it holds (\<open>stable_steps\<close>), for its invariant to
  hold in every state it reaches (\<open>invariant_machine\<close>) and for every run to come to its end (\<open>ending_machine\<close>); the programs interpret them.
\<close>

locale stable_steps =
  fixes step :: "'s \<Rightarrow> 's \<Rightarrow> bool" and inv :: "'s \<Rightarrow> bool"
  assumes inv_step: "inv s \<Longrightarrow> step s s' \<Longrightarrow> inv s'"
begin

lemma kept: "rtranclp step s t \<Longrightarrow> inv s \<Longrightarrow> inv t"
  by (induction rule: rtranclp_induct) (auto intro: inv_step)

end

locale invariant_machine = stable_steps +
  fixes start :: 'a
  assumes inv_start: "inv start"
begin

lemma reachable_inv: "rtranclp step start s \<Longrightarrow> inv s"
  using kept inv_start by blast

end

text \<open>Every step lowers the rank, and a state that is not final has a step.\<close>

locale ending_machine = invariant_machine +
  fixes final :: "'a \<Rightarrow> bool" and rank :: "'a \<Rightarrow> nat"
  assumes rank_step: "inv s \<Longrightarrow> step s s' \<Longrightarrow> rank s' < rank s"
    and progress: "inv s \<Longrightarrow> \<not> final s \<Longrightarrow> \<exists>s'. step s s'"
begin

lemma run_length:
  assumes "inv s" and "(step ^^ n) s t"
  shows "inv t \<and> n + rank t \<le> rank s"
  using assms(2)
proof (induction n arbitrary: t)
  case 0
  with assms(1) show ?case by simp
next
  case (Suc n)
  then obtain u where "(step ^^ n) s u" "step u t" by auto
  with Suc.IH [of u] inv_step [of u t] rank_step [of u t] show ?case by auto
qed

lemma reaches_final: "inv s \<Longrightarrow> \<exists>t. rtranclp step s t \<and> final t"
proof (induction "rank s" arbitrary: s rule: less_induct)
  case less
  show ?case
  proof (cases "final s")
    case False
    then obtain u where "step s u" using progress less.prems by blast
    moreover have "inv u" "rank u < rank s" using inv_step rank_step less.prems \<open>step s u\<close> by blast+
    ultimately show ?thesis using less.hyps [of u] by (meson converse_rtranclp_into_rtranclp)
  qed blast
qed

text \<open>No run is longer than the rank of its first state, and from every state a final one is reached.\<close>

lemma every_run_ends:
  "(step ^^ n) start s \<Longrightarrow> n \<le> rank start \<and> (\<exists>t. rtranclp step s t \<and> final t)"
  using run_length [OF inv_start] reaches_final by force

end

end
