(* ===== verification/EpollTest.thy ===== *)
theory EpollTest
  imports Runs Prelude
begin

text \<open>
  epoll_poll_test.c: a server on one \<^verbatim>\<open>epoll\<close> instance that answers whatever a client sends with 1024 bytes. The
  results of the system calls that matter are arguments of the set-up, or fields of the event that is handled. What the \<^verbatim>\<open>epoll\<close> instance
  watches is a map from descriptors to event masks; closing a descriptor removes it from the map. The program as it is written
  does not get past its set-up (\<open>setup_faults\<close>); the loop is modelled as it stands behind it.
\<close>

unbundle bit_operations_syntax

section \<open>The set-up\<close>

definition EPOLLIN :: "32 word" where
  "EPOLLIN = 1"

definition EPOLLOUT :: "32 word" where
  "EPOLLOUT = 4"

definition EPOLLERR :: "32 word" where
  "EPOLLERR = 8"

definition MAX_EVENT :: nat where
  "MAX_EVENT = 1024"

record epoll_state =
  listenfd :: int
  interest :: "int \<rightharpoonup> 32 word"
  nonblocking :: "int set"
  open_fds :: "int set"
  reads :: "int list"
  replies :: "int list"

text \<open>\<open>flag\<close> is the result of \<^verbatim>\<open>F_GETFL\<close>, \<open>set_ok\<close> whether \<^verbatim>\<open>F_SETFL\<close> succeeds.\<close>

definition epoll_set_nonblocking :: "int \<Rightarrow> bool \<Rightarrow> int \<Rightarrow> epoll_state \<Rightarrow> epoll_state" where
  "epoll_set_nonblocking flag set_ok fd s =
     (if flag < 0 then s else if \<not> set_ok then s else s\<lparr>nonblocking := insert fd (nonblocking s)\<rparr>)"

text \<open>
  \<^verbatim>\<open>inet_addr\<close> reads the text it is given; \<^verbatim>\<open>INADDR_ANY\<close> is the number 0, which becomes the null pointer.
\<close>

definition inet_addr :: "string option \<Rightarrow> (string \<Rightarrow> 32 word) \<Rightarrow> 32 word option" where
  "inet_addr text parse = map_option parse text"

definition INADDR_ANY_text :: "string option" where
  "INADDR_ANY_text = None"

text \<open>
  \<^verbatim>\<open>epoll_ctl\<close> with \<^verbatim>\<open>EPOLL_CTL_ADD\<close> and \<^verbatim>\<open>EPOLL_CTL_MOD\<close>: an open descriptor that is not watched, or is. The call
  may also fail for other reasons (\<open>ok\<close>), and \<^verbatim>\<open>error_handle\<close> does nothing.
\<close>

definition epoll_add :: "bool \<Rightarrow> int \<Rightarrow> 32 word \<Rightarrow> epoll_state \<Rightarrow> epoll_state" where
  "epoll_add ok fd m s = (if ok \<and> fd \<in> open_fds s \<and> interest s fd = None then s\<lparr>interest := (interest s)(fd \<mapsto> m)\<rparr> else s)"

definition epoll_mod :: "bool \<Rightarrow> int \<Rightarrow> 32 word \<Rightarrow> epoll_state \<Rightarrow> epoll_state" where
  "epoll_mod ok fd m s = (if ok \<and> fd \<in> open_fds s \<and> interest s fd \<noteq> None then s\<lparr>interest := (interest s)(fd \<mapsto> m)\<rparr> else s)"

text \<open>
  The set-up with what \<^verbatim>\<open>socket\<close>, \<^verbatim>\<open>fcntl\<close>, \<^verbatim>\<open>epoll_create1\<close> and \<^verbatim>\<open>epoll_ctl\<close> return: \<open>epoll_watch\<close> is its part after
  the address, where nothing is watched when the instance could not be made or the socket not be added.
\<close>

definition epoll_watch :: "int \<Rightarrow> int \<Rightarrow> bool \<Rightarrow> int \<Rightarrow> bool \<Rightarrow> epoll_state" where
  "epoll_watch sock flag set_ok epfd add_ok =
     (let s = \<lparr>listenfd = sock, interest = Map.empty, nonblocking = {}, open_fds = (if sock < 0 then {} else {sock}), reads = [], replies = []\<rparr>;
          s = epoll_set_nonblocking flag set_ok sock s
      in epoll_add (0 \<le> epfd \<and> add_ok) sock (EPOLLIN OR EPOLLERR) s)"

definition epoll_setup :: "int \<Rightarrow> int \<Rightarrow> bool \<Rightarrow> (string \<Rightarrow> 32 word) \<Rightarrow> int \<Rightarrow> bool \<Rightarrow> epoll_state option" where
  "epoll_setup sock flag set_ok parse epfd add_ok = do {
     s_addr \<leftarrow> inet_addr INADDR_ANY_text parse;
     Some (epoll_watch sock flag set_ok epfd add_ok) }"

section \<open>The loop\<close>

text \<open>A reported event, with the results of the calls its handling makes.\<close>

record epoll_event =
  fd :: int
  events :: "32 word"
  accept_result :: int
  conn_flag :: int
  conn_set_ok :: bool
  ctl_ok :: bool
  nread :: int
  nwrite :: int
  again :: bool

definition handle_event :: "epoll_event \<Rightarrow> epoll_state \<Rightarrow> epoll_state option" where
  "handle_event e s =
     (if events e AND EPOLLIN \<noteq> 0 then
        if fd e = listenfd s then
          let connfd = accept_result e;
              s = (if 0 \<le> connfd then s\<lparr>open_fds := insert connfd (open_fds s)\<rparr> else s);
              s = epoll_set_nonblocking (conn_flag e) (conn_set_ok e) connfd s
          in Some (epoll_add (ctl_ok e) connfd EPOLLIN s)
        else
          let s = s\<lparr>reads := reads s @ [fd e]\<rparr> in
          if nread e < 0 then Some s
          else if nread e = 0 then
            Some (s\<lparr>open_fds := open_fds s - {fd e}, interest := (interest s)(fd e := None)\<rparr>)
          else
            let s = s\<lparr>replies := replies s @ [fd e]\<rparr> in
            if nwrite e = -1 \<and> again e then Some (epoll_mod (ctl_ok e) (fd e) EPOLLOUT s) else Some s
      else if events e AND EPOLLOUT \<noteq> 0 then Some s
      else None)"

text \<open>One round: the loop over the reported events; \<open>None\<close> is the \<^verbatim>\<open>return\<close> from \<^verbatim>\<open>main\<close>.\<close>

fun epoll_round :: "epoll_event list \<Rightarrow> epoll_state \<Rightarrow> epoll_state option" where
  "epoll_round [] s = Some s"
| "epoll_round (e # es) s = do { s \<leftarrow> handle_event e s; epoll_round es s }"

text \<open>
  What \<^verbatim>\<open>epoll_wait\<close> may report in a state: an error or a hang-up, or what is asked for, of a descriptor that is
  watched; and \<^verbatim>\<open>accept\<close> gives no descriptor that is open.
\<close>

definition EPOLLHUP :: "32 word" where
  "EPOLLHUP = 16"

definition reportable :: "epoll_state \<Rightarrow> epoll_event \<Rightarrow> bool" where
  "reportable s e \<longleftrightarrow> (\<exists>m. interest s (fd e) = Some m \<and> events e AND NOT (m OR EPOLLERR OR EPOLLHUP) = 0)"

fun accepts_fresh :: "epoll_event list \<Rightarrow> epoll_state \<Rightarrow> bool" where
  "accepts_fresh [] s \<longleftrightarrow> True"
| "accepts_fresh (e # es) s \<longleftrightarrow> accept_result e \<notin> open_fds s
     \<and> (case handle_event e s of None \<Rightarrow> True | Some s \<Rightarrow> accepts_fresh es s)"

text \<open>
  One pass of the \<^verbatim>\<open>while\<close> loop. At most \<^verbatim>\<open>MAX_EVENT\<close> descriptors are reported together, each once, before any is
  handled.
\<close>

definition epoll_step :: "epoll_state \<Rightarrow> epoll_state \<Rightarrow> bool" where
  "epoll_step s t \<longleftrightarrow> (\<exists>es. length es \<le> MAX_EVENT \<and> distinct (map fd es) \<and> (\<forall>e \<in> set es. reportable s e)
     \<and> accepts_fresh es s \<and> epoll_round es s = Some t)"

section \<open>What the server watches\<close>

text \<open>
  When it is watched, the listening socket is watched for connections; every other descriptor that is watched is an open connection,
  waiting either for data or for room to write.
\<close>

definition epoll_ok :: "epoll_state \<Rightarrow> bool" where
  "epoll_ok s \<longleftrightarrow> listenfd s \<in> open_fds s
     \<and> (\<forall>f m. interest s f = Some m \<longrightarrow> f \<in> open_fds s \<and> (if f = listenfd s then m = EPOLLIN OR EPOLLERR else m \<in> {EPOLLIN, EPOLLOUT}))"

lemma epoll_set_nonblocking_fields [simp]:
  "interest (epoll_set_nonblocking flag ok f s) = interest s" "open_fds (epoll_set_nonblocking flag ok f s) = open_fds s"
  "listenfd (epoll_set_nonblocking flag ok f s) = listenfd s" "reads (epoll_set_nonblocking flag ok f s) = reads s"
  "replies (epoll_set_nonblocking flag ok f s) = replies s"
  by (simp_all add: epoll_set_nonblocking_def)

lemma epoll_add_fields [simp]:
  "open_fds (epoll_add ok f m s) = open_fds s" "listenfd (epoll_add ok f m s) = listenfd s"
  "reads (epoll_add ok f m s) = reads s" "replies (epoll_add ok f m s) = replies s"
  "interest (epoll_add ok f m s) = (if ok \<and> f \<in> open_fds s \<and> interest s f = None then (interest s)(f \<mapsto> m) else interest s)"
  by (simp_all add: epoll_add_def)

lemma handle_event_cases:
  assumes "handle_event e s = Some t"
  obtains (accept) "fd e = listenfd s" "listenfd t = listenfd s" "open_fds s \<subseteq> open_fds t"
      "interest t = interest s \<or> accept_result e \<in> open_fds t \<and> interest t = (interest s)(accept_result e \<mapsto> EPOLLIN)"
    | (close) "fd e \<noteq> listenfd s" "listenfd t = listenfd s" "open_fds t = open_fds s - {fd e}" "interest t = (interest s)(fd e := None)"
    | (other) "fd e \<noteq> listenfd s" "listenfd t = listenfd s" "open_fds t = open_fds s"
      "interest t = interest s \<or> fd e \<in> open_fds s \<and> interest t = (interest s)(fd e \<mapsto> EPOLLOUT)"
    | (none) "t = s"
proof (cases "events e AND EPOLLIN \<noteq> 0")
  case False
  then show thesis using assms none by (simp add: handle_event_def split: if_splits)
next
  case True
  show thesis
  proof (cases "fd e = listenfd s")
    case l: True
    let ?u = "if 0 \<le> accept_result e then s\<lparr>open_fds := insert (accept_result e) (open_fds s)\<rparr> else s"
    have "t = epoll_add (ctl_ok e) (accept_result e) EPOLLIN (epoll_set_nonblocking (conn_flag e) (conn_set_ok e) (accept_result e) ?u)"
      using assms True l by (simp add: handle_event_def Let_def)
    then show thesis using l by (intro accept) auto
  next
    case l: False
    consider "nread e = 0" | "nread e \<noteq> 0" by blast
    then show thesis
    proof cases
      case 1
      then show thesis using assms True l by (intro close) (auto simp: handle_event_def Let_def)
    next
      case 2
      then show thesis using assms True l by (intro other) (auto simp: handle_event_def epoll_mod_def Let_def split: if_splits)
    qed
  qed
qed

lemma epoll_ok_same:
  "epoll_ok s \<Longrightarrow> listenfd t = listenfd s \<Longrightarrow> open_fds s \<subseteq> open_fds t \<Longrightarrow> interest t = interest s \<Longrightarrow> epoll_ok t"
  unfolding epoll_ok_def by (metis subsetD)

lemma epoll_ok_watch:
  assumes "epoll_ok s" and "listenfd t = listenfd s" and "open_fds s \<subseteq> open_fds t"
    and "interest t = (interest s)(f \<mapsto> m)" and "f \<in> open_fds t" and "f \<noteq> listenfd s" and "m \<in> {EPOLLIN, EPOLLOUT}"
  shows "epoll_ok t"
proof -
  have "listenfd t \<in> open_fds t" using assms(1-3) by (auto simp: epoll_ok_def)
  moreover have "g \<in> open_fds t \<and> (if g = listenfd t then n = EPOLLIN OR EPOLLERR else n \<in> {EPOLLIN, EPOLLOUT})"
    if w: "interest t g = Some n" for g n
  proof -
    consider "g = f" "n = m" | "g \<noteq> f" "interest s g = Some n" using w unfolding assms(4) by (auto split: if_splits)
    then show ?thesis
    proof cases
      case 1
      then show ?thesis using assms(2,5,6,7) by simp
    next
      case 2
      then show ?thesis using assms(1-3) unfolding epoll_ok_def by (metis subsetD)
    qed
  qed
  ultimately show ?thesis unfolding epoll_ok_def by blast
qed

lemma handle_event_ok:
  assumes "epoll_ok s" and "accept_result e \<notin> open_fds s" and "handle_event e s = Some t"
  shows "epoll_ok t \<and> listenfd t = listenfd s"
proof -
  have l: "listenfd s \<in> open_fds s" using assms(1) by (auto simp: epoll_ok_def)
  from assms(3) show ?thesis
  proof (cases rule: handle_event_cases)
    case accept
    moreover have "accept_result e \<noteq> listenfd s" using assms(2) l by auto
    ultimately show ?thesis using epoll_ok_same [OF assms(1)] epoll_ok_watch [OF assms(1)] by blast
  next
    case close
    moreover have "epoll_ok t"
      unfolding epoll_ok_def close(2-4)
    proof (rule conjI)
      show "listenfd s \<in> open_fds s - {fd e}" using l close(1) by auto
      have "interest s f = Some m \<and> f \<noteq> fd e" if "((interest s)(fd e := None)) f = Some m" for f m
        using that by (simp split: if_splits)
      then show "\<forall>f m. ((interest s)(fd e := None)) f = Some m \<longrightarrow> f \<in> open_fds s - {fd e} \<and>
          (if f = listenfd s then m = EPOLLIN OR EPOLLERR else m \<in> {EPOLLIN, EPOLLOUT})"
        using assms(1) unfolding epoll_ok_def by blast
    qed
    ultimately show ?thesis by simp
  next
    case other
    then show ?thesis using epoll_ok_same [OF assms(1)] epoll_ok_watch [OF assms(1)] by blast
  next
    case none
    then show ?thesis using assms(1) by simp
  qed
qed

lemma epoll_round_ok:
  "epoll_ok s \<Longrightarrow> accepts_fresh es s \<Longrightarrow> epoll_round es s = Some t \<Longrightarrow> epoll_ok t \<and> listenfd t = listenfd s"
proof (induction es arbitrary: s)
  case (Cons e es)
  then obtain u where u: "handle_event e s = Some u" "epoll_round es u = Some t" by (auto simp: bind_eq_Some_conv)
  then have "epoll_ok u \<and> listenfd u = listenfd s" using handle_event_ok Cons.prems by auto
  then show ?case using Cons.IH [of u] Cons.prems(2) u by simp
qed simp

lemma epoll_step_ok: "epoll_ok s \<Longrightarrow> epoll_step s t \<Longrightarrow> epoll_ok t \<and> listenfd t = listenfd s"
  using epoll_round_ok by (auto simp: epoll_step_def)

interpretation epoll: stable_steps epoll_step "\<lambda>s. epoll_ok s \<and> listenfd s = sock" for sock
  by unfold_locales (use epoll_step_ok in auto)

text \<open>The calls made for one event concern its own descriptor.\<close>

lemma handle_event_calls:
  assumes "handle_event e s = Some t" and "f \<noteq> fd e"
  shows "filter ((=) f) (reads t) = filter ((=) f) (reads s)" and "filter ((=) f) (replies t) = filter ((=) f) (replies s)"
  using assms by (auto simp: handle_event_def epoll_mod_def Let_def split: if_splits)

section \<open>A client that does not take its answer\<close>

definition stalled :: "int \<Rightarrow> epoll_state \<Rightarrow> bool" where
  "stalled f s \<longleftrightarrow> f \<in> open_fds s \<and> f \<noteq> listenfd s \<and> interest s f = Some EPOLLOUT"

lemma no_in_reported:
  assumes "interest s (fd e) = Some EPOLLOUT" and "reportable s e"
  shows "events e AND EPOLLIN = 0"
proof -
  have r: "events e AND NOT (EPOLLOUT OR EPOLLERR OR EPOLLHUP) = 0" using assms by (simp add: reportable_def)
  have "bit (events e AND NOT (EPOLLOUT OR EPOLLERR OR EPOLLHUP)) 0 = bit (events e) 0"
    by (simp add: bit_simps EPOLLOUT_def EPOLLERR_def EPOLLHUP_def)
  with r have "\<not> bit (events e) 0" by simp
  then show ?thesis by (simp add: EPOLLIN_def and_one_eq bit_0 even_iff_mod_2_eq_zero)
qed

lemma handle_event_stalled:
  assumes "stalled f s" and "accept_result e \<notin> open_fds s" and "handle_event e s = Some t"
    and "fd e = f \<Longrightarrow> events e AND EPOLLIN = 0"
  shows "stalled f t \<and> filter ((=) f) (reads t) = filter ((=) f) (reads s) \<and> filter ((=) f) (replies t) = filter ((=) f) (replies s)"
proof (cases "fd e = f")
  case True
  then have "t = s" using assms(3,4) by (simp add: handle_event_def split: if_splits)
  then show ?thesis using assms(1) by simp
next
  case False
  from assms(3) have "stalled f t"
  proof (cases rule: handle_event_cases)
    case accept
    moreover have "accept_result e \<noteq> f" using assms(1,2) by (auto simp: stalled_def)
    ultimately show ?thesis using assms(1) by (auto simp: stalled_def)
  next
    case other
    then show ?thesis using assms(1) False by (auto simp: stalled_def)
  qed (use assms(1) False in \<open>auto simp: stalled_def\<close>)
  then show ?thesis using handle_event_calls [OF assms(3)] False by auto
qed

lemma epoll_round_stalled:
  assumes "stalled f s" and "accepts_fresh es s" and "epoll_round es s = Some t" and "\<forall>e \<in> set es. fd e = f \<longrightarrow> events e AND EPOLLIN = 0"
  shows "stalled f t \<and> filter ((=) f) (reads t) = filter ((=) f) (reads s) \<and> filter ((=) f) (replies t) = filter ((=) f) (replies s)"
  using assms
proof (induction es arbitrary: s)
  case (Cons e es)
  then obtain u where u: "handle_event e s = Some u" "epoll_round es u = Some t" by (auto simp: bind_eq_Some_conv)
  have "stalled f u \<and> filter ((=) f) (reads u) = filter ((=) f) (reads s) \<and> filter ((=) f) (replies u) = filter ((=) f) (replies s)"
    by (rule handle_event_stalled [OF Cons.prems(1) _ u(1)]) (use Cons.prems(2,4) in auto)
  then show ?case using Cons.IH [of u] Cons.prems(2,4) u by simp
qed simp

lemma epoll_step_stalled:
  assumes "stalled f s" and "epoll_step s t"
  shows "stalled f t \<and> filter ((=) f) (reads t) = filter ((=) f) (reads s) \<and> filter ((=) f) (replies t) = filter ((=) f) (replies s)"
proof -
  obtain es where es: "\<forall>e \<in> set es. reportable s e" "accepts_fresh es s" "epoll_round es s = Some t"
    using assms(2) by (auto simp: epoll_step_def)
  have "\<forall>e \<in> set es. fd e = f \<longrightarrow> events e AND EPOLLIN = 0" using es(1) assms(1) no_in_reported by (auto simp: stalled_def)
  then show ?thesis using epoll_round_stalled assms(1) es by blast
qed

interpretation stalled_epoll: stable_steps epoll_step
    "\<lambda>s. stalled f s \<and> filter ((=) f) (reads s) = rs \<and> filter ((=) f) (replies s) = ws" for f rs ws
  by unfold_locales (use epoll_step_stalled in auto)

text \<open>\<^verbatim>\<open>inet_addr(INADDR_ANY)\<close> reads through the null pointer, whatever the calls before and after it return.\<close>

lemma setup_faults: "epoll_setup sock flag set_ok parse epfd add_ok = None"
  by (simp add: epoll_setup_def inet_addr_def INADDR_ANY_text_def)

text \<open>
  The loop behind a set-up that reads a proper address: each watched descriptor other than the listening socket is open and waits for
  data or for room to write. A client whose answer would have blocked is left waiting for room for good: from then on the
  server never reads from it, never writes to it and never closes it.
\<close>

lemma stalled_client_is_abandoned:
  assumes "0 \<le> sock" and "rtranclp epoll_step (epoll_watch sock flag set_ok epfd add_ok) s" and "f \<noteq> sock"
    and "interest s f = Some EPOLLOUT" and "rtranclp epoll_step s t"
  shows "epoll_ok s \<and> epoll_ok t \<and> f \<in> open_fds t \<and> interest t f = Some EPOLLOUT
     \<and> filter ((=) f) (reads t) = filter ((=) f) (reads s) \<and> filter ((=) f) (replies t) = filter ((=) f) (replies s)"
proof -
  have "listenfd (epoll_watch sock flag set_ok epfd add_ok) = sock \<and> epoll_ok (epoll_watch sock flag set_ok epfd add_ok)"
    using assms(1) by (auto simp: epoll_watch_def epoll_ok_def Let_def split: if_splits)
  then have "epoll_ok s \<and> listenfd s = sock" using epoll.kept [OF assms(2)] by blast
  then have ok: "epoll_ok s" "epoll_ok t" "listenfd s = sock" using epoll.kept [OF assms(5)] by auto
  then have "stalled f s" using assms(3,4) unfolding epoll_ok_def stalled_def by blast
  then have "stalled f t \<and> filter ((=) f) (reads t) = filter ((=) f) (reads s) \<and> filter ((=) f) (replies t) = filter ((=) f) (replies s)"
    using stalled_epoll.kept [OF assms(5)] by blast
  then show ?thesis using ok by (simp add: stalled_def)
qed

text \<open>A client that sends a byte and takes no answer gets there.\<close>

definition stall_event :: "int \<Rightarrow> int \<Rightarrow> epoll_event" where
  "stall_event d conn = \<lparr>fd = d, events = EPOLLIN, accept_result = conn, conn_flag = 2, conn_set_ok = True, ctl_ok = True, nread = 1, nwrite = -1, again = True\<rparr>"

lemma stalled_client_reached:
  "\<exists>s. rtranclp epoll_step (epoll_watch 3 2 True 4 True) s \<and> interest s 5 = Some EPOLLOUT \<and> replies s = [5]
     \<and> (\<forall>t. rtranclp epoll_step s t \<longrightarrow> filter ((=) 5) (reads t) = [5])"
proof -
  define s0 where "s0 = epoll_watch 3 2 True 4 True"
  have s0: "open_fds s0 = {3}" "listenfd s0 = 3" "interest s0 = [3 \<mapsto> EPOLLIN OR EPOLLERR]" "reads s0 = []" "replies s0 = []"
    by (simp_all add: s0_def epoll_watch_def)
  have in_in: "EPOLLIN AND EPOLLIN \<noteq> 0" by (simp add: EPOLLIN_def)
  have r: "EPOLLIN AND NOT (EPOLLIN OR EPOLLERR OR EPOLLHUP) = 0" "EPOLLIN AND NOT ((EPOLLIN OR EPOLLERR) OR EPOLLERR OR EPOLLHUP) = 0"
    by (simp_all add: EPOLLIN_def EPOLLERR_def EPOLLHUP_def)
  obtain s1 where s1: "epoll_round [stall_event 3 5] s0 = Some s1" "open_fds s1 = {3, 5}" "listenfd s1 = 3"
    "interest s1 = [3 \<mapsto> EPOLLIN OR EPOLLERR, 5 \<mapsto> EPOLLIN]" "reads s1 = []" "replies s1 = []"
    using s0 in_in by (auto simp: handle_event_def stall_event_def Let_def)
  have step1: "epoll_step s0 s1"
    unfolding epoll_step_def by (rule exI [of _ "[stall_event 3 5]"])
      (use s0 s1(1) r in \<open>auto simp: MAX_EVENT_def reportable_def stall_event_def split: option.splits\<close>)
  obtain s2 where s2: "epoll_round [stall_event 5 7] s1 = Some s2" "interest s2 5 = Some EPOLLOUT" "reads s2 = [5]" "replies s2 = [5]"
    using s1 in_in by (auto simp: handle_event_def stall_event_def Let_def epoll_mod_def)
  have step2: "epoll_step s1 s2"
    unfolding epoll_step_def by (rule exI [of _ "[stall_event 5 7]"])
      (use s1(2-) s2(1) r in \<open>auto simp: MAX_EVENT_def reportable_def stall_event_def split: option.splits\<close>)
  have run: "rtranclp epoll_step s0 s2" using step1 step2 by auto
  have "filter ((=) 5) (reads t) = [5]" if "rtranclp epoll_step s2 t" for t
    using stalled_client_is_abandoned [OF _ run [unfolded s0_def] _ s2(2) that] s2(3) by simp
  then show ?thesis using run s2 unfolding s0_def by blast
qed

end
