(* ===== verification/Semaphores.thy ===== *)
theory Semaphores
  imports Runs
begin

text \<open>
  semaphore.c: one thread reads five numbers, another adds them up; two semaphores pass the shared variable
  \<^verbatim>\<open>num\<close> back and forth. The threads and \<^verbatim>\<open>main\<close> are three programs with a location each; a step of the system
  is a step of any of them. \<^verbatim>\<open>sem_wait\<close> on a semaphore that is 0 has no step, \<^verbatim>\<open>pthread_join\<close> on a thread that
  has not ended has none. What \<^verbatim>\<open>scanf\<close> does in round \<open>i\<close> is the parameter \<open>inp i\<close>: the number it stores, or
  \<open>None\<close> when the input is no number and \<^verbatim>\<open>num\<close> is left as it was. Signed addition that overflows has no
  defined result: the adding thread then stands at \<open>A_overflow\<close> and does not go on.
\<close>

section \<open>The program\<close>

datatype reader_at = R_wait int | R_scan int | R_post int | R_done

datatype accu_at = A_wait int | A_add int | A_post int | A_done | A_overflow

datatype main_at = M_join1 | M_join2 | M_done

record sem_state =
  rd :: reader_at
  ac :: accu_at
  mn :: main_at
  sem_one :: nat
  sem_two :: nat
  num :: int
  total_sum :: int
  printed :: "int option"
  destroyed :: bool

definition int_ok :: "int \<Rightarrow> bool" where
  "int_ok x \<longleftrightarrow> - (2 ^ 31) \<le> x \<and> x < 2 ^ 31"

text \<open>The thread function \<^verbatim>\<open>read\<close>: \<open>None\<close> when it has no step.\<close>

definition reader_step :: "(int \<Rightarrow> int option) \<Rightarrow> sem_state \<Rightarrow> sem_state option" where
  "reader_step inp s = (case rd s of
      R_wait i \<Rightarrow>
        if i < 5 then (if sem_two s = 0 then None else Some (s\<lparr>rd := R_scan i, sem_two := sem_two s - 1\<rparr>))
        else Some (s\<lparr>rd := R_done\<rparr>)
    | R_scan i \<Rightarrow> Some (case inp i of None \<Rightarrow> s\<lparr>rd := R_post i\<rparr> | Some v \<Rightarrow> s\<lparr>rd := R_post i, num := v\<rparr>)
    | R_post i \<Rightarrow> Some (s\<lparr>rd := R_wait (i + 1), sem_one := sem_one s + 1\<rparr>)
    | R_done \<Rightarrow> None)"

text \<open>The thread function \<^verbatim>\<open>accu\<close>.\<close>

definition accu_step :: "sem_state \<Rightarrow> sem_state option" where
  "accu_step s = (case ac s of
      A_wait i \<Rightarrow>
        if i < 5 then (if sem_one s = 0 then None else Some (s\<lparr>ac := A_add i, sem_one := sem_one s - 1\<rparr>))
        else Some (s\<lparr>ac := A_done, printed := Some (total_sum s)\<rparr>)
    | A_add i \<Rightarrow>
        if int_ok (total_sum s + num s) then Some (s\<lparr>ac := A_post i, total_sum := total_sum s + num s\<rparr>)
        else Some (s\<lparr>ac := A_overflow\<rparr>)
    | A_post i \<Rightarrow> Some (s\<lparr>ac := A_wait (i + 1), sem_two := sem_two s + 1\<rparr>)
    | A_done \<Rightarrow> None
    | A_overflow \<Rightarrow> None)"

text \<open>\<^verbatim>\<open>main\<close> after it has started the threads.\<close>

definition main_step :: "sem_state \<Rightarrow> sem_state option" where
  "main_step s = (case mn s of
      M_join1 \<Rightarrow> if rd s = R_done then Some (s\<lparr>mn := M_join2\<rparr>) else None
    | M_join2 \<Rightarrow> if ac s = A_done then Some (s\<lparr>mn := M_done, destroyed := True\<rparr>) else None
    | M_done \<Rightarrow> None)"

definition sem_init :: sem_state where
  "sem_init = \<lparr>rd = R_wait 0, ac = A_wait 0, mn = M_join1, sem_one = 0, sem_two = 1, num = 0, total_sum = 0,
     printed = None, destroyed = False\<rparr>"

inductive sem_step :: "(int \<Rightarrow> int option) \<Rightarrow> sem_state \<Rightarrow> sem_state \<Rightarrow> bool" for inp where
  by_reader: "reader_step inp s = Some s' \<Longrightarrow> sem_step inp s s'"
| by_accu: "accu_step s = Some s' \<Longrightarrow> sem_step inp s s'"
| by_main: "main_step s = Some s' \<Longrightarrow> sem_step inp s s'"

code_pred (modes: i \<Rightarrow> i \<Rightarrow> o \<Rightarrow> bool) sem_step .

section \<open>The invariant\<close>

text \<open>The number in \<^verbatim>\<open>num\<close> after round \<open>i\<close>, and the sum of the first \<open>k\<close> rounds.\<close>

fun value_of :: "(int \<Rightarrow> int option) \<Rightarrow> nat \<Rightarrow> int" where
  "value_of inp 0 = (case inp 0 of None \<Rightarrow> 0 | Some v \<Rightarrow> v)"
| "value_of inp (Suc i) = (case inp (int (Suc i)) of None \<Rightarrow> value_of inp i | Some v \<Rightarrow> v)"

definition sum_of :: "(int \<Rightarrow> int option) \<Rightarrow> nat \<Rightarrow> int" where
  "sum_of inp k = (\<Sum>i < k. value_of inp i)"

definition no_overflow :: "(int \<Rightarrow> int option) \<Rightarrow> bool" where
  "no_overflow inp \<longleftrightarrow> (\<forall>k \<le> 5. int_ok (sum_of inp k))"

text \<open>The number in \<^verbatim>\<open>num\<close> before round \<open>i\<close>.\<close>

definition before :: "(int \<Rightarrow> int option) \<Rightarrow> nat \<Rightarrow> int" where
  "before inp i = (case i of 0 \<Rightarrow> 0 | Suc j \<Rightarrow> value_of inp j)"

text \<open>A thread stands at the head of its loop in round \<open>k\<close>; after the fifth round it may have left the loop.\<close>

definition reader_at_head :: "nat \<Rightarrow> sem_state \<Rightarrow> bool" where
  "reader_at_head k s \<longleftrightarrow> rd s = R_wait (int k) \<or> k = 5 \<and> rd s = R_done"

definition accu_at_head :: "nat \<Rightarrow> sem_state \<Rightarrow> bool" where
  "accu_at_head k s \<longleftrightarrow> ac s = A_wait (int k) \<or> k = 5 \<and> ac s = A_done \<and> printed s = Some (total_sum s)"

text \<open>
  Where the threads stand together, in round \<open>i\<close>: the reader has the variable, it has been handed over, or the
  adding thread has it.
\<close>

inductive turn :: "(int \<Rightarrow> int option) \<Rightarrow> nat \<Rightarrow> sem_state \<Rightarrow> bool" for inp where
  free: "sem_one s = 0 \<Longrightarrow> sem_two s = 1 \<Longrightarrow> reader_at_head i s \<Longrightarrow> accu_at_head i s \<Longrightarrow> num s = before inp i
    \<Longrightarrow> total_sum s = sum_of inp i \<Longrightarrow> turn inp i s"
| scanning: "sem_one s = 0 \<Longrightarrow> sem_two s = 0 \<Longrightarrow> i < 5 \<Longrightarrow> rd s = R_scan (int i) \<Longrightarrow> accu_at_head i s \<Longrightarrow> num s = before inp i
    \<Longrightarrow> total_sum s = sum_of inp i \<Longrightarrow> turn inp i s"
| scanned: "sem_one s = 0 \<Longrightarrow> sem_two s = 0 \<Longrightarrow> i < 5 \<Longrightarrow> rd s = R_post (int i) \<Longrightarrow> accu_at_head i s \<Longrightarrow> num s = value_of inp i
    \<Longrightarrow> total_sum s = sum_of inp i \<Longrightarrow> turn inp i s"
| handed: "sem_one s = 1 \<Longrightarrow> sem_two s = 0 \<Longrightarrow> i < 5 \<Longrightarrow> reader_at_head (Suc i) s \<Longrightarrow> ac s = A_wait (int i) \<Longrightarrow> num s = value_of inp i
    \<Longrightarrow> total_sum s = sum_of inp i \<Longrightarrow> turn inp i s"
| adding: "sem_one s = 0 \<Longrightarrow> sem_two s = 0 \<Longrightarrow> i < 5 \<Longrightarrow> reader_at_head (Suc i) s \<Longrightarrow> ac s = A_add (int i) \<Longrightarrow> num s = value_of inp i
    \<Longrightarrow> total_sum s = sum_of inp i \<Longrightarrow> turn inp i s"
| added: "sem_one s = 0 \<Longrightarrow> sem_two s = 0 \<Longrightarrow> i < 5 \<Longrightarrow> reader_at_head (Suc i) s \<Longrightarrow> ac s = A_post (int i) \<Longrightarrow> num s = value_of inp i
    \<Longrightarrow> total_sum s = sum_of inp (Suc i) \<Longrightarrow> turn inp i s"
| overflowed: "sem_one s = 0 \<Longrightarrow> sem_two s = 0 \<Longrightarrow> i < 5 \<Longrightarrow> reader_at_head (Suc i) s \<Longrightarrow> ac s = A_overflow
    \<Longrightarrow> \<not> int_ok (sum_of inp (Suc i)) \<Longrightarrow> turn inp i s"

definition main_ok :: "sem_state \<Rightarrow> bool" where
  "main_ok s \<longleftrightarrow> (mn s \<noteq> M_join1 \<longrightarrow> rd s = R_done) \<and> (mn s = M_done \<longrightarrow> ac s = A_done)"

definition sem_inv :: "(int \<Rightarrow> int option) \<Rightarrow> sem_state \<Rightarrow> bool" where
  "sem_inv inp s \<longleftrightarrow> (\<exists>i \<le> 5. turn inp i s) \<and> main_ok s"

text \<open>The steps that are left to a thread.\<close>

definition reader_left :: "reader_at \<Rightarrow> nat" where
  "reader_left r = (case r of R_wait i \<Rightarrow> nat (3 * (5 - i)) + 1 | R_scan i \<Rightarrow> nat (3 * (5 - i)) | R_post i \<Rightarrow> nat (3 * (5 - i)) - 1 | R_done \<Rightarrow> 0)"

definition accu_left :: "accu_at \<Rightarrow> nat" where
  "accu_left a = (case a of A_wait i \<Rightarrow> nat (3 * (5 - i)) + 1 | A_add i \<Rightarrow> nat (3 * (5 - i)) | A_post i \<Rightarrow> nat (3 * (5 - i)) - 1 | _ \<Rightarrow> 0)"

definition main_left :: "main_at \<Rightarrow> nat" where
  "main_left m = (case m of M_join1 \<Rightarrow> 2 | M_join2 \<Rightarrow> 1 | M_done \<Rightarrow> 0)"

definition steps_left :: "sem_state \<Rightarrow> nat" where
  "steps_left s = reader_left (rd s) + accu_left (ac s) + main_left (mn s)"

lemma sum_of_Suc: "sum_of inp (Suc i) = sum_of inp i + value_of inp i"
  by (simp add: sum_of_def)

lemma value_of_before: "value_of inp i = (case inp (int i) of None \<Rightarrow> before inp i | Some v \<Rightarrow> v)"
  by (cases i) (simp_all add: before_def split: option.split)

text \<open>A thread only moves itself, and a thread at the head of its loop moves only if its semaphore is up or the loop is over.\<close>

lemma reader_step_other: "reader_step inp s = Some s' \<Longrightarrow> ac s' = ac s \<and> mn s' = mn s \<and> rd s \<noteq> R_done \<and> printed s' = printed s \<and> total_sum s' = total_sum s"
  by (auto simp: reader_step_def split: reader_at.splits option.splits if_splits)

lemma accu_step_other: "accu_step s = Some s' \<Longrightarrow> rd s' = rd s \<and> mn s' = mn s \<and> num s' = num s \<and> ac s \<noteq> A_done"
  by (auto simp: accu_step_def split: accu_at.splits if_splits)

lemma accu_at_head_reader: "reader_step inp s = Some s' \<Longrightarrow> accu_at_head k s \<Longrightarrow> accu_at_head k s'"
  by (drule reader_step_other) (simp add: accu_at_head_def)

lemma reader_at_head_accu: "accu_step s = Some s' \<Longrightarrow> reader_at_head k s \<Longrightarrow> reader_at_head k s'"
  by (drule accu_step_other) (simp add: reader_at_head_def)

lemma reader_from_head:
  "reader_step inp s = Some s' \<Longrightarrow> reader_at_head k s \<Longrightarrow> k \<le> 5 \<Longrightarrow>
   rd s = R_wait (int k) \<and> (if k < 5 then sem_two s \<noteq> 0 \<and> s' = s\<lparr>rd := R_scan (int k), sem_two := sem_two s - 1\<rparr> else s' = s\<lparr>rd := R_done\<rparr>)"
  by (auto simp: reader_step_def reader_at_head_def split: if_splits)

lemma accu_from_head:
  "accu_step s = Some s' \<Longrightarrow> accu_at_head k s \<Longrightarrow> k \<le> 5 \<Longrightarrow>
   ac s = A_wait (int k) \<and> (if k < 5 then sem_one s \<noteq> 0 \<and> s' = s\<lparr>ac := A_add (int k), sem_one := sem_one s - 1\<rparr>
    else s' = s\<lparr>ac := A_done, printed := Some (total_sum s)\<rparr>)"
  by (auto simp: accu_step_def accu_at_head_def split: if_splits)

lemma reader_turn:
  assumes "turn inp i s" and "i \<le> 5" and "reader_step inp s = Some s'"
  shows "turn inp i s' \<and> reader_left (rd s') < reader_left (rd s)"
  using assms(1)
proof cases
  case free
  show ?thesis
  proof (cases "i < 5")
    case True
    then show ?thesis using free reader_from_head [OF assms(3) free(3) assms(2)] accu_at_head_reader [OF assms(3) free(4)]
      by (auto simp: reader_left_def reader_at_head_def intro!: turn.scanning)
  next
    case False
    then show ?thesis using free assms(2) reader_from_head [OF assms(3) free(3) assms(2)] accu_at_head_reader [OF assms(3) free(4)]
      by (auto simp: reader_left_def reader_at_head_def intro!: turn.free)
  qed
next
  case scanning
  then show ?thesis
    using assms(3) value_of_before [of inp i] accu_at_head_reader [OF assms(3)]
    by (auto simp: reader_step_def reader_left_def intro!: turn.scanned split: option.splits)
next
  case scanned
  then show ?thesis
    using assms(3) accu_at_head_reader [OF assms(3)]
    by (auto simp: reader_step_def reader_left_def reader_at_head_def accu_at_head_def intro!: turn.handed)
next
  case handed
  then show ?thesis using reader_from_head [OF assms(3) handed(4)]
    by (auto simp: reader_left_def reader_at_head_def intro!: turn.handed split: if_splits)
next
  case adding
  then show ?thesis using reader_from_head [OF assms(3) adding(4)]
    by (auto simp: reader_left_def reader_at_head_def intro!: turn.adding split: if_splits)
next
  case added
  then show ?thesis using reader_from_head [OF assms(3) added(4)]
    by (auto simp: reader_left_def reader_at_head_def intro!: turn.added split: if_splits)
next
  case overflowed
  then show ?thesis using reader_from_head [OF assms(3) overflowed(4)]
    by (auto simp: reader_left_def reader_at_head_def intro!: turn.overflowed split: if_splits)
qed

lemma accu_turn:
  assumes "turn inp i s" and "i \<le> 5" and "accu_step s = Some s'"
  shows "(\<exists>j \<le> 5. turn inp j s') \<and> accu_left (ac s') < accu_left (ac s)"
  using assms(1)
proof cases
  case free
  then have "\<not> i < 5" using accu_from_head [OF assms(3) free(4) assms(2)] by auto
  then have "turn inp i s' \<and> accu_left (ac s') < accu_left (ac s)"
    using free assms(2) accu_from_head [OF assms(3) free(4) assms(2)] reader_at_head_accu [OF assms(3) free(3)]
    by (auto simp: accu_left_def accu_at_head_def intro!: turn.free)
  then show ?thesis using assms(2) by blast
next
  case scanning
  then show ?thesis using accu_from_head [OF assms(3) scanning(5) assms(2)] by auto
next
  case scanned
  then show ?thesis using accu_from_head [OF assms(3) scanned(5) assms(2)] by auto
next
  case handed
  then have "accu_at_head i s" by (simp add: accu_at_head_def)
  then have "turn inp i s' \<and> accu_left (ac s') < accu_left (ac s)"
    using handed accu_from_head [OF assms(3) _ assms(2)] reader_at_head_accu [OF assms(3) handed(4)]
    by (auto simp: accu_left_def intro!: turn.adding)
  then show ?thesis using assms(2) by blast
next
  case adding
  then have "total_sum s + num s = sum_of inp (Suc i)" by (simp add: sum_of_Suc)
  then have "turn inp i s' \<and> accu_left (ac s') < accu_left (ac s)"
    using adding assms(3) reader_at_head_accu [OF assms(3) adding(4)]
    by (auto simp: accu_step_def accu_left_def intro: turn.added turn.overflowed split: if_splits)
  then show ?thesis using assms(2) by blast
next
  case added
  then have "turn inp (Suc i) s' \<and> accu_left (ac s') < accu_left (ac s)"
    using assms(3) reader_at_head_accu [OF assms(3) added(4)]
    by (auto simp: accu_step_def accu_left_def accu_at_head_def before_def intro!: turn.free)
  then show ?thesis using added(3) by (intro conjI exI [of _ "Suc i"]) simp_all
next
  case overflowed
  then show ?thesis using assms(3) by (simp add: accu_step_def)
qed

lemma turn_cong:
  assumes "turn inp i s" and "rd s' = rd s" "ac s' = ac s" "sem_one s' = sem_one s" "sem_two s' = sem_two s" "num s' = num s"
    "total_sum s' = total_sum s" "printed s' = printed s"
  shows "turn inp i s'"
  using assms by (cases rule: turn.cases) (auto simp: reader_at_head_def accu_at_head_def intro: turn.intros)

lemma main_step_other:
  assumes "main_step s = Some s'"
  shows "turn inp i s \<Longrightarrow> turn inp i s'" and "rd s' = rd s" and "ac s' = ac s" and "main_left (mn s') < main_left (mn s)"
    and "main_ok s \<Longrightarrow> main_ok s'"
  using assms
  by (auto simp: main_step_def main_left_def main_ok_def elim!: turn_cong split: main_at.splits if_splits)

lemma turn_progress:
  assumes "turn inp i s" and "i \<le> 5" and "mn s \<noteq> M_done" and "ac s \<noteq> A_overflow"
  shows "reader_step inp s \<noteq> None \<or> accu_step s \<noteq> None \<or> main_step s \<noteq> None"
proof (cases "rd s = R_done \<and> ac s = A_done")
  case True
  then show ?thesis using assms(3) by (cases "mn s") (auto simp: main_step_def)
next
  case False
  from assms(1) show ?thesis
    using False assms(2,4) by cases (auto simp: reader_at_head_def accu_at_head_def reader_step_def accu_step_def split: if_splits)
qed

text \<open>The invariant is kept and every step takes the threads nearer to their end.\<close>

lemma sem_inv_step:
  assumes "sem_inv inp s" and "sem_step inp s s'"
  shows "sem_inv inp s' \<and> steps_left s' < steps_left s"
proof -
  from assms(1) obtain i where i: "i \<le> 5" "turn inp i s" "main_ok s" by (auto simp: sem_inv_def)
  from assms(2) show ?thesis
  proof cases
    case by_reader
    then show ?thesis using i reader_turn [OF i(2,1) by_reader] reader_step_other [OF by_reader]
      by (auto simp: sem_inv_def main_ok_def steps_left_def)
  next
    case by_accu
    then show ?thesis using i accu_turn [OF i(2,1) by_accu] accu_step_other [OF by_accu]
      by (auto simp: sem_inv_def main_ok_def steps_left_def)
  next
    case by_main
    then show ?thesis using i main_step_other [OF by_main] by (auto simp: sem_inv_def steps_left_def)
  qed
qed

lemma sem_inv_init: "sem_inv inp sem_init"
proof -
  have "turn inp 0 sem_init" by (rule turn.free) (simp_all add: sem_init_def reader_at_head_def accu_at_head_def before_def sum_of_def)
  then show ?thesis by (auto simp: sem_inv_def main_ok_def sem_init_def)
qed

lemma sem_progress: "sem_inv inp s \<Longrightarrow> \<not> (mn s = M_done \<or> ac s = A_overflow) \<Longrightarrow> \<exists>s'. sem_step inp s s'"
  using turn_progress [of inp _ s] by_reader by_accu by_main by (fastforce simp: sem_inv_def)

interpretation semaphores: ending_machine "sem_step inp" "sem_inv inp" sem_init "\<lambda>s. mn s = M_done \<or> ac s = A_overflow" steps_left
  for inp
  by unfold_locales (use sem_inv_init sem_inv_step sem_progress in blast)+

section \<open>Properties\<close>

text \<open>
  C18. The shared number is never lost, added twice or added half-read: however the threads are scheduled, the
  two threads are never at their accesses to \<^verbatim>\<open>num\<close> at the same time, and when the sum is printed it is the sum
  of the five numbers read.
\<close>

theorem semaphores_add_all:
  assumes "rtranclp (sem_step inp) sem_init s"
  shows "\<not> ((\<exists>i. rd s = R_scan i) \<and> (\<exists>j. ac s = A_add j))
     \<and> (ac s = A_done \<longrightarrow> printed s = Some (\<Sum>i < 5. value_of inp i))"
proof -
  from semaphores.reachable_inv [OF assms] obtain i where i: "i \<le> 5" "turn inp i s" by (auto simp: sem_inv_def)
  from i(2) show ?thesis using i(1) by cases (auto simp: reader_at_head_def accu_at_head_def sum_of_def)
qed

text \<open>The numbers 1 to 5.\<close>

definition five_numbers :: "int \<Rightarrow> int option" where
  "five_numbers i = Some (i + 1)"

theorem semaphores_add_all_witness:
  "\<exists>s. rtranclp (sem_step five_numbers) sem_init s \<and> rd s = R_scan 0
     \<and> \<not> ((\<exists>i. rd s = R_scan i) \<and> (\<exists>j. ac s = A_add j))"
proof -
  let ?s = "sem_init\<lparr>rd := R_scan 0, sem_two := 0\<rparr>"
  have "sem_step five_numbers sem_init ?s" by (rule by_reader) (simp add: reader_step_def sem_init_def)
  then have "rtranclp (sem_step five_numbers) sem_init ?s" by blast
  with semaphores_add_all [OF this] show ?thesis by (intro exI [of _ ?s]) simp
qed

text \<open>
  C19. The two threads cannot block each other for ever: no run has more than 34 steps, and from every state of
  a run, whatever was scheduled so far, the program reaches its end, where \<^verbatim>\<open>main\<close> has joined both threads and
  destroyed the semaphores, unless the sum overflows; if no partial sum overflows it reaches its end.
\<close>

theorem semaphores_no_deadlock:
  assumes "(sem_step inp ^^ n) sem_init s"
  shows "n \<le> 34 \<and> (\<exists>t. rtranclp (sem_step inp) s t \<and> (mn t = M_done \<or> ac t = A_overflow) \<and> (no_overflow inp \<longrightarrow> mn t = M_done))"
proof -
  have 34: "steps_left sem_init = 34" by (simp add: steps_left_def sem_init_def reader_left_def accu_left_def main_left_def)
  from semaphores.every_run_ends [OF assms] obtain t where
    t: "n \<le> 34" "rtranclp (sem_step inp) s t" "mn t = M_done \<or> ac t = A_overflow" unfolding 34 by blast
  have "rtranclp (sem_step inp) sem_init t" using t(2) assms by (meson relpowp_imp_rtranclp rtranclp_trans)
  then obtain i where i: "i \<le> 5" "turn inp i t" using semaphores.reachable_inv by (fastforce simp: sem_inv_def)
  have "ac t \<noteq> A_overflow" if "no_overflow inp"
    using i(2) by cases (use that in \<open>auto simp: accu_at_head_def no_overflow_def\<close>)
  with t show ?thesis by blast
qed

theorem semaphores_no_deadlock_witness:
  "\<exists>t. rtranclp (sem_step five_numbers) sem_init t \<and> mn t = M_done"
proof -
  have "{..< k} = set [0 ..< k]" for k :: nat by auto
  then have "sum_of five_numbers k = int (sum_list [1 ..< Suc k])" for k
    by (induction k) (simp_all add: sum_of_def five_numbers_def value_of_before)
  moreover have "(k :: nat) \<in> {0, 1, 2, 3, 4, 5}" if "k \<le> 5" for k using that by auto
  ultimately have "no_overflow five_numbers" by (fastforce simp: no_overflow_def int_ok_def upt_rec)
  moreover have "(sem_step five_numbers ^^ 0) sem_init sem_init" by simp
  ultimately show ?thesis using semaphores_no_deadlock by blast
qed

end
