(* ===== verification/Signals.thy ===== *)
theory Signals
  imports Runs Stdio "HOL-Library.Multiset"
begin

text \<open>
  Processes and signals: remove_zombie.c (a \<^verbatim>\<open>SIGCHLD\<close> handler that collects children), signal.c and sigaction.c
  (handlers that end a \<^verbatim>\<open>sleep\<close>), and pipe.c (two processes that talk over one pipe). A program whose parts run in
  any order is a step relation; only the two alarm programs, which have one thread and a clock, are functions.
\<close>

section \<open>remove_zombie.c\<close>

text \<open>
  A child ends with status 12 or 24, or is killed by a signal (\<open>None\<close>), and stays a zombie until \<^verbatim>\<open>waitpid\<close> collects
  it; it may also be stopped and continued from outside. \<^verbatim>\<open>sa_flags\<close> is 0, so \<^verbatim>\<open>SIGCHLD\<close> comes for all of these. A
  pending signal is one bit: a change while \<^verbatim>\<open>SIGCHLD\<close> is pending leaves no further mark. The signal is blocked
  while its handler runs. \<open>M_wait n\<close>: the parent has \<open>n\<close> calls of \<^verbatim>\<open>sleep\<close> left to come back from; \<open>stops\<close> counts
  how often a child was stopped or continued; \<open>faulted\<close> says that the handler has used a status that was not written.
\<close>

datatype child = Not_forked | Running | Stopped | Zombie "int option" | Reaped "int option"

datatype parent_pc = M_fork1 | M_fork2 | M_wait nat

record zombie_state =
  m_pc :: parent_pc
  child1 :: child
  child2 :: child
  pending :: bool
  handling :: bool
  removed :: "int list"
  stops :: nat
  faulted :: bool

definition zombie_init :: zombie_state where
  "zombie_init = \<lparr>m_pc = M_fork1, child1 = Not_forked, child2 = Not_forked, pending = False, handling = False, removed = [],
     stops = 0, faulted = False\<rparr>"

fun is_zombie :: "child \<Rightarrow> bool" where
  "is_zombie (Zombie st) = True"
| "is_zombie _ = False"

text \<open>What the handler prints for a status: only that of a child that has exited.\<close>

definition exit_status :: "int option \<Rightarrow> int list" where
  "exit_status st = (case st of Some n \<Rightarrow> [n] | None \<Rightarrow> [])"

text \<open>
  \<^verbatim>\<open>read_childproc\<close>: one call of \<^verbatim>\<open>waitpid(-1, &status, WNOHANG)\<close>, which collects any one zombie. Without a zombie
  the status is not written, and testing it is undefined.
\<close>

inductive read_childproc :: "zombie_state \<Rightarrow> zombie_state \<Rightarrow> bool" where
  first: "handling s \<Longrightarrow> child1 s = Zombie st \<Longrightarrow>
    read_childproc s (s\<lparr>handling := False, child1 := Reaped st, removed := removed s @ exit_status st\<rparr>)"
| second: "handling s \<Longrightarrow> child2 s = Zombie st \<Longrightarrow>
    read_childproc s (s\<lparr>handling := False, child2 := Reaped st, removed := removed s @ exit_status st\<rparr>)"
| unset: "handling s \<Longrightarrow> \<not> is_zombie (child1 s) \<Longrightarrow> \<not> is_zombie (child2 s) \<Longrightarrow> read_childproc s (s\<lparr>faulted := True\<rparr>)"

text \<open>The parent; a \<^verbatim>\<open>fork\<close> that fails is taken for one that has returned to the parent.\<close>

inductive parent_step :: "zombie_state \<Rightarrow> zombie_state \<Rightarrow> bool" where
  fork1: "\<not> handling s \<Longrightarrow> m_pc s = M_fork1 \<Longrightarrow> parent_step s (s\<lparr>m_pc := M_fork2, child1 := Running\<rparr>)"
| fork1_fails: "\<not> handling s \<Longrightarrow> m_pc s = M_fork1 \<Longrightarrow> parent_step s (s\<lparr>m_pc := M_fork2\<rparr>)"
| fork2: "\<not> handling s \<Longrightarrow> m_pc s = M_fork2 \<Longrightarrow> parent_step s (s\<lparr>m_pc := M_wait 2, child2 := Running\<rparr>)"
| fork2_fails: "\<not> handling s \<Longrightarrow> m_pc s = M_fork2 \<Longrightarrow> parent_step s (s\<lparr>m_pc := M_wait 2\<rparr>)"
| sleep_over: "\<not> handling s \<Longrightarrow> m_pc s = M_wait (Suc n) \<Longrightarrow> parent_step s (s\<lparr>m_pc := M_wait n\<rparr>)"

text \<open>What a child does, or is done to it, with the status it would exit with; the flag says that it was stopped or continued.\<close>

inductive child_change :: "int \<Rightarrow> child \<Rightarrow> child \<Rightarrow> bool \<Rightarrow> bool" where
  exits: "child_change n Running (Zombie (Some n)) False"
| killed: "c = Running \<or> c = Stopped \<Longrightarrow> child_change n c (Zombie None) False"
| stopped: "child_change n Running Stopped True"
| continued: "child_change n Stopped Running True"

inductive zombie_step :: "zombie_state \<Rightarrow> zombie_state \<Rightarrow> bool" where
  parent: "\<not> faulted s \<Longrightarrow> parent_step s t \<Longrightarrow> zombie_step s t"
| change1: "\<not> faulted s \<Longrightarrow> child_change 12 (child1 s) c b \<Longrightarrow> zombie_step s (s\<lparr>child1 := c, pending := True, stops := stops s + of_bool b\<rparr>)"
| change2: "\<not> faulted s \<Longrightarrow> child_change 24 (child2 s) c b \<Longrightarrow> zombie_step s (s\<lparr>child2 := c, pending := True, stops := stops s + of_bool b\<rparr>)"
| deliver: "\<not> faulted s \<Longrightarrow> pending s \<Longrightarrow> \<not> handling s \<Longrightarrow> zombie_step s (s\<lparr>pending := False, handling := True\<rparr>)"
| handler: "\<not> faulted s \<Longrightarrow> read_childproc s t \<Longrightarrow> zombie_step s t"

inductive_cases parent_stepE: "parent_step s t"
inductive_cases child_changeE: "child_change n c d b"
inductive_cases read_childprocE: "read_childproc s t"
inductive_cases zombie_stepE: "zombie_step s t"

definition zombies :: "zombie_state \<Rightarrow> nat" where
  "zombies s = of_bool (is_zombie (child1 s)) + of_bool (is_zombie (child2 s))"

text \<open>The statuses of the children that were collected after they had exited.\<close>

fun collected :: "child \<Rightarrow> int list" where
  "collected (Reaped st) = exit_status st"
| "collected _ = []"

text \<open>
  As long as no child was stopped or continued, a pending signal and a running handler each stand for a zombie of their
  own; with two zombies there is a signal to come.
\<close>

definition zombie_inv :: "zombie_state \<Rightarrow> bool" where
  "zombie_inv s \<longleftrightarrow> (stops s = 0 \<longrightarrow> of_bool (pending s) + of_bool (handling s) \<le> zombies s \<and> \<not> faulted s)
     \<and> mset (removed s) = mset (collected (child1 s) @ collected (child2 s))
     \<and> (zombies s = 2 \<longrightarrow> pending s \<or> handling s)
     \<and> (faulted s \<longrightarrow> handling s)
     \<and> (m_pc s = M_fork1 \<longrightarrow> child1 s = Not_forked) \<and> (m_pc s \<in> {M_fork1, M_fork2} \<longrightarrow> child2 s = Not_forked)"

lemma of_bool_positive [simp]: "Suc 0 \<le> of_bool b \<longleftrightarrow> b"
  by (cases b) auto

lemma parent_step_inv: "zombie_inv s \<Longrightarrow> parent_step s t \<Longrightarrow> zombie_inv t"
  by (erule parent_stepE) (auto simp: zombie_inv_def zombies_def)

lemma child_change_facts:
  "child_change n c d b \<Longrightarrow> \<not> is_zombie c \<and> collected c = [] \<and> collected d = [] \<and> c \<noteq> Not_forked \<and> is_zombie d = (\<not> b)"
  by (erule child_changeE) auto

lemma child_change_inv:
  assumes "zombie_inv s" and "\<not> faulted s"
  shows "child_change 12 (child1 s) c b \<Longrightarrow> zombie_inv (s\<lparr>child1 := c, pending := True, stops := stops s + of_bool b\<rparr>)"
    and "child_change 24 (child2 s) c b \<Longrightarrow> zombie_inv (s\<lparr>child2 := c, pending := True, stops := stops s + of_bool b\<rparr>)"
  using assms by (cases b; auto dest!: child_change_facts simp: zombie_inv_def zombies_def)+

lemma read_childproc_inv: "zombie_inv s \<Longrightarrow> \<not> faulted s \<Longrightarrow> read_childproc s t \<Longrightarrow> zombie_inv t"
  by (erule read_childprocE) (auto simp: zombie_inv_def zombies_def)

lemma zombie_inv_step:
  assumes "zombie_inv s" and "zombie_step s t"
  shows "zombie_inv t"
  using assms(2)
proof cases
  case deliver
  then show ?thesis using assms(1) by (auto simp: zombie_inv_def zombies_def)
qed (use assms(1) parent_step_inv child_change_inv read_childproc_inv in blast)+

interpretation zombies: invariant_machine zombie_step zombie_inv zombie_init
  by unfold_locales (auto simp: zombie_inv_step, simp add: zombie_inv_def zombie_init_def zombies_def)

text \<open>Nothing is left that could bring a signal.\<close>

definition quiet :: "zombie_state \<Rightarrow> bool" where
  "quiet s \<longleftrightarrow> \<not> pending s \<and> \<not> handling s \<and> child1 s \<notin> {Running, Stopped} \<and> child2 s \<notin> {Running, Stopped} \<and> m_pc s \<notin> {M_fork1, M_fork2}"

interpretation quiet_zombies: stable_steps zombie_step "\<lambda>s. quiet s \<and> child1 s = c1 \<and> child2 s = c2 \<and> removed s = ids" for c1 c2 ids
  by unfold_locales (elim zombie_stepE parent_stepE read_childprocE child_changeE; auto simp: quiet_def)

text \<open>Two children have ended and one signal is left for both.\<close>

definition coalesced :: "zombie_state \<Rightarrow> bool" where
  "coalesced s \<longleftrightarrow> \<not> faulted s \<and> m_pc s \<notin> {M_fork1, M_fork2}
     \<and> (is_zombie (child1 s) \<and> is_zombie (child2 s) \<and> pending s \<noteq> handling s
       \<or> \<not> pending s \<and> \<not> handling s \<and> zombies s = 1 \<and> child1 s \<notin> {Running, Stopped} \<and> child2 s \<notin> {Running, Stopped})"

lemma coalesced_step: "coalesced s \<Longrightarrow> zombie_step s t \<Longrightarrow> coalesced t"
  by (elim zombie_stepE parent_stepE read_childprocE child_changeE) (auto simp: coalesced_def zombies_def of_bool_def split: if_splits)

interpretation coalesced_zombies: stable_steps zombie_step coalesced
  by unfold_locales (rule coalesced_step)

text \<open>
  C26. What \<^verbatim>\<open>SIGCHLD\<close> handlers collect when signals coalesce, whenever the children end, are killed, stopped or continued.
  The statuses that were printed are those of the collected children that had exited. When no signal is pending and no
  child is left to change, at most one zombie is left, and it stays a zombie as long as the parent runs; when both children have ended
  before the handler runs, exactly one is left. Until a child is stopped or continued, the status that the handler tests has
  been written; but a child that is stopped brings the same signal, and then the handler tests a status that was not.
\<close>

theorem at_most_one_zombie_left:
  assumes "rtranclp zombie_step zombie_init s"
  shows "mset (removed s) = mset (collected (child1 s) @ collected (child2 s))
     \<and> (quiet s \<longrightarrow> zombies s \<le> 1 \<and> (\<forall>t. rtranclp zombie_step s t \<longrightarrow> zombies t = zombies s \<and> removed t = removed s))
     \<and> (zombies s = 2 \<and> \<not> handling s \<longrightarrow> (\<forall>t. rtranclp zombie_step s t \<and> quiet t \<longrightarrow> zombies t = 1))
     \<and> (stops s = 0 \<longrightarrow> \<not> faulted s) \<and> (\<exists>t. rtranclp zombie_step zombie_init t \<and> stops t = 1 \<and> faulted t)"
proof -
  have inv: "zombie_inv s" using zombies.reachable_inv [OF assms] .
  have kept: "zombies t = zombies s \<and> removed t = removed s" if "quiet s" "rtranclp zombie_step s t" for t
  proof -
    have "child1 t = child1 s \<and> child2 t = child2 s \<and> removed t = removed s"
      using quiet_zombies.kept [OF that(2)] that(1) by blast
    then show ?thesis by (simp add: zombies_def)
  qed
  have "zombies s \<le> 2" by (simp add: zombies_def)
  then have "quiet s \<longrightarrow> zombies s \<le> 1" using inv by (auto simp: zombie_inv_def quiet_def)
  moreover have "zombies t = 1" if "zombies s = 2" "\<not> handling s" "rtranclp zombie_step s t" "quiet t" for t
  proof -
    have z: "is_zombie (child1 s)" "is_zombie (child2 s)"
      using that(1) unfolding zombies_def by (cases "is_zombie (child1 s)"; cases "is_zombie (child2 s)"; simp)+
    then have "m_pc s \<notin> {M_fork1, M_fork2}" using inv by (auto simp: zombie_inv_def)
    then have "coalesced s" using z that(1,2) inv by (auto simp: coalesced_def zombie_inv_def)
    then have "coalesced t" using coalesced_zombies.kept that(3) by blast
    then show ?thesis using that(4) by (auto simp: coalesced_def quiet_def)
  qed
  moreover have "\<exists>t. rtranclp zombie_step zombie_init t \<and> stops t = 1 \<and> faulted t"
  proof -
    let ?s1 = "zombie_init\<lparr>m_pc := M_fork2, child1 := Running\<rparr>"
    let ?s2 = "?s1\<lparr>child1 := Stopped, pending := True, stops := stops ?s1 + of_bool True\<rparr>"
    let ?s3 = "?s2\<lparr>pending := False, handling := True\<rparr>"
    have "zombie_step zombie_init ?s1" by (intro zombie_step.parent parent_step.fork1) (simp_all add: zombie_init_def)
    moreover have "zombie_step ?s1 ?s2" by (rule zombie_step.change1) (simp_all add: zombie_init_def child_change.stopped)
    moreover have "zombie_step ?s2 ?s3" by (rule zombie_step.deliver) (simp_all add: zombie_init_def)
    moreover have "zombie_step ?s3 (?s3\<lparr>faulted := True\<rparr>)" by (intro zombie_step.handler read_childproc.unset) (simp_all add: zombie_init_def)
    ultimately have "rtranclp zombie_step zombie_init (?s3\<lparr>faulted := True\<rparr>)" by (meson rtranclp.rtrancl_into_rtrancl rtranclp.rtrancl_refl)
    then show ?thesis by (intro exI [of _ "?s3\<lparr>faulted := True\<rparr>"]) (simp add: zombie_init_def)
  qed
  moreover have "mset (removed s) = mset (collected (child1 s) @ collected (child2 s))" "stops s = 0 \<longrightarrow> \<not> faulted s"
    using inv by (simp_all add: zombie_inv_def)
  ultimately show ?thesis using kept by blast
qed

theorem at_most_one_zombie_left_witness:
  "\<exists>s. rtranclp zombie_step zombie_init s \<and> zombies s = 2 \<and> \<not> handling s
     \<and> (\<exists>t. rtranclp zombie_step s t \<and> quiet t \<and> removed t = [12] \<and> (\<forall>u. rtranclp zombie_step t u \<longrightarrow> zombies u = 1))"
proof -
  let ?s1 = "zombie_init\<lparr>m_pc := M_fork2, child1 := Running\<rparr>"
  let ?s2 = "?s1\<lparr>m_pc := M_wait 2, child2 := Running\<rparr>"
  let ?s3 = "?s2\<lparr>child1 := Zombie (Some 12), pending := True, stops := stops ?s2 + of_bool False\<rparr>"
  let ?s4 = "?s3\<lparr>child2 := Zombie (Some 24), pending := True, stops := stops ?s3 + of_bool False\<rparr>"
  let ?s5 = "?s4\<lparr>pending := False, handling := True\<rparr>"
  let ?s6 = "?s5\<lparr>handling := False, child1 := Reaped (Some 12), removed := removed ?s5 @ exit_status (Some 12)\<rparr>"
  have "zombie_step zombie_init ?s1" by (intro zombie_step.parent parent_step.fork1) (simp_all add: zombie_init_def)
  moreover have "zombie_step ?s1 ?s2" by (intro zombie_step.parent parent_step.fork2) (simp_all add: zombie_init_def)
  moreover have "zombie_step ?s2 ?s3" by (rule zombie_step.change1) (simp_all add: zombie_init_def child_change.exits)
  moreover have "zombie_step ?s3 ?s4" by (rule zombie_step.change2) (simp_all add: zombie_init_def child_change.exits)
  ultimately have run: "rtranclp zombie_step zombie_init ?s4" by (meson rtranclp.rtrancl_into_rtrancl rtranclp.rtrancl_refl)
  have "zombie_step ?s4 ?s5" by (intro zombie_step.deliver) (simp_all add: zombie_init_def)
  moreover have "zombie_step ?s5 ?s6" by (intro zombie_step.handler read_childproc.first) (simp_all add: zombie_init_def)
  ultimately have run2: "rtranclp zombie_step ?s4 ?s6" by (meson rtranclp.rtrancl_into_rtrancl rtranclp.rtrancl_refl)
  have z: "zombies ?s4 = 2" "\<not> handling ?s4" "quiet ?s6" "removed ?s6 = [12]"
    by (simp_all add: quiet_def zombies_def zombie_init_def exit_status_def)
  then have one: "zombies ?s6 = 1" using at_most_one_zombie_left [OF run] run2 by blast
  have "zombies u = 1" if "rtranclp zombie_step ?s6 u" for u
    using at_most_one_zombie_left [OF rtranclp_trans [OF run run2]] z(3) one that by metis
  with run run2 z show ?thesis by blast
qed

section \<open>signal.c and sigaction.c\<close>

text \<open>
  The programs wait in \<^verbatim>\<open>sleep(100)\<close> three times; a handler that has run ends the call. The time is in seconds.
  \<open>alarm_at\<close> is when the alarm set last goes off, \<open>ints\<close> when the user will press CTRL+C; a key that was pressed
  before the call ends it at once.
\<close>

record clock_state =
  now :: nat
  alarm_at :: nat
  ints :: "nat list"
  shown :: "string list"

definition timeout :: "clock_state \<Rightarrow> clock_state" where
  "timeout s = s\<lparr>shown := shown s @ [''Time out!''], alarm_at := now s + 2\<rparr>"

definition keycontrol :: "clock_state \<Rightarrow> clock_state" where
  "keycontrol s = s\<lparr>shown := shown s @ [''CTRL+C pressed'']\<rparr>"

definition sleep_100 :: "clock_state \<Rightarrow> clock_state" where
  "sleep_100 s =
     (case ints s of
        i # rest \<Rightarrow>
          if max (now s) i < min (alarm_at s) (now s + 100) then keycontrol (s\<lparr>now := max (now s) i, ints := rest\<rparr>)
          else if alarm_at s \<le> now s + 100 then timeout (s\<lparr>now := max (now s) (alarm_at s)\<rparr>)
          else s\<lparr>now := now s + 100\<rparr>
      | [] \<Rightarrow>
          if alarm_at s \<le> now s + 100 then timeout (s\<lparr>now := max (now s) (alarm_at s)\<rparr>)
          else s\<lparr>now := now s + 100\<rparr>)"

fun sleep_loop :: "string \<Rightarrow> nat \<Rightarrow> clock_state \<Rightarrow> clock_state" where
  "sleep_loop w 0 s = s"
| "sleep_loop w (Suc i) s = sleep_loop w i (sleep_100 (s\<lparr>shown := shown s @ [w]\<rparr>))"

definition signal_main :: "nat list \<Rightarrow> clock_state" where
  "signal_main keys = sleep_loop ''wait..'' 3 \<lparr>now = 0, alarm_at = 2, ints = keys, shown = []\<rparr>"

text \<open>sigaction.c has no handler for the key, which would end it; it runs undisturbed.\<close>

definition sigaction_main :: clock_state where
  "sigaction_main = sleep_loop ''wait...'' 3 \<lparr>now = 0, alarm_at = 2, ints = [], shown = []\<rparr>"

lemma sleep_100_ends:
  assumes "alarm_at s \<le> now s + 2"
  shows "\<exists>h \<in> {''Time out!'', ''CTRL+C pressed''}. shown (sleep_100 s) = shown s @ [h] \<and> alarm_at (sleep_100 s) \<le> now (sleep_100 s) + 2
     \<and> now (sleep_100 s) \<le> now s + 2"
  using assms by (auto simp: sleep_100_def timeout_def keycontrol_def max_def split: list.splits if_splits)

lemma sleep_loop_ends:
  assumes "alarm_at s \<le> now s + 2"
  shows "now (sleep_loop w n s) \<le> now s + 2 * n
     \<and> (\<exists>hs. length hs = n \<and> set hs \<subseteq> {''Time out!'', ''CTRL+C pressed''} \<and> shown (sleep_loop w n s) = shown s @ concat (map (\<lambda>h. [w, h]) hs))"
  using assms
proof (induction n arbitrary: s)
  case (Suc n)
  let ?s = "sleep_100 (s\<lparr>shown := shown s @ [w]\<rparr>)"
  obtain h where h: "h \<in> {''Time out!'', ''CTRL+C pressed''}" "shown ?s = shown s @ [w] @ [h]" "alarm_at ?s \<le> now ?s + 2" "now ?s \<le> now s + 2"
    using sleep_100_ends [of "s\<lparr>shown := shown s @ [w]\<rparr>"] Suc.prems by auto
  obtain hs where hs: "length hs = n" "set hs \<subseteq> {''Time out!'', ''CTRL+C pressed''}"
    "shown (sleep_loop w n ?s) = shown ?s @ concat (map (\<lambda>h. [w, h]) hs)"
    using Suc.IH [OF h(3)] by blast
  have "now (sleep_loop w n ?s) \<le> now ?s + 2 * n" using Suc.IH [OF h(3)] by blast
  with h hs show ?case by (intro conjI exI [of _ "h # hs"]) auto
qed simp

text \<open>
  Handlers cut the sleeps short. Whenever the user presses the key, the three sleeps of 100 seconds are over
  within 6 seconds: each shows its line and then the line of exactly one handler. Without a key the program takes
  6 seconds and shows three time-outs, and so does sigaction.c with its own text.
\<close>

theorem sleeps_end_within_six_seconds:
  "now (signal_main keys) \<le> 6
     \<and> (\<exists>h1 h2 h3. {h1, h2, h3} \<subseteq> {''Time out!'', ''CTRL+C pressed''}
          \<and> shown (signal_main keys) = [''wait..'', h1, ''wait..'', h2, ''wait..'', h3])
     \<and> now (signal_main []) = 6 \<and> now sigaction_main = 6
     \<and> shown sigaction_main = concat (replicate 3 [''wait...'', ''Time out!''])"
proof -
  let ?s = "\<lparr>now = 0, alarm_at = 2, ints = keys, shown = []\<rparr>"
  obtain hs where hs: "length hs = 3" "set hs \<subseteq> {''Time out!'', ''CTRL+C pressed''}"
    "shown (signal_main keys) = concat (map (\<lambda>h. [''wait..'', h]) hs)" "now (signal_main keys) \<le> 6"
    using sleep_loop_ends [of ?s "''wait..''" 3] by (auto simp: signal_main_def)
  then obtain h1 h2 h3 where "hs = [h1, h2, h3]" by (auto simp: length_Suc_conv numeral_3_eq_3)
  moreover have "now (signal_main []) = 6" "now sigaction_main = 6" "shown sigaction_main = concat (replicate 3 [''wait...'', ''Time out!''])"
    by (simp_all add: signal_main_def sigaction_main_def sleep_100_def timeout_def numeral_3_eq_3)
  ultimately show ?thesis using hs by auto
qed

section \<open>pipe.c\<close>

text \<open>
  Both processes hold both ends of the one pipe, so a \<^verbatim>\<open>read\<close> of the empty pipe waits. The order that the calls of
  \<^verbatim>\<open>sleep(2)\<close> are meant to give is not assumed; the model begins when \<^verbatim>\<open>pipe\<close> and \<^verbatim>\<open>fork\<close> have succeeded. What is printed is the text up to the first NUL.
\<close>

datatype child_pc = C_write | C_read | C_done
datatype reader_pc = P_read | P_write | P_done

record pipe_state =
  fifo :: string
  c_pc :: child_pc
  p_pc :: reader_pc
  child_out :: "string option"
  parent_out :: "string option"

definition str1 :: string where
  "str1 = ''Who are you?'' @ [NUL]"

definition str2 :: string where
  "str2 = ''Thank you for your message'' @ [NUL]"

definition PIPE_BUF_SIZE :: nat where
  "PIPE_BUF_SIZE = 30"

definition pipe_init :: pipe_state where
  "pipe_init = \<lparr>fifo = [], c_pc = C_write, p_pc = P_read, child_out = None, parent_out = None\<rparr>"

fun child_step :: "pipe_state \<Rightarrow> pipe_state option" where
  "child_step s = (case c_pc s of
      C_write \<Rightarrow> Some (s\<lparr>fifo := fifo s @ str1, c_pc := C_read\<rparr>)
    | C_read \<Rightarrow> if fifo s = [] then None
        else Some (s\<lparr>fifo := drop PIPE_BUF_SIZE (fifo s), c_pc := C_done, child_out := Some (c_str (take PIPE_BUF_SIZE (fifo s)))\<rparr>)
    | C_done \<Rightarrow> None)"

fun pipe_parent_step :: "pipe_state \<Rightarrow> pipe_state option" where
  "pipe_parent_step s = (case p_pc s of
      P_read \<Rightarrow> if fifo s = [] then None
        else Some (s\<lparr>fifo := drop PIPE_BUF_SIZE (fifo s), p_pc := P_write, parent_out := Some (c_str (take PIPE_BUF_SIZE (fifo s)))\<rparr>)
    | P_write \<Rightarrow> Some (s\<lparr>fifo := fifo s @ str2, p_pc := P_done\<rparr>)
    | P_done \<Rightarrow> None)"

definition pipe_step :: "pipe_state \<Rightarrow> pipe_state \<Rightarrow> bool" where
  "pipe_step s t \<longleftrightarrow> child_step s = Some t \<or> pipe_parent_step s = Some t"

text \<open>The two ways a run can end.\<close>

definition exchanged :: "pipe_state \<Rightarrow> bool" where
  "exchanged s \<longleftrightarrow> c_pc s = C_done \<and> p_pc s = P_done \<and> parent_out s = Some ''Who are you?''
     \<and> child_out s = Some ''Thank you for your message''"

definition talked_to_itself :: "pipe_state \<Rightarrow> bool" where
  "talked_to_itself s \<longleftrightarrow> c_pc s = C_done \<and> p_pc s = P_read \<and> fifo s = [] \<and> child_out s = Some ''Who are you?'' \<and> parent_out s = None"

definition pipe_inv :: "pipe_state \<Rightarrow> bool" where
  "pipe_inv s \<longleftrightarrow> exchanged s \<or> talked_to_itself s \<or> s = pipe_init
     \<or> (child_out s = None \<and> c_pc s = C_read
        \<and> (p_pc s = P_read \<and> fifo s = str1 \<and> parent_out s = None
           \<or> parent_out s = Some ''Who are you?'' \<and> (p_pc s = P_write \<and> fifo s = [] \<or> p_pc s = P_done \<and> fifo s = str2)))"

definition pipe_left :: "pipe_state \<Rightarrow> nat" where
  "pipe_left s = (case c_pc s of C_write \<Rightarrow> 2 | C_read \<Rightarrow> 1 | C_done \<Rightarrow> 0) + (case p_pc s of P_read \<Rightarrow> 2 | P_write \<Rightarrow> 1 | P_done \<Rightarrow> 0)"

lemma str_simps:
  "c_str (take PIPE_BUF_SIZE str1) = ''Who are you?''" "c_str (take PIPE_BUF_SIZE str2) = ''Thank you for your message''"
  "drop PIPE_BUF_SIZE str1 = []" "drop PIPE_BUF_SIZE str2 = []" "str1 \<noteq> []" "str2 \<noteq> []"
  by (simp_all add: str1_def str2_def PIPE_BUF_SIZE_def c_str_def)

lemma pipe_final: "exchanged s \<or> talked_to_itself s \<Longrightarrow> \<not> pipe_step s t"
  by (auto simp: pipe_step_def exchanged_def talked_to_itself_def)

lemma pipe_inv_step:
  assumes "pipe_inv s" and "pipe_step s t"
  shows "pipe_inv t \<and> pipe_left t < pipe_left s"
proof -
  consider "exchanged s \<or> talked_to_itself s" | "s = pipe_init"
    | "child_out s = None" "c_pc s = C_read" "p_pc s = P_read" "fifo s = str1" "parent_out s = None"
    | "child_out s = None" "c_pc s = C_read" "p_pc s = P_write" "fifo s = []" "parent_out s = Some ''Who are you?''"
    | "child_out s = None" "c_pc s = C_read" "p_pc s = P_done" "fifo s = str2" "parent_out s = Some ''Who are you?''"
    using assms(1) unfolding pipe_inv_def by (elim disjE conjE) simp_all
  then show ?thesis
  proof cases
    case 1
    then show ?thesis using pipe_final assms(2) by blast
  next
    case 2
    then have "t = pipe_init\<lparr>fifo := str1, c_pc := C_read\<rparr>" using assms(2) by (simp add: pipe_step_def pipe_init_def)
    then show ?thesis using 2 by (simp add: pipe_init_def pipe_inv_def pipe_left_def)
  next
    case 3
    then have "t = s\<lparr>fifo := [], c_pc := C_done, child_out := Some ''Who are you?''\<rparr> \<or> t = s\<lparr>fifo := [], p_pc := P_write, parent_out := Some ''Who are you?''\<rparr>"
      using assms(2) by (auto simp: pipe_step_def str_simps)
    then show ?thesis using 3 by (elim disjE) (simp_all add: pipe_inv_def talked_to_itself_def pipe_left_def)
  next
    case 4
    then have "t = s\<lparr>fifo := str2, p_pc := P_done\<rparr>" using assms(2) by (simp add: pipe_step_def)
    then show ?thesis using 4 by (simp add: pipe_inv_def pipe_left_def)
  next
    case 5
    then have "t = s\<lparr>fifo := [], c_pc := C_done, child_out := Some ''Thank you for your message''\<rparr>"
      using assms(2) by (simp add: pipe_step_def str_simps)
    then show ?thesis using 5 by (simp add: pipe_inv_def exchanged_def pipe_left_def)
  qed
qed

lemma pipe_progress: "pipe_inv s \<Longrightarrow> \<not> (exchanged s \<or> talked_to_itself s) \<Longrightarrow> \<exists>t. pipe_step s t"
  unfolding pipe_inv_def by (elim disjE conjE) (auto simp: pipe_step_def pipe_init_def str_simps)

interpretation pipe: ending_machine pipe_step pipe_inv pipe_init "\<lambda>s. exchanged s \<or> talked_to_itself s" pipe_left
proof unfold_locales
  show "pipe_inv pipe_init" by (simp add: pipe_inv_def)
qed (use pipe_inv_step pipe_progress in auto)

text \<open>
  C27. One pipe for both directions. Once the pipe and the child are there, every run ends after at most four steps, in one of two ways: the processes have
  exchanged their messages, or the child has read its own message and the parent waits in \<^verbatim>\<open>read\<close> for ever. Both
  ways are open from the start; the child's message is never mixed with the answer.
\<close>

theorem pipe_ends_in_two_ways:
  "(\<forall>n s. (pipe_step ^^ n) pipe_init s \<longrightarrow> n \<le> 4 \<and> ((\<nexists>t. pipe_step s t) \<longleftrightarrow> exchanged s \<or> talked_to_itself s))
     \<and> (\<exists>s. rtranclp pipe_step pipe_init s \<and> exchanged s) \<and> (\<exists>s. rtranclp pipe_step pipe_init s \<and> talked_to_itself s)"
proof (intro conjI allI impI)
  fix n s
  assume run: "(pipe_step ^^ n) pipe_init s"
  then show "n \<le> 4" using pipe.every_run_ends [of n s] by (simp add: pipe_left_def pipe_init_def)
  have "pipe_inv s" using pipe.reachable_inv rtranclp_power run by metis
  then show "(\<nexists>t. pipe_step s t) \<longleftrightarrow> exchanged s \<or> talked_to_itself s"
    using pipe_progress pipe_final by blast
next
  let ?s1 = "pipe_init\<lparr>fifo := str1, c_pc := C_read\<rparr>"
  have 1: "pipe_step pipe_init ?s1" by (simp add: pipe_step_def pipe_init_def)
  let ?s2 = "?s1\<lparr>fifo := [], p_pc := P_write, parent_out := Some ''Who are you?''\<rparr>"
  let ?s3 = "?s2\<lparr>fifo := str2, p_pc := P_done\<rparr>"
  let ?s4 = "?s3\<lparr>fifo := [], c_pc := C_done, child_out := Some ''Thank you for your message''\<rparr>"
  have "pipe_step ?s1 ?s2" "pipe_step ?s2 ?s3" "pipe_step ?s3 ?s4"
    by (simp_all add: pipe_step_def pipe_init_def str_simps)
  with 1 have "rtranclp pipe_step pipe_init ?s4" by (meson rtranclp.rtrancl_into_rtrancl rtranclp.rtrancl_refl)
  moreover have "exchanged ?s4" by (simp add: exchanged_def pipe_init_def)
  ultimately show "\<exists>s. rtranclp pipe_step pipe_init s \<and> exchanged s" by blast
  let ?u = "?s1\<lparr>fifo := [], c_pc := C_done, child_out := Some ''Who are you?''\<rparr>"
  have "pipe_step ?s1 ?u" by (simp add: pipe_step_def pipe_init_def str_simps)
  with 1 have "rtranclp pipe_step pipe_init ?u" by (meson rtranclp.rtrancl_into_rtrancl rtranclp.rtrancl_refl)
  moreover have "talked_to_itself ?u" by (simp add: talked_to_itself_def pipe_init_def)
  ultimately show "\<exists>s. rtranclp pipe_step pipe_init s \<and> talked_to_itself s" by blast
qed

theorem pipe_ends_in_two_ways_witness:
  "(pipe_step ^^ 1) pipe_init (pipe_init\<lparr>fifo := str1, c_pc := C_read\<rparr>) \<and> (\<exists>t. pipe_step (pipe_init\<lparr>fifo := str1, c_pc := C_read\<rparr>) t)"
proof -
  let ?s = "pipe_init\<lparr>fifo := str1, c_pc := C_read\<rparr>"
  have "(pipe_step ^^ 1) pipe_init ?s" by (simp add: pipe_step_def pipe_init_def eq_OO)
  moreover have "\<not> (exchanged ?s \<or> talked_to_itself ?s)" by (simp add: exchanged_def talked_to_itself_def)
  ultimately show ?thesis using pipe_ends_in_two_ways by blast
qed

end
