(* ===== verification/Datagrams.thy ===== *)
theory Datagrams
  imports Stdio Net
begin

unbundle bit_operations_syntax

text \<open>
  The datagram programs: broadcast_sender.c and multicast_sender.c, which send news.txt line by line,
  broadcast_receiver.c and multicast_receiver.c, which print what arrives, and the echo pair
  udp_echo_server.c and udp_echo_client.c. The datagrams that arrive are a list; when it is used up,
  \<^verbatim>\<open>recvfrom\<close> fails. A store behind an array is \<open>None\<close>.
\<close>

section \<open>The senders\<close>

definition DG_BUF_SIZE :: nat where
  "DG_BUF_SIZE = 30"





section \<open>The receivers\<close>

text \<open>\<^verbatim>\<open>make_nonblocking\<close> of broadcast_receiver.c: the flags it sets, and its result. It clears the flag.\<close>

definition make_nonblocking :: "int \<Rightarrow> bool \<Rightarrow> bool \<times> int option" where
  "make_nonblocking flags settable =
     (if flags = -1 then (False, None)
      else let flags = flags AND NOT 2048 in (settable, Some flags))"

text \<open>Storing the terminating NUL at the end of what was received.\<close>

definition terminate_at :: "nat \<Rightarrow> string \<Rightarrow> string option" where
  "terminate_at cap got = (if length got < cap then Some (c_str got) else None)"

fun broadcast_loop :: "string list \<Rightarrow> string option" where
  "broadcast_loop [] = Some []"
| "broadcast_loop (d # ds) = do {
     txt \<leftarrow> terminate_at DG_BUF_SIZE (take (DG_BUF_SIZE - 1) d);
     out \<leftarrow> broadcast_loop ds;
     Some (txt @ out) }"

text \<open>The exit code and what is printed.\<close>

definition broadcast_receiver :: "string list \<Rightarrow> int \<Rightarrow> bool \<Rightarrow> bool \<Rightarrow> string list \<Rightarrow> (int \<times> string) option" where
  "broadcast_receiver argv flags settable bound ds =
     (if length argv \<noteq> 2 then Some (1, [])
      else if \<not> fst (make_nonblocking flags settable) then Some (1, [])
      else if \<not> bound then Some (1, [])
      else do { out \<leftarrow> broadcast_loop ds; Some (0, out) })"

definition MR_MAX_SIZE :: nat where
  "MR_MAX_SIZE = 1024"

text \<open>The loop prints what is in the buffer and receives again.\<close>

fun multicast_loop :: "string \<Rightarrow> string list \<Rightarrow> string option" where
  "multicast_loop txt [] = Some txt"
| "multicast_loop txt (d # ds) = do {
     txt' \<leftarrow> terminate_at MR_MAX_SIZE (take MR_MAX_SIZE d);
     out \<leftarrow> multicast_loop txt' ds;
     Some (txt @ out) }"

definition multicast_receiver :: "string list \<Rightarrow> bool \<Rightarrow> bool \<Rightarrow> bool \<Rightarrow> string list \<Rightarrow> (int \<times> string) option" where
  "multicast_receiver argv sock bound joined ds =
     (if length argv \<noteq> 3 then Some (1, [])
      else if \<not> sock then Some (1, [])
      else if \<not> bound then Some (1, [])
      else if \<not> joined then Some (1, [])
      else case ds of
        [] \<Rightarrow> Some (1, [])
      | d # ds \<Rightarrow> do {
          txt \<leftarrow> terminate_at MR_MAX_SIZE (take MR_MAX_SIZE d);
          out \<leftarrow> multicast_loop txt ds;
          Some (0, out) })"

section \<open>The echo pair\<close>

definition UDP_MAX_BUF_SIZE :: nat where
  "UDP_MAX_BUF_SIZE = 1024"

text \<open>
  The loop of the server: what it sends to whom, until \<^verbatim>\<open>recvfrom\<close> or \<^verbatim>\<open>sendto\<close> fails; it then exits with 1.
\<close>

fun udp_server_loop :: "(nat \<Rightarrow> bool) \<Rightarrow> nat \<Rightarrow> (SOCKADDR_IN \<times> string) list \<Rightarrow> int \<times> (SOCKADDR_IN \<times> string) list" where
  "udp_server_loop sends k [] = (1, [])"
| "udp_server_loop sends k ((from, d) # ds) =
     (let msg = (from, take UDP_MAX_BUF_SIZE d) in
      if \<not> sends k then (1, [msg])
      else let (c, out) = udp_server_loop sends (k + 1) ds in (c, msg # out))"

definition udp_echo_server :: "string list \<Rightarrow> bool \<Rightarrow> bool \<Rightarrow> (nat \<Rightarrow> bool) \<Rightarrow> (SOCKADDR_IN \<times> string) list
    \<Rightarrow> (int \<times> (SOCKADDR_IN \<times> string) list) option" where
  "udp_echo_server argv sock bound sends ds =
     (if \<not> sock then Some (1, [])
      else if length argv < 2 then None
      else if \<not> bound then Some (1, [])
      else Some (udp_server_loop sends 0 ds))"

text \<open>
  A round of the client: \<open>ret\<close> is what \<^verbatim>\<open>sendto\<close> returns; the answer is cut to that length. The result is the
  exit code, or what is sent and printed.
\<close>

definition udp_client_round :: "int \<Rightarrow> string option \<Rightarrow> (int + string \<times> string) option" where
  "udp_client_round ret reply =
     (let buf = ''hello'' in
      if ret = -1 then Some (Inl 1)
      else case reply of
        None \<Rightarrow> Some (Inl 1)
      | Some d \<Rightarrow>
          let got = take (nat ret) d in
          if length got < UDP_MAX_BUF_SIZE then Some (Inr (buf, c_str got)) else None)"

text \<open>
  The client, with the results of its rounds: what it sends and prints before a call fails, with its exit code,
  or before the list ends, without one. Both arguments are used before they are looked at.
\<close>

fun udp_client_loop :: "(int \<times> string option) list \<Rightarrow> (int option \<times> (string \<times> string) list) option" where
  "udp_client_loop [] = Some (None, [])"
| "udp_client_loop ((ret, reply) # rs) = (case udp_client_round ret reply of
      None \<Rightarrow> None
    | Some (Inl c) \<Rightarrow> Some (Some c, [])
    | Some (Inr r) \<Rightarrow> map_option (\<lambda>(c, out). (c, r # out)) (udp_client_loop rs))"

definition udp_echo_client :: "string list \<Rightarrow> int \<Rightarrow> (int \<times> string option) list \<Rightarrow> (int option \<times> (string \<times> string) list) option" where
  "udp_echo_client argv sock rs =
     (if sock = -1 then Some (Some 1, [])
      else if length argv < 3 then None
      else udp_client_loop rs)"

section \<open>Properties\<close>







lemma broadcast_loop_prints: "broadcast_loop ds = Some (concat (map (\<lambda>d. c_str (take 29 d)) ds))"
  by (induction ds) (simp_all add: terminate_at_def DG_BUF_SIZE_def)

lemma multicast_loop_bounds:
  "multicast_loop msg ds = (if \<forall>d \<in> set ds. length d < 1024 then Some (msg @ concat (map c_str ds)) else None)"
  by (induction ds arbitrary: msg) (auto simp: terminate_at_def MR_MAX_SIZE_def)

text \<open>
  What the receivers do with the length of a datagram. broadcast_receiver.c prints the first 29 bytes of every
  datagram, up to a NUL, and never leaves its buffer, whatever arrives; multicast_receiver.c prints whole
  datagrams, and stores behind its buffer as soon as one of 1024 bytes or more arrives, and only then.
\<close>

theorem receivers_and_long_datagrams:
  assumes "length argv = 2" and "length argv' = 3" and "flags \<noteq> -1" and "ds \<noteq> []"
  shows "broadcast_receiver argv flags True True ds = Some (0, concat (map (\<lambda>d. c_str (take 29 d)) ds))
     \<and> multicast_receiver argv' True True True ds
         = (if \<forall>d \<in> set ds. length d < 1024 then Some (0, concat (map c_str ds)) else None)"
proof -
  obtain d ds' where "ds = d # ds'" using assms(4) by (cases ds) auto
  then show ?thesis
    using assms(1-3) broadcast_loop_prints [of ds]
    by (auto simp: broadcast_receiver_def multicast_receiver_def make_nonblocking_def multicast_loop_bounds terminate_at_def MR_MAX_SIZE_def)
qed

theorem receivers_and_long_datagrams_witness:
  "broadcast_receiver [''r'', ''5000''] 2 True True [replicate 1024 CHR ''x''] = Some (0, concat (map (\<lambda>d. c_str (take 29 d)) [replicate 1024 CHR ''x'']))
     \<and> multicast_receiver [''r'', ''ip'', ''5000''] True True True [replicate 1024 CHR ''x''] = None"
  using receivers_and_long_datagrams [of "[''r'', ''5000'']" "[''r'', ''ip'', ''5000'']" 2 "[replicate 1024 CHR ''x'']"] by simp

lemma udp_server_echoes: "(\<And>k. sends k) \<Longrightarrow> udp_server_loop sends k ds = (1, map (\<lambda>(a, d). (a, take UDP_MAX_BUF_SIZE d)) ds)"
  by (induction ds arbitrary: k) auto

text \<open>
  The echo pair together: the server sends every datagram, cut to 1024 bytes, back to where it came from, in
  order; so a client that gets the answers to its own datagrams, one per round, sends and prints \<^verbatim>\<open>hello\<close> in
  every round.
\<close>

theorem udp_round_trip:
  assumes "\<And>k. sends k" and "2 \<le> length sargv" and "3 \<le> length argv" and "sock \<noteq> -1"
  shows "udp_echo_server sargv True True sends ds = Some (1, map (\<lambda>(a, d). (a, take 1024 d)) ds)
     \<and> (\<exists>answers. udp_echo_server sargv True True sends (replicate n (me, ''hello'')) = Some (1, answers)
          \<and> udp_echo_client argv sock (map (\<lambda>(a, d). (5, Some d)) answers) = Some (None, replicate n (''hello'', ''hello'')))"
proof -
  have s: "udp_echo_server sargv True True sends ds = Some (1, map (\<lambda>(a, d). (a, take 1024 d)) ds)" for ds
    using udp_server_echoes [OF assms(1), where k = 0 and ds = ds] assms(2) by (simp add: udp_echo_server_def UDP_MAX_BUF_SIZE_def)
  have r: "udp_client_round 5 (Some ''hello'') = Some (Inr (''hello'', ''hello''))"
    by (simp add: udp_client_round_def UDP_MAX_BUF_SIZE_def c_str_def)
  have "udp_client_loop (replicate n (5, Some ''hello'')) = Some (None, replicate n (''hello'', ''hello''))"
    by (induction n) (simp_all add: r)
  then have "udp_echo_client argv sock (map (\<lambda>(a, d). (5, Some d)) (replicate n (me, ''hello''))) = Some (None, replicate n (''hello'', ''hello''))"
    using assms(3,4) by (simp add: udp_echo_client_def)
  moreover have "udp_echo_server sargv True True sends (replicate n (me, ''hello'')) = Some (1, replicate n (me, ''hello''))"
    by (simp add: s)
  ultimately show ?thesis using s by blast
qed

end
