(* ===== verification/FileCopy.thy ===== *)
theory FileCopy
  imports Stdio
begin

text \<open>
  stdcpy.c and syscpy.c: copying news.txt to cpy.txt, once through the line functions of the C library and once
  through \<^verbatim>\<open>read\<close> and \<^verbatim>\<open>write\<close>. What is returned is the contents of cpy.txt afterwards.
\<close>

section \<open>stdcpy.c\<close>

definition CPY_BUF_SIZE :: nat where
  "CPY_BUF_SIZE = 3"

text \<open>
  \<open>news\<close> is the contents of news.txt if it can be opened, \<open>writable\<close> whether cpy.txt can. The program does not
  test the results of \<^verbatim>\<open>fopen\<close>: without the first file it reads through a null pointer; without the second it
  writes through one if there is anything to write, and closes it in any case.
\<close>

definition stdcpy_main :: "string option \<Rightarrow> bool \<Rightarrow> string option" where
  "stdcpy_main news writable = (case news of
      None \<Rightarrow> None
    | Some data \<Rightarrow> if writable then copy_loop CPY_BUF_SIZE (fopen_read data) else None)"

section \<open>syscpy.c\<close>

text \<open>
  How much the \<open>k\<close>-th \<^verbatim>\<open>read\<close> and \<^verbatim>\<open>write\<close> are ready to take is left to the system: a negative number is an
  error. A \<^verbatim>\<open>read\<close> gives no more than the buffer holds and no more than there is.
\<close>

record copy_sys =
  rd_amount :: "nat \<Rightarrow> int"
  wr_amount :: "nat \<Rightarrow> int"

definition read_result :: "copy_sys \<Rightarrow> nat \<Rightarrow> string option \<Rightarrow> int" where
  "read_result y k data = (case data of
      None \<Rightarrow> -1
    | Some rest \<Rightarrow> if rd_amount y k < 0 then -1 else min (rd_amount y k) (int (min CPY_BUF_SIZE (length rest))))"

definition write_result :: "copy_sys \<Rightarrow> nat \<Rightarrow> string \<Rightarrow> string" where
  "write_result y k buf = take (nat (wr_amount y k)) buf"

partial_function (option) sys_loop :: "copy_sys \<Rightarrow> nat \<Rightarrow> string option \<Rightarrow> string \<Rightarrow> string option" where
  "sys_loop y k data out =
     (let len = read_result y k data in
      if len > 0 then
        sys_loop y (k + 1) (map_option (drop (nat len)) data)
          (out @ write_result y k (case data of None \<Rightarrow> [] | Some rest \<Rightarrow> take (nat len) rest))
      else Some out)"

declare sys_loop.simps [code]

definition syscpy_main :: "copy_sys \<Rightarrow> string option \<Rightarrow> string option" where
  "syscpy_main y news = sys_loop y 0 news []"

section \<open>The copies\<close>

text \<open>
  The loop ends for every system: every \<^verbatim>\<open>read\<close> with a positive result takes something from the file.
\<close>

lemma sys_loop_ends: "\<exists>out'. sys_loop y k data out = Some out'"
proof (induction "case data of None \<Rightarrow> 0 | Some rest \<Rightarrow> length rest" arbitrary: k data out rule: less_induct)
  case less
  show ?case
  proof (cases "read_result y k data > 0")
    case True
    then obtain rest where rest: "data = Some rest" "rest \<noteq> []"
      by (auto simp: read_result_def split: option.splits if_splits)
    then show ?thesis using True less [of "map_option (drop (nat (read_result y k data))) data" "k + 1"]
      by (auto simp: sys_loop.simps [of y k "Some rest" out] Let_def)
  qed (simp add: sys_loop.simps)
qed

lemma sys_loop_copies:
  assumes "\<And>k. 1 \<le> rd_amount y k" and "\<And>k. int CPY_BUF_SIZE \<le> wr_amount y k"
  shows "sys_loop y k (Some rest) out = Some (out @ rest)"
proof (induction "length rest" arbitrary: k rest out rule: less_induct)
  case less
  let ?len = "read_result y k (Some rest)"
  show ?case
  proof (cases "rest = []")
    case True
    then have "?len = 0" using assms(1) [of k] by (simp add: read_result_def)
    then show ?thesis using True by (simp add: sys_loop.simps [of y k])
  next
    case False
    then have len: "0 < ?len" "nat ?len \<le> CPY_BUF_SIZE" "nat ?len \<le> length rest"
      using assms(1) [of k] by (auto simp: read_result_def CPY_BUF_SIZE_def Suc_le_eq)
    have "write_result y k (take (nat ?len) rest) = take (nat ?len) rest"
      using len(2) assms(2) [of k] by (simp add: write_result_def)
    then have "sys_loop y k (Some rest) out = sys_loop y (k + 1) (Some (drop (nat ?len) rest)) (out @ take (nat ?len) rest)"
      using len(1) by (simp add: sys_loop.simps [of y k "Some rest"] Let_def)
    then show ?thesis using less [of "drop (nat ?len) rest" "k + 1"] len by auto
  qed
qed

text \<open>
  The two ways to copy a file. \<^verbatim>\<open>syscpy\<close> copies every file as it is, in whatever pieces \<^verbatim>\<open>read\<close> delivers it, as
  long as no \<^verbatim>\<open>read\<close> fails and every \<^verbatim>\<open>write\<close> takes what it is given; \<^verbatim>\<open>stdcpy\<close> ends on every file and its
  copy is the same if and only if the file has no NUL.
\<close>

theorem copies_agree:
  assumes "\<And>k. 1 \<le> rd_amount y k" and "\<And>k. 3 \<le> wr_amount y k"
  shows "syscpy_main y (Some file) = Some file
     \<and> (\<exists>out. stdcpy_main (Some file) True = Some out \<and> (out = file \<longleftrightarrow> NUL \<notin> set file))"
proof -
  have "syscpy_main y (Some file) = Some file"
    using sys_loop_copies [of y, where k = 0 and rest = "file" and out = "[]"] assms by (simp add: syscpy_main_def CPY_BUF_SIZE_def)
  moreover have "stdcpy_main (Some file) True = Some (concat (map c_str (chunks 3 file)))"
    by (simp add: stdcpy_main_def copy_loop_chunks fopen_read_def CPY_BUF_SIZE_def)
  moreover have "concat (map c_str (chunks 3 file)) = file \<longleftrightarrow> NUL \<notin> set file"
    using concat_c_str_eq [of "chunks 3 file"] concat_chunks [of 3 "file"] by simp
  ultimately show ?thesis by blast
qed

theorem copies_agree_witness:
  "syscpy_main \<lparr>rd_amount = (\<lambda>k. 2), wr_amount = (\<lambda>k. 3)\<rparr> (Some ''news'') = Some ''news''
     \<and> (\<exists>out. stdcpy_main (Some ''news'') True = Some out \<and> (out = ''news'' \<longleftrightarrow> NUL \<notin> set ''news''))"
  by (rule copies_agree) simp_all

end
