(* ===== verification/OneShot.thy ===== *)
theory OneShot
  imports Stdio
begin

text \<open>
  Programs that make one exchange and end: hello_server.c and hello_client.c, tcp_server.c and tcp_client.c,
  daytime_demo.c, and low_open.c with low_read.c. The results of the system calls are arguments. A program that
  goes through \<^verbatim>\<open>error_handling\<close> is \<open>Some (Inl 1)\<close>; an undefined operation (a store behind an array, printing an
  array past the bytes that were stored) is \<open>None\<close>.
\<close>

text \<open>\<^verbatim>\<open>printf("%s", buf)\<close> of an array of which only the bytes \<open>buf\<close> have been written.\<close>

definition show_buf :: "string \<Rightarrow> string option" where
  "show_buf buf = (if NUL \<in> set buf then Some (c_str buf) else None)"

section \<open>The servers\<close>

record server_calls =
  socket_r :: int
  bind_r :: int
  listen_r :: int
  accept_r :: int

text \<open>What is sent to the client; the messages are sent with their NUL.\<close>

definition one_shot_server :: "string \<Rightarrow> string list \<Rightarrow> server_calls \<Rightarrow> int + string" where
  "one_shot_server message argv y =
     (if length argv \<noteq> 2 then Inl 1
      else if socket_r y = -1 then Inl 1
      else if bind_r y = -1 then Inl 1
      else if listen_r y = -1 then Inl 1
      else if accept_r y = -1 then Inl 1
      else Inr message)"

definition hello_server :: "string list \<Rightarrow> server_calls \<Rightarrow> int + string" where
  "hello_server = one_shot_server (''Hello World!'' @ [NUL])"

definition tcp_server :: "string list \<Rightarrow> server_calls \<Rightarrow> int + string" where
  "tcp_server = one_shot_server (''This is tcp server!'' @ [NUL])"

section \<open>hello_client.c\<close>

text \<open>
  \<open>arrived\<close> is what has arrived when \<^verbatim>\<open>read\<close> is called, the end of the stream if it is empty; \<open>None\<close> is an error.
\<close>

definition hello_client :: "string list \<Rightarrow> int \<Rightarrow> int \<Rightarrow> string option \<Rightarrow> (int + string) option" where
  "hello_client argv sock connect_r arrived =
     (if length argv \<noteq> 3 then Some (Inl 1)
      else if sock = -1 then Some (Inl 1)
      else if connect_r = -1 then Some (Inl 1)
      else case arrived of
        None \<Rightarrow> Some (Inl 1)
      | Some bytes \<Rightarrow> map_option Inr (show_buf (take 29 bytes)))"

section \<open>tcp_client.c\<close>

text \<open>
  One byte per \<^verbatim>\<open>read\<close>, until it returns 0 at the end of the list; \<open>None\<close> in the list is an error. \<open>message\<close> is what
  is stored, so its length is \<^verbatim>\<open>idx\<close>; the array has 30 elements.
\<close>

fun tcp_read_loop :: "string \<Rightarrow> nat \<Rightarrow> char option list \<Rightarrow> (int + string \<times> nat) option" where
  "tcp_read_loop message str_len [] = Some (Inr (message, str_len))"
| "tcp_read_loop message str_len (None # rs) = Some (Inl 1)"
| "tcp_read_loop message str_len (Some c # rs) =
     (if length message < 30 then tcp_read_loop (message @ [c]) (str_len + 1) rs else None)"

definition tcp_client :: "string list \<Rightarrow> int \<Rightarrow> int \<Rightarrow> char option list \<Rightarrow> (int + string \<times> nat) option" where
  "tcp_client argv sock connect_r rs =
     (if length argv \<noteq> 3 then Some (Inl 1)
      else if sock = -1 then Some (Inl 1)
      else if connect_r = -1 then Some (Inl 1)
      else case tcp_read_loop [] 0 rs of
        Some (Inr (message, str_len)) \<Rightarrow> map_option (\<lambda>text. Inr (text, str_len)) (show_buf message)
      | r \<Rightarrow> r)"

lemma tcp_read_loop_bytes:
  "tcp_read_loop message n (map Some bytes) =
     (if bytes = [] \<or> length message + length bytes \<le> 30 then Some (Inr (message @ bytes, n + length bytes)) else None)"
  by (induction bytes arbitrary: message n) auto

lemma tcp_client_bytes:
  assumes "length argv = 3" and "sock \<noteq> -1" and "connect_r \<noteq> -1"
  shows "tcp_client argv sock connect_r (map Some bytes) =
    (if length bytes \<le> 30 \<and> NUL \<in> set bytes then Some (Inr (c_str bytes, length bytes)) else None)"
  using assms by (simp add: tcp_client_def tcp_read_loop_bytes show_buf_def)

text \<open>
  What the two clients make of their servers. tcp_client.c, which reads byte by byte to the end, prints the
  whole message and its 20 bytes however the network cuts it; for any server it stays inside its array exactly
  when at most 30 bytes come, and prints defined text when one of them is a NUL. hello_client.c reads once: it
  prints the message only when all 13 bytes have arrived together, and otherwise prints memory it never wrote.
\<close>

theorem clients_and_their_servers:
  assumes "length argv = 3" and "sock \<noteq> -1" and "connect_r \<noteq> -1"
    and "hello_server sargv y = Inr hello" and "tcp_server sargv y = Inr this_is"
  shows "tcp_client argv sock connect_r (map Some this_is) = Some (Inr (''This is tcp server!'', 20))
     \<and> (tcp_client argv sock connect_r (map Some bytes) \<noteq> None \<longleftrightarrow> length bytes \<le> 30 \<and> NUL \<in> set bytes)
     \<and> hello_client argv sock connect_r (Some (take k hello)) = (if 13 \<le> k then Some (Inr ''Hello World!'') else None)"
proof -
  have h: "hello = ''Hello World!'' @ [NUL]" and t: "this_is = ''This is tcp server!'' @ [NUL]"
    using assms(4,5) by (auto simp: hello_server_def tcp_server_def one_shot_server_def split: if_splits)
  have "NUL \<in> set (take k hello) \<longleftrightarrow> 13 \<le> k"
  proof (cases "13 \<le> k")
    case True
    then show ?thesis by (simp add: h)
  next
    case False
    then have "take k hello = take k ''Hello World!''" unfolding h take_append by simp
    then have "set (take k hello) \<subseteq> set ''Hello World!''" using set_take_subset [of k "''Hello World!''"] by simp
    with False show ?thesis by auto
  qed
  moreover have "take 29 (take k hello) = take k hello" by (simp add: h min_def)
  moreover have "13 \<le> k \<Longrightarrow> c_str (take k hello) = ''Hello World!''" by (simp add: h c_str_def)
  ultimately have "hello_client argv sock connect_r (Some (take k hello)) = (if 13 \<le> k then Some (Inr ''Hello World!'') else None)"
    using assms(1-3) by (simp add: hello_client_def show_buf_def del: take_take)
  moreover have "tcp_client argv sock connect_r (map Some this_is) = Some (Inr (''This is tcp server!'', 20))"
    using tcp_client_bytes [OF assms(1-3), of this_is] by (simp add: t c_str_def)
  ultimately show ?thesis using tcp_client_bytes [OF assms(1-3), of bytes] by simp
qed

theorem clients_and_their_servers_witness:
  "tcp_client [''c'', ''ip'', ''80''] 3 0 (map Some (''This is tcp server!'' @ [NUL])) = Some (Inr (''This is tcp server!'', 20))
     \<and> hello_client [''c'', ''ip'', ''80''] 3 0 (Some (take 5 (''Hello World!'' @ [NUL]))) = None"
  using clients_and_their_servers [of "[''c'', ''ip'', ''80'']" 3 0 "[''s'', ''80'']" "\<lparr>socket_r = 3, bind_r = 0, listen_r = 0, accept_r = 4\<rparr>"
      "''Hello World!'' @ [NUL]" "''This is tcp server!'' @ [NUL]" "[]" 5]
  by (simp add: hello_server_def tcp_server_def one_shot_server_def)

section \<open>daytime_demo.c\<close>

text \<open>
  From the established connection on: \<open>bytes\<close> is what \<^verbatim>\<open>read\<close> finds (\<open>None\<close> for an error); a failed assertion is
  \<open>Inl\<close>. The array has 128 elements, and the terminating NUL is stored behind what was read.
\<close>

definition daytime_read :: "string option \<Rightarrow> (int + string) option" where
  "daytime_read bytes = (case bytes of
      None \<Rightarrow> Some (Inl 134)
    | Some bytes \<Rightarrow>
        let result = min 128 (length bytes) in
        if result = 0 then Some (Inl 134)
        else if result < 128 then Some (Inr (c_str (take result bytes)))
        else None)"

text \<open>
  The whole program: \<open>host\<close> and \<open>serv\<close> say whether the look-ups succeed, \<open>connect_r\<close> is the result of \<^verbatim>\<open>connect\<close>.
\<close>

definition daytime_main :: "string list \<Rightarrow> bool \<Rightarrow> bool \<Rightarrow> int \<Rightarrow> string option \<Rightarrow> (int + string) option" where
  "daytime_main argv host serv connect_r bytes =
     (if length argv \<noteq> 2 \<or> \<not> host \<or> \<not> serv then Some (Inl 134)
      else if connect_r \<noteq> 0 then Some (Inl 1)
      else daytime_read bytes)"

section \<open>low_open.c and low_read.c\<close>

text \<open>\<open>file\<close> is the contents of data.txt, \<open>None\<close> when it cannot be opened. \<open>wrote\<close>: how many bytes are written.\<close>

definition low_open :: "bool \<Rightarrow> int \<Rightarrow> int + string" where
  "low_open can_open wrote =
     (if \<not> can_open then Inl 1
      else if wrote = -1 then Inl 1
      else Inr (take (nat wrote) (''Let'' @ [CHR 0x27] @ ''s go!'' @ [LF, NUL])))"

definition low_read :: "string option \<Rightarrow> bool \<Rightarrow> (int + string) option" where
  "low_read data read_ok = (case data of
      None \<Rightarrow> Some (Inl 1)
    | Some bytes \<Rightarrow> if \<not> read_ok then Some (Inl 1) else map_option Inr (show_buf (take 100 bytes)))"

text \<open>
  The reader prints the line the writer has put into the file, thanks to the NUL it has written too; text of any
  other origin, without a NUL in its first 100 bytes, is printed past what was read.
\<close>

theorem low_pair_round_trip:
  "low_open True 11 = Inr data \<Longrightarrow> low_read (Some data) True = Some (Inr (''Let'' @ [CHR 0x27] @ ''s go!'' @ [LF]))"
  "NUL \<notin> set (take 100 bytes) \<Longrightarrow> low_read (Some bytes) True = None"
  by (auto simp: low_open_def low_read_def show_buf_def c_str_def)

text \<open>The answer of a daytime server of 128 bytes or more is followed by a store behind the array.\<close>

theorem daytime_overruns:
  "daytime_main argv host serv connect_r (Some bytes) = None
    \<longleftrightarrow> length argv = 2 \<and> host \<and> serv \<and> connect_r = 0 \<and> 128 \<le> length bytes"
  by (auto simp: daytime_main_def daytime_read_def Let_def)

end
