(* ===== verification/Mempool.thy ===== *)
theory Mempool
  imports Runs Prelude
begin

text \<open>
  Mempool.h: a pool of reusable objects. An object is named by the number of its allocation. Each operation runs
  under the pool's critical section (\<^verbatim>\<open>LockGuard\<close>), so the calls of all threads are one sequence. An undefined
  operation (\<^verbatim>\<open>front\<close> of an empty queue, deleting an object twice) is \<open>None\<close>. \<^verbatim>\<open>setAllocSize\<close> assigns the name
  of a member function to a number and cannot be instantiated; the allocation size stays what the constructor
  sets.
\<close>

section \<open>The pool\<close>

text \<open>\<open>next_obj\<close> and \<open>deleted\<close> are the allocator's: the next object \<^verbatim>\<open>new\<close> returns, and those deleted.\<close>

record pool =
  m_nAllocSize :: int
  m_mempool :: "nat list"
  next_obj :: nat
  deleted :: "nat list"

definition pool_alloc :: "pool \<Rightarrow> pool" where
  "pool_alloc p = p\<lparr>m_mempool := m_mempool p @ [next_obj p ..< next_obj p + nat (m_nAllocSize p)],
     next_obj := next_obj p + nat (m_nAllocSize p)\<rparr>"

definition pool_new :: pool where
  "pool_new = pool_alloc \<lparr>m_nAllocSize = 50, m_mempool = [], next_obj = 0, deleted = []\<rparr>"

definition pool_push :: "nat \<Rightarrow> pool \<Rightarrow> pool" where
  "pool_push obj p = p\<lparr>m_mempool := m_mempool p @ [obj]\<rparr>"

definition pool_pop :: "pool \<Rightarrow> (nat \<times> pool) option" where
  "pool_pop p =
     (let p = (if m_mempool p = [] then pool_alloc p else p) in
      case m_mempool p of [] \<Rightarrow> None | obj # rest \<Rightarrow> Some (obj, p\<lparr>m_mempool := rest\<rparr>))"

fun free_loop :: "nat list \<Rightarrow> nat list \<Rightarrow> nat list option" where
  "free_loop [] del = Some del"
| "free_loop (obj # rest) del = (if obj \<in> set del then None else free_loop rest (del @ [obj]))"

text \<open>The destructor: the pool afterwards.\<close>

definition pool_delete :: "pool \<Rightarrow> pool option" where
  "pool_delete p = map_option (\<lambda>del. p\<lparr>m_mempool := [], deleted := del\<rparr>) (free_loop (m_mempool p) (deleted p))"

section \<open>Its use\<close>

text \<open>
  The pool with the objects its users hold, \<open>out\<close>. A user gets an object from \<^verbatim>\<open>pop\<close>, and gives one back that it
  holds.
\<close>

datatype pool_call = Pop | Push nat

definition pool_step :: "pool_call \<Rightarrow> pool \<times> nat list \<Rightarrow> (pool \<times> nat list) option" where
  "pool_step c s = (case (c, s) of
      (Pop, p, out) \<Rightarrow> map_option (\<lambda>(obj, p). (p, obj # out)) (pool_pop p)
    | (Push obj, p, out) \<Rightarrow> if obj \<in> set out then Some (pool_push obj p, remove1 obj out) else None)"

definition pool_steps :: "pool \<times> nat list \<Rightarrow> pool \<times> nat list \<Rightarrow> bool" where
  "pool_steps s t \<longleftrightarrow> (\<exists>c. pool_step c s = Some t)"

text \<open>
  Every object ever allocated is in exactly one place: in the pool or with a user. So far none has been deleted,
  and objects have been allocated 50 at a time.
\<close>

definition pool_ok :: "pool \<times> nat list \<Rightarrow> bool" where
  "pool_ok s = (case s of (p, out) \<Rightarrow>
     m_nAllocSize p = 50 \<and> distinct (m_mempool p @ out) \<and> set (m_mempool p @ out) = {..< next_obj p}
       \<and> 50 dvd next_obj p \<and> 0 < next_obj p \<and> deleted p = [])"

lemma pool_alloc_ok: "m_mempool p = [] \<Longrightarrow> pool_ok (p, out) \<Longrightarrow> pool_ok (pool_alloc p, out)"
proof -
  have "{n ..< n + 50} \<union> {..< n} = {..< n + 50}" "{n ..< n + 50} \<inter> {..< n} = {}" for n :: nat by auto
  then show "m_mempool p = [] \<Longrightarrow> pool_ok (p, out) \<Longrightarrow> pool_ok (pool_alloc p, out)"
    by (simp add: pool_ok_def pool_alloc_def del: upt_rec_numeral)
qed

lemma pool_new_ok: "pool_ok (pool_new, [])"
  by (simp add: pool_ok_def pool_new_def pool_alloc_def atLeast0LessThan del: upt_rec_numeral)

lemma pool_pop_Some:
  assumes "pool_ok (p, out)"
  obtains obj p' where "pool_pop p = Some (obj, p')" and "pool_ok (p', obj # out)"
    and "if m_mempool p = [] then obj = next_obj p else obj = hd (m_mempool p)"
    and "next_obj p' = (if m_mempool p = [] then next_obj p + 50 else next_obj p)"
proof -
  define q where "q = (if m_mempool p = [] then pool_alloc p else p)"
  have q: "pool_ok (q, out)" using assms pool_alloc_ok by (simp add: q_def)
  have hd: "m_mempool q \<noteq> []" "hd (m_mempool q) = (if m_mempool p = [] then next_obj p else hd (m_mempool p))"
    "next_obj q = (if m_mempool p = [] then next_obj p + 50 else next_obj p)"
    using assms by (auto simp: q_def pool_alloc_def pool_ok_def upt_conv_Cons)
  then obtain obj rest where o: "m_mempool q = obj # rest" by (cases "m_mempool q") auto
  have "pool_ok (q\<lparr>m_mempool := rest\<rparr>, obj # out)" using q o by (auto simp: pool_ok_def)
  then show thesis using that [of obj "q\<lparr>m_mempool := rest\<rparr>"] hd o by (simp add: pool_pop_def q_def [symmetric] split: if_splits)
qed

lemma pool_step_ok:
  assumes "pool_ok s" and "pool_step c s = Some t"
  shows "pool_ok t"
proof (cases s)
  case (Pair p out)
  show ?thesis
  proof (cases c)
    case Pop
    obtain obj p' where "pool_pop p = Some (obj, p')" "pool_ok (p', obj # out)"
      using pool_pop_Some assms(1) Pair by metis
    with assms(2) Pop Pair show ?thesis by (simp add: pool_step_def)
  next
    case (Push obj)
    with assms Pair show ?thesis
      by (auto simp: pool_step_def pool_ok_def pool_push_def split: if_splits)
  qed
qed

interpretation mempool: invariant_machine pool_steps pool_ok "(pool_new, [])"
  by unfold_locales (auto simp: pool_new_ok pool_steps_def intro: pool_step_ok)

lemma free_loop_distinct:
  "distinct (xs @ del) \<Longrightarrow> free_loop xs del = Some (del @ xs)"
  by (induction xs arbitrary: del) auto

text \<open>
  C20. No object has two owners. However the calls of \<^verbatim>\<open>pop\<close> and \<^verbatim>\<open>push\<close> follow each other, as long as objects are
  given back by those who hold them: \<^verbatim>\<open>pop\<close> always returns an object that nobody holds and that has been waiting
  in the pool longest, or a new one when the pool is empty; and the destructor deletes every object in the pool
  once and no object in use, so exactly those in use are never deleted.
\<close>

theorem pool_object_has_one_owner:
  assumes "rtranclp pool_steps (pool_new, []) (p, out)"
  shows "(\<exists>obj p'. pool_pop p = Some (obj, p') \<and> obj \<notin> set out \<and> distinct (obj # out)
        \<and> obj = (if m_mempool p = [] then next_obj p else hd (m_mempool p)))
     \<and> (\<exists>q. pool_delete p = Some q \<and> distinct (deleted q) \<and> set (deleted q) = {..< next_obj p} - set out)"
proof -
  have ok: "pool_ok (p, out)" using mempool.reachable_inv [OF assms] .
  obtain obj p' where "pool_pop p = Some (obj, p')" "pool_ok (p', obj # out)"
    "if m_mempool p = [] then obj = next_obj p else obj = hd (m_mempool p)"
    by (rule pool_pop_Some [OF ok])
  moreover have "free_loop (m_mempool p) (deleted p) = Some (m_mempool p)"
    using ok free_loop_distinct [of "m_mempool p" "[]"] by (simp add: pool_ok_def)
  moreover have "distinct (m_mempool p)" "set (m_mempool p) = {..< next_obj p} - set out" using ok by (auto simp: pool_ok_def)
  ultimately show ?thesis by (auto simp: pool_delete_def pool_ok_def split: if_splits)
qed

theorem pool_object_has_one_owner_witness:
  "\<exists>p. rtranclp pool_steps (pool_new, []) (p, [0]) \<and> (\<exists>obj p'. pool_pop p = Some (obj, p') \<and> obj = 1)
     \<and> (\<exists>q. pool_delete p = Some q \<and> set (deleted q) = {..< 50} - {0})"
proof -
  let ?p = "pool_new\<lparr>m_mempool := [1 ..< 50]\<rparr>"
  have "m_mempool pool_new = 0 # [1 ..< 50]" by (simp add: pool_new_def pool_alloc_def upt_conv_Cons)
  then have "pool_step Pop (pool_new, []) = Some (?p, [0])" by (simp add: pool_step_def pool_pop_def)
  then have "rtranclp pool_steps (pool_new, []) (?p, [0])" by (intro r_into_rtranclp) (auto simp: pool_steps_def)
  from this pool_object_has_one_owner [OF this] show ?thesis
    by (intro exI [of _ ?p]) (auto simp: upt_conv_Cons pool_new_def pool_alloc_def)
qed

end
