(* ===== verification/OldCodec.thy ===== *)
theory OldCodec
  imports Prelude
begin

text \<open>
  HttpCodec.cpp, the first version of the decoder, which is still built beside the one of Codec.cpp. Its
  \<^verbatim>\<open>tryDecode\<close> goes through a \<^verbatim>\<open>std::string\<close>; the bytes that may be read are those of the string and the NUL
  behind it. \<^verbatim>\<open>memcmp\<close> of four bytes of which not all may be read is undefined, and \<open>None\<close> here.
\<close>

definition old_memcmp4 :: "string \<Rightarrow> nat \<Rightarrow> string \<Rightarrow> bool option" where
  "old_memcmp4 msg i pat =
     (if i + 4 \<le> length msg + 1 then Some (take 4 (drop i (msg @ [NUL])) \<noteq> pat) else None)"

text \<open>The loop from position \<open>i\<close> on: the strings that \<^verbatim>\<open>header\<close> is set to, each forgotten at the end of its round.\<close>

function old_decode_loop :: "string \<Rightarrow> nat \<Rightarrow> string list option" where
  "old_decode_loop msg i =
     (if i < length msg then
        (if msg ! i = CR then do {
           differs \<leftarrow> old_memcmp4 msg i [CR, LF, CR, LF];
           rest \<leftarrow> old_decode_loop msg (i + 1);
           Some (if differs then take (i + 1) msg # rest else rest) }
         else old_decode_loop msg (i + 1))
      else Some [])"
  by pat_completeness auto

termination old_decode_loop
  by (relation "measure (\<lambda>(msg, i). length msg - i)") auto

declare old_decode_loop.simps [simp del]

definition old_tryDecode :: "string \<Rightarrow> string list option" where
  "old_tryDecode msg = (if length msg < 4 then Some [] else old_decode_loop msg 0)"

text \<open>The headers the loop builds when it stays inside the string.\<close>

definition cr_prefixes :: "string \<Rightarrow> nat \<Rightarrow> string list" where
  "cr_prefixes msg i = map (\<lambda>k. take (k + 1) msg)
     (filter (\<lambda>k. msg ! k = CR \<and> take 4 (drop k (msg @ [NUL])) \<noteq> [CR, LF, CR, LF]) [i ..< length msg])"

lemma old_decode_loop_result:
  "old_decode_loop msg i =
     (if \<forall>k. i \<le> k \<and> k < length msg \<and> msg ! k = CR \<longrightarrow> k + 3 \<le> length msg then Some (cr_prefixes msg i) else None)"
proof (induction msg i rule: old_decode_loop.induct)
  case (1 msg i)
  show ?case
  proof (cases "i < length msg")
    case False
    then show ?thesis by (auto simp: old_decode_loop.simps [of msg i] cr_prefixes_def)
  next
    case True
    have upt: "[i ..< length msg] = i # [i + 1 ..< length msg]" using True by (simp add: upt_conv_Cons)
    have all: "(\<forall>k. i \<le> k \<and> k < length msg \<and> msg ! k = CR \<longrightarrow> k + 3 \<le> length msg)
      \<longleftrightarrow> (msg ! i = CR \<longrightarrow> i + 3 \<le> length msg) \<and> (\<forall>k. i + 1 \<le> k \<and> k < length msg \<and> msg ! k = CR \<longrightarrow> k + 3 \<le> length msg)"
      using True by (metis Suc_eq_plus1 Suc_leI le_neq_implies_less le_refl less_imp_le_nat Suc_le_lessD)
    show ?thesis
    proof (cases "msg ! i = CR")
      case cr: True
      show ?thesis
      proof (cases "i + 3 \<le> length msg")
        case far: True
        have ih: "old_decode_loop msg (i + 1) =
          (if \<forall>k. i + 1 \<le> k \<and> k < length msg \<and> msg ! k = CR \<longrightarrow> k + 3 \<le> length msg then Some (cr_prefixes msg (i + 1)) else None)"
          using "1.IH"(1) [OF True cr] far by (simp add: old_memcmp4_def)
        show ?thesis
          using True far cr ih unfolding all
          by (simp add: old_decode_loop.simps [of msg i] old_memcmp4_def cr_prefixes_def upt del: take_append)
      next
        case False
        then show ?thesis using True cr unfolding all by (simp add: old_decode_loop.simps [of msg i] old_memcmp4_def)
      qed
    next
      case False
      then show ?thesis
        using True "1.IH"(2) [OF True False] unfolding all
        by (simp add: old_decode_loop.simps [of msg i] cr_prefixes_def upt)
    qed
  qed
qed

text \<open>
  What the first decoder does with any message. It has \<^verbatim>\<open>memcmp\<close> compare bytes outside the string exactly when a
  message of four bytes or more has a carriage return among its last two bytes, so for every request that is
  complete; in every other case it takes for headers just the pieces that end in a carriage return which does not begin an empty
  line, because the result of \<^verbatim>\<open>memcmp\<close> is tested the wrong way round.
\<close>

theorem old_tryDecode_reads_past_end:
  "(old_tryDecode msg = None \<longleftrightarrow> 4 \<le> length msg \<and> CR \<in> set (drop (length msg - 2) msg))
     \<and> old_tryDecode (req @ [CR, LF, CR, LF]) = None
     \<and> (\<forall>headers. old_tryDecode msg = Some headers \<longrightarrow>
          headers = (if length msg < 4 then [] else cr_prefixes msg 0))"
proof -
  have last2: "CR \<in> set (drop (length m - 2) m) \<longleftrightarrow> (\<exists>k. k < length m \<and> m ! k = CR \<and> \<not> k + 3 \<le> length m)"
    if "4 \<le> length m" for m :: string
  proof
    assume "CR \<in> set (drop (length m - 2) m)"
    then obtain j where "j < length m - (length m - 2)" "m ! (length m - 2 + j) = CR" by (auto simp: in_set_conv_nth)
    then show "\<exists>k. k < length m \<and> m ! k = CR \<and> \<not> k + 3 \<le> length m"
      using that by (intro exI [of _ "length m - 2 + j"]) auto
  next
    assume "\<exists>k. k < length m \<and> m ! k = CR \<and> \<not> k + 3 \<le> length m"
    then obtain k where k: "k < length m" "m ! k = CR" "\<not> k + 3 \<le> length m" by blast
    have "length m - 2 + (k - (length m - 2)) = k" using k that by simp
    with k(2) have "drop (length m - 2) m ! (k - (length m - 2)) = CR" by (simp only: nth_drop)
    moreover have "k - (length m - 2) < length (drop (length m - 2) m)" using k that by simp
    ultimately show "CR \<in> set (drop (length m - 2) m)" by (metis nth_mem)
  qed
  have none: "old_tryDecode m = None \<longleftrightarrow> 4 \<le> length m \<and> CR \<in> set (drop (length m - 2) m)" for m
    using last2 [of m] by (auto simp: old_tryDecode_def old_decode_loop_result)
  have "CR \<in> set (drop (length (req @ [CR, LF, CR, LF]) - 2) (req @ [CR, LF, CR, LF]))" by simp
  then have "old_tryDecode (req @ [CR, LF, CR, LF]) = None" using none [of "req @ [CR, LF, CR, LF]"] by simp
  then show ?thesis using none [of msg] by (auto simp: old_tryDecode_def old_decode_loop_result split: if_splits)
qed

theorem old_tryDecode_reads_past_end_witness:
  "old_tryDecode (''GET / HTTP/1.1'' @ [CR, LF, CR, LF]) = None \<and> (\<exists>headers. old_tryDecode ''a'' = Some headers \<and> headers = [])"
proof -
  have "old_tryDecode ''a'' = Some []" by (simp add: old_tryDecode_def)
  then show ?thesis
    using old_tryDecode_reads_past_end [of "''a''" "''GET / HTTP/1.1''"] by auto
qed

end
