(* ===== verification/SysDemos.thy ===== *)
theory SysDemos
  imports Stdio
begin

unbundle bit_operations_syntax

text \<open>
  Demos of single system calls: dup.c (a hard-wired descriptor), tee_splice.cpp (standard input copied to
  a file and to standard output without passing through the program) and sigalrm.cpp (a read that a signal
  handler interrupts and that is restarted); and listen_demo.c (waiting for a signal), poll_test.c (one \<^verbatim>\<open>poll\<close>
  of one connection) and zombie.c (a child that ends before its parent).
\<close>

section \<open>dup.c\<close>

text \<open>A new descriptor is the lowest number that is not in use.\<close>

definition first_free :: "nat set \<Rightarrow> nat" where
  "first_free S = hd (filter (\<lambda>n. n \<notin> S) [0 ..< Suc (card S)])"

datatype target = To_client | To_listener | To_other | To_nothing

text \<open>
  The program with all calls successful, \<open>S\<close> the descriptors in use when it starts: where its text goes. It is
  written to descriptor 5, whatever \<^verbatim>\<open>dup\<close> has returned.
\<close>

definition dup_main :: "string list \<Rightarrow> nat set \<Rightarrow> int + target" where
  "dup_main argv S =
     (if length argv \<le> 2 then Inl 1
      else
        let sock = first_free S;
            connfd = first_free (insert sock S);
            ret = first_free (insert connfd (insert sock S))
        in Inr (if 5 \<in> {connfd, ret} then To_client else if 5 = sock then To_listener
                else if 5 \<in> S then To_other else To_nothing))"

lemma first_free_lessThan: "first_free {..< n} = n"
proof -
  have "filter (\<lambda>k. k \<notin> {..< n}) [0 ..< Suc n] = [n]" by (simp add: filter_empty_conv)
  then show ?thesis by (simp add: first_free_def)
qed

text \<open>
  Started with the first \<open>n\<close> descriptors in use, the program reaches its client exactly for \<open>n = 3\<close>, which is what
  a shell gives it, and \<open>n = 4\<close>.
\<close>

theorem dup_reaches_client:
  assumes "3 \<le> length argv"
  shows "dup_main argv {..< n} = Inr To_client \<longleftrightarrow> n = 3 \<or> n = 4"
proof -
  have "insert n {..< n} = {..< Suc n}" "insert (Suc n) {..< Suc n} = {..< Suc (Suc n)}" by auto
  then show ?thesis using assms by (auto simp: dup_main_def Let_def first_free_lessThan)
qed

section \<open>tee_splice.cpp\<close>

text \<open>
  \<open>typed\<close> is what standard input holds, \<open>amounts\<close> how much each transfer is ready to take; the result is the file and
  the output, or the status 134 of a failed assertion. A \<^verbatim>\<open>splice\<close> from input at its end moves nothing, and \<^verbatim>\<open>tee\<close>
  with \<^verbatim>\<open>SPLICE_F_NONBLOCK\<close> fails on an empty pipe whose other end is open.
\<close>

record splice_amounts =
  from_input :: nat
  teed :: nat
  to_file :: nat
  to_output :: nat

definition SPLICE_LEN :: nat where
  "SPLICE_LEN = 32768"

definition transfer :: "nat \<Rightarrow> string \<Rightarrow> string" where
  "transfer n data = take (min n SPLICE_LEN) data"

definition tee_splice_main :: "string list \<Rightarrow> bool \<Rightarrow> splice_amounts \<Rightarrow> string \<Rightarrow> int + string \<times> string" where
  "tee_splice_main argv opened y typed =
     (if length argv \<noteq> 2 then Inl 1
      else if \<not> opened then Inl 134
      else
        let pipe_stdout = transfer (from_input y) typed;
            pipe_file = transfer (teed y) pipe_stdout
        in if pipe_stdout = [] then Inl 134
           else Inr (transfer (to_file y) pipe_file, transfer (to_output y) pipe_stdout))"

lemma transfer_prefix: "\<exists>rest. data = transfer n data @ rest"
  by (metis append_take_drop_id transfer_def)

lemma transfer_all: "SPLICE_LEN \<le> n \<Longrightarrow> transfer n data = take SPLICE_LEN data"
  by (simp add: transfer_def min_def)

text \<open>
  The file and the output are beginnings of what is typed; when every transfer takes all it may, both are its first
  32768 characters. Without input the program fails an assertion.
\<close>

theorem tee_splice_copies:
  assumes "length argv = 2" and "tee_splice_main argv True y typed = Inr (written, shown)"
  shows "(\<exists>rest. typed = written @ rest) \<and> (\<exists>rest. typed = shown @ rest)
     \<and> (SPLICE_LEN \<le> Min {from_input y, teed y, to_file y, to_output y} \<longrightarrow> written = take SPLICE_LEN typed \<and> shown = written)"
proof -
  define p where "p = transfer (from_input y) typed"
  have e: "written = transfer (to_file y) (transfer (teed y) p)" "shown = transfer (to_output y) p"
    using assms by (simp_all add: tee_splice_main_def Let_def p_def split: if_splits)
  obtain r1 r2 r3 r4 where "typed = p @ r1" "p = transfer (teed y) p @ r2" "transfer (teed y) p = written @ r3" "p = shown @ r4"
    using transfer_prefix e p_def by metis
  then have "typed = written @ r3 @ r2 @ r1" "typed = shown @ r4 @ r1" by (metis append.assoc)+
  moreover have "written = take SPLICE_LEN typed \<and> shown = written" if "SPLICE_LEN \<le> Min {from_input y, teed y, to_file y, to_output y}"
    using that unfolding e p_def by (simp add: transfer_all)
  ultimately show ?thesis by blast
qed

theorem tee_splice_needs_input: "length argv = 2 \<Longrightarrow> tee_splice_main argv True y [] = Inl 134"
  by (simp add: tee_splice_main_def transfer_def)

section \<open>sigalrm.cpp\<close>

text \<open>
  \<open>typed\<close> is what is there when \<^verbatim>\<open>read\<close> ends, \<open>seconds\<close> when that is. With \<^verbatim>\<open>SA_RESTART\<close> the handler does not
  end the call; an ignored signal has no handler. The buffer of 100 bytes was set to 0 before.
\<close>

definition sigalrm_main :: "bool \<Rightarrow> nat \<Rightarrow> string \<Rightarrow> (string list \<times> string) option" where
  "sigalrm_main old_ignored seconds typed =
     (let handled = (if \<not> old_ignored \<and> 3 \<le> seconds then [''in handler'', ''handler return''] else []);
          buf = take 100 typed @ replicate (100 - length typed) NUL
      in if NUL \<in> set buf then Some (handled, c_str buf) else None)"

text \<open>What is printed does not depend on the signal; 100 characters or more leave no room for a NUL.\<close>

theorem sigalrm_reads_undisturbed:
  assumes "NUL \<notin> set typed"
  shows "map_option snd (sigalrm_main ign t typed) = (if length typed < 100 then Some typed else None)"
proof (cases "length typed < 100")
  case True
  then have "c_str (typed @ replicate (100 - length typed) NUL) = typed"
    using assms by (auto simp: c_str_def takeWhile_append takeWhile_eq_all_conv takeWhile_replicate)
  then show ?thesis using True by (simp add: sigalrm_main_def Let_def)
next
  case False
  then show ?thesis using assms set_take_subset [of 100 typed] by (auto simp: sigalrm_main_def Let_def)
qed

section \<open>listen_demo.c\<close>

text \<open>
  \<open>arrives k\<close>: whether \<^verbatim>\<open>SIGTERM\<close> arrives during the \<open>k\<close>-th call of \<^verbatim>\<open>sleep(1)\<close>. The result is the number of calls.
\<close>

partial_function (option) stop_loop :: "(nat \<Rightarrow> bool) \<Rightarrow> nat \<Rightarrow> bool \<Rightarrow> nat option" where
  "stop_loop arrives k stop = (if stop then Some k else stop_loop arrives (k + 1) (arrives k))"

declare stop_loop.simps [code]

definition listen_demo_main :: "string list \<Rightarrow> bool \<Rightarrow> bool \<Rightarrow> bool \<Rightarrow> (nat \<Rightarrow> bool) \<Rightarrow> (int + nat) option" where
  "listen_demo_main argv sock bound listening arrives =
     (if length argv \<le> 3 then Some (Inl 1)
      else if \<not> sock \<or> \<not> bound \<or> \<not> listening then Some (Inl 134)
      else map_option Inr (stop_loop arrives 0 False))"

lemma stop_loop_stops:
  "arrives (k + d) \<Longrightarrow> (\<And>j. j < d \<Longrightarrow> \<not> arrives (k + j)) \<Longrightarrow> stop_loop arrives k False = Some (k + d + 1)"
proof (induction d arbitrary: k)
  case 0
  then show ?case by (simp add: stop_loop.simps [of arrives k] stop_loop.simps [of arrives "Suc k"])
next
  case (Suc d)
  have "\<not> arrives k" using Suc.prems(2) [of 0] by simp
  moreover have "stop_loop arrives (k + 1) False = Some (k + 1 + d + 1)"
  proof (rule Suc.IH)
    show "arrives (k + 1 + d)" using Suc.prems(1) by simp
    show "\<not> arrives (k + 1 + j)" if "j < d" for j using Suc.prems(2) [of "Suc j"] that by simp
  qed
  ultimately show ?case by (simp add: stop_loop.simps [of arrives k])
qed

text \<open>The server ends after the first second in which the signal arrives, whenever that is.\<close>

theorem listen_demo_stops:
  assumes "4 \<le> length argv" and "arrives k" and "\<And>j. j < k \<Longrightarrow> \<not> arrives j"
  shows "listen_demo_main argv True True True arrives = Some (Inr (k + 1))"
  using assms stop_loop_stops [of arrives 0 k] by (simp add: listen_demo_main_def)

section \<open>poll_test.c\<close>

datatype poll_report = Reports_out | Reports_err | Reports_other int "32 word"

text \<open>The status of \<^verbatim>\<open>exit\<close>, or what is printed about the connection. \<^verbatim>\<open>POLLOUT\<close> is 4, \<^verbatim>\<open>POLLERR\<close> is 8.\<close>

definition poll_test_main :: "int \<Rightarrow> int \<Rightarrow> int \<Rightarrow> int \<Rightarrow> int \<Rightarrow> 32 word \<Rightarrow> int + poll_report" where
  "poll_test_main sock bind_r listen_r connfd nready revents =
     (if sock < 0 then Inl 1
      else if bind_r < 0 then Inl 1
      else if listen_r < 0 then Inl 1
      else if connfd < 0 then Inl 1
      else if nready = 1 \<and> revents = 4 then Inr Reports_out
      else if nready = 1 \<and> revents = 8 then Inr Reports_err
      else Inr (Reports_other nready revents))"

text \<open>
  The masks are compared as a whole: a connection that is writable and has failed is reported as neither.
\<close>

theorem poll_test_misses_combined:
  "poll_test_main sock b l connfd 1 (4 OR 8) \<in> {Inl 1, Inr (Reports_other 1 12)}"
  by (simp add: poll_test_main_def)

section \<open>zombie.c\<close>

text \<open>What the process with the result \<open>pid\<close> of \<^verbatim>\<open>fork\<close> prints; \<open>shown\<close> is how \<^verbatim>\<open>printf\<close> shows the number.\<close>

definition zombie_main :: "(int \<Rightarrow> string) \<Rightarrow> int \<Rightarrow> string list" where
  "zombie_main shown pid =
     (if pid = 0 then [''Hi, I am a child process''] else [''Child Process ID: '' @ shown pid]) @
     (if pid = 0 then [''End child process''] else [''End parent process''])"

text \<open>A \<^verbatim>\<open>fork\<close> that fails is not noticed: the process speaks of a child.\<close>

theorem zombie_fork_failure: "zombie_main shown (-1) = [''Child Process ID: '' @ shown (-1), ''End parent process'']"
  by (simp add: zombie_main_def)

end
