(* ===== verification/Locks.thy ===== *)
theory Locks
  imports Runs
begin

text \<open>
  LockGuard.h and the order in which the threads of WinHttpServer take their locks. The handlers of IocpServer.cpp
  are run by several worker threads; each client has a critical section, and so have the client lists. A handler
  is reduced here to the locks it takes and gives back, in order, on the path that its branches choose; the
  theories of the server say what it does in between. A critical section can be entered again by its owner.
\<close>

section \<open>Critical sections and threads\<close>

datatype lock_id = Client nat | ClientList

datatype lock_op = Enter lock_id | Leave lock_id

text \<open>The owner of a section and how often it has entered it; \<open>None\<close> for a section that is free.\<close>

type_synonym lock_table = "lock_id \<Rightarrow> (nat \<times> nat) option"

record lock_state =
  todo :: "nat \<Rightarrow> lock_op list"
  crit :: lock_table

text \<open>One operation of thread \<open>i\<close>. Entering a section that another thread owns has to wait: there is no step.\<close>

fun lock_op_step :: "nat \<Rightarrow> lock_op \<Rightarrow> lock_table \<Rightarrow> lock_table option" where
  "lock_op_step i (Enter l) m = (case m l of
      None \<Rightarrow> Some (m(l \<mapsto> (i, 1)))
    | Some (t, n) \<Rightarrow> if t = i then Some (m(l \<mapsto> (i, n + 1))) else None)"
| "lock_op_step i (Leave l) m = (case m l of
      None \<Rightarrow> None
    | Some (t, n) \<Rightarrow> if t = i then Some (if n = 1 then m(l := None) else m(l \<mapsto> (i, n - 1))) else None)"

definition thread_step :: "nat \<Rightarrow> lock_state \<Rightarrow> lock_state option" where
  "thread_step i s = (case todo s i of
      [] \<Rightarrow> None
    | a # rest \<Rightarrow> map_option (\<lambda>m. \<lparr>todo = (todo s)(i := rest), crit = m\<rparr>) (lock_op_step i a (crit s)))"

definition lock_step :: "lock_state \<Rightarrow> lock_state \<Rightarrow> bool" where
  "lock_step s t \<longleftrightarrow> (\<exists>i. thread_step i s = Some t)"

definition lock_start :: "(nat \<Rightarrow> lock_op list) \<Rightarrow> lock_state" where
  "lock_start progs = \<lparr>todo = progs, crit = (\<lambda>l. None)\<rparr>"

text \<open>The scope of a \<^verbatim>\<open>LockGuard\<close>: its constructor, the statements, its destructor.\<close>

definition guarded :: "lock_id \<Rightarrow> lock_op list \<Rightarrow> lock_op list" where
  "guarded l body = Enter l # body @ [Leave l]"

section \<open>A lock order\<close>

text \<open>
  A program gives back what it takes, last first, and takes a section it does not hold only above all that it
  holds. \<open>held\<close> is what it holds, with repetitions.
\<close>

fun disciplined :: "(lock_id \<Rightarrow> nat) \<Rightarrow> lock_id list \<Rightarrow> lock_op list \<Rightarrow> bool" where
  "disciplined rk held [] \<longleftrightarrow> held = []"
| "disciplined rk held (Enter l # p) \<longleftrightarrow>
     (l \<in> set held \<or> (\<forall>h \<in> set held. rk h < rk l)) \<and> disciplined rk (l # held) p"
| "disciplined rk held (Leave l # p) \<longleftrightarrow> held \<noteq> [] \<and> hd held = l \<and> disciplined rk (tl held) p"

text \<open>The table says who holds what: \<open>cnt i\<close> is how often thread \<open>i\<close> holds the section of the entry.\<close>

fun cell_ok :: "(nat \<Rightarrow> nat) \<Rightarrow> (nat \<times> nat) option \<Rightarrow> bool" where
  "cell_ok cnt None \<longleftrightarrow> (\<forall>i. cnt i = 0)"
| "cell_ok cnt (Some (t, n)) \<longleftrightarrow> 0 < n \<and> cnt t = n \<and> (\<forall>i. i \<noteq> t \<longrightarrow> cnt i = 0)"

definition table_ok :: "(nat \<Rightarrow> lock_id list) \<Rightarrow> lock_table \<Rightarrow> bool" where
  "table_ok held m \<longleftrightarrow> (\<forall>l. cell_ok (\<lambda>i. count_list (held i) l) (m l))"

locale lock_order =
  fixes rk :: "lock_id \<Rightarrow> nat" and progs :: "nat \<Rightarrow> lock_op list" and threads :: nat
  assumes progs_disciplined: "disciplined rk [] (progs i)"
    and progs_idle: "threads \<le> i \<Longrightarrow> progs i = []"
begin

definition lock_inv :: "lock_state \<Rightarrow> bool" where
  "lock_inv s \<longleftrightarrow> (\<exists>held. (\<forall>i. disciplined rk (held i) (todo s i)) \<and> table_ok held (crit s))
     \<and> (\<forall>i. threads \<le> i \<longrightarrow> todo s i = [])"

definition ops_left :: "lock_state \<Rightarrow> nat" where
  "ops_left s = (\<Sum>i < threads. length (todo s i))"

lemma start_inv: "lock_inv (lock_start progs)"
  unfolding lock_inv_def lock_start_def
  using progs_disciplined progs_idle by (auto simp: table_ok_def intro!: exI [of _ "\<lambda>i. []"])

end

lemma table_owner:
  assumes "table_ok held m"
  shows "l \<in> set (held i) \<longleftrightarrow> (\<exists>n. m l = Some (i, n))"
proof -
  have "count_list (held i) l = 0 \<longleftrightarrow> l \<notin> set (held i)" by (simp add: count_list_0_iff)
  moreover have "cell_ok (\<lambda>i. count_list (held i) l) (m l)" using assms by (simp add: table_ok_def)
  ultimately show ?thesis
  proof (cases "m l")
    case (Some c)
    obtain t n where "c = (t, n)" by (cases c)
    with \<open>cell_ok (\<lambda>i. count_list (held i) l) (m l)\<close> Some count_list_0_iff [of "held i" l] show ?thesis by (cases "t = i") auto
  qed simp
qed

lemma table_update:
  assumes "table_ok held m" and "\<And>k. k \<noteq> l \<Longrightarrow> count_list hs k = count_list (held i) k"
    and "cell_ok (\<lambda>j. if j = i then count_list hs l else count_list (held j) l) c"
  shows "table_ok (held(i := hs)) (m(l := c))"
  unfolding table_ok_def
proof
  fix k
  show "cell_ok (\<lambda>j. count_list ((held(i := hs)) j) k) ((m(l := c)) k)"
  proof (cases "k = l")
    case True
    have "(\<lambda>j. count_list ((held(i := hs)) j) l) = (\<lambda>j. if j = i then count_list hs l else count_list (held j) l)" by auto
    with assms(3) True show ?thesis by simp
  next
    case False
    then have "(\<lambda>j. count_list ((held(i := hs)) j) k) = (\<lambda>j. count_list (held j) k)" using assms(2) by auto
    with assms(1) False show ?thesis by (simp add: table_ok_def)
  qed
qed

lemma table_enter:
  assumes "table_ok held m" and "lock_op_step i (Enter l) m = Some m'"
  shows "table_ok (held(i := l # held i)) m'"
proof -
  have c: "cell_ok (\<lambda>j. count_list (held j) l) (m l)" using assms(1) by (simp add: table_ok_def)
  obtain d where "m' = m(l := d)" "cell_ok (\<lambda>j. if j = i then count_list (l # held i) l else count_list (held j) l) d"
    using assms(2) c by (auto split: option.splits if_splits)
  with table_update [OF assms(1), of l "l # held i" i d] show ?thesis by simp
qed

lemma table_leave:
  assumes "table_ok held m" and "lock_op_step i (Leave l) m = Some m'" and "held i \<noteq> []" and "hd (held i) = l"
  shows "table_ok (held(i := tl (held i))) m'"
proof -
  obtain hs where hs: "held i = l # hs" using assms(3,4) by (cases "held i") auto
  have "cell_ok (\<lambda>j. count_list (held j) l) (m l)" using assms(1) by (simp add: table_ok_def)
  then obtain n where n: "m l = Some (i, n)" "Suc (count_list hs l) = n" "\<forall>j. j \<noteq> i \<longrightarrow> count_list (held j) l = 0"
    using assms(2) hs by (auto split: option.splits if_splits)
  obtain d where "m' = m(l := d)" "cell_ok (\<lambda>j. if j = i then count_list hs l else count_list (held j) l) d"
  proof (cases "n = 1")
    case True
    with n assms(2) show ?thesis by (intro that [of None]) auto
  next
    case False
    with n assms(2) show ?thesis by (intro that [of "Some (i, n - 1)"]) auto
  qed
  with table_update [OF assms(1), of l hs i d] hs show ?thesis by simp
qed

lemma table_can_leave: "table_ok held m \<Longrightarrow> l \<in> set (held i) \<Longrightarrow> \<exists>m'. lock_op_step i (Leave l) m = Some m'"
  by (auto simp: table_owner)

text \<open>A step of a disciplined thread.\<close>

lemma disciplined_step:
  assumes "thread_step i s = Some t" and "\<forall>j. disciplined rk (held j) (todo s j)" and "table_ok held (crit s)"
  obtains held' a where "\<forall>j. disciplined rk (held' j) (todo t j)" and "table_ok held' (crit t)"
    and "todo s i = a # todo t i" and "\<forall>j. j \<noteq> i \<longrightarrow> todo t j = todo s j"
proof -
  obtain a rest m where a: "todo s i = a # rest" "lock_op_step i a (crit s) = Some m" "t = \<lparr>todo = (todo s)(i := rest), crit = m\<rparr>"
    using assms(1) by (auto simp: thread_step_def split: list.splits)
  have d: "disciplined rk (held i) (a # rest)" using assms(2) a(1) by metis
  show thesis
  proof (cases a)
    case (Enter l)
    then show thesis using that [of "held(i := l # held i)" a] table_enter [OF assms(3)] a d assms(2) by auto
  next
    case (Leave l)
    then show thesis using that [of "held(i := tl (held i))" a] table_leave [OF assms(3)] a d assms(2) by auto
  qed
qed

text \<open>The largest value that a function takes on a finite set is taken.\<close>

lemma finite_top: "finite A \<Longrightarrow> A \<noteq> {} \<Longrightarrow> \<exists>a \<in> A. \<forall>b \<in> A. f b \<le> (f a :: nat)"
  using Max_in [of "f ` A"] Max_ge [of "f ` A"] by (metis (no_types, lifting) finite_imageI image_eqI image_iff image_is_empty)

text \<open>
  Among disciplined threads one can always go on: the owner of the highest section that somebody waits for is not
  waiting itself, because it could only wait for a higher one.
\<close>

lemma disciplined_progress:
  assumes "\<forall>j. disciplined rk (held j) (todo s j)" and "table_ok held (crit s)" and "finite {i. todo s i \<noteq> []}" and "todo s k \<noteq> []"
  shows "\<exists>t. lock_step s t"
proof (rule ccontr)
  assume no: "\<nexists>t. lock_step s t"
  have blocked: "\<exists>l rest o' n. todo s i = Enter l # rest \<and> crit s l = Some (o', n) \<and> o' \<noteq> i" if busy: "todo s i \<noteq> []" for i
  proof -
    obtain a rest where a: "todo s i = a # rest" using busy by (cases "todo s i") auto
    have none: "lock_op_step i a (crit s) = None"
    proof (rule ccontr)
      assume "lock_op_step i a (crit s) \<noteq> None"
      then have "\<exists>t. thread_step i s = Some t" using a by (auto simp: thread_step_def)
      with no show False by (auto simp: lock_step_def)
    qed
    have d: "disciplined rk (held i) (a # rest)" using assms(1) a by metis
    show ?thesis
    proof (cases a)
      case (Enter l)
      with none a show ?thesis by (auto split: option.splits if_splits)
    next
      case (Leave l)
      with d have "l \<in> set (held i)" by (cases "held i") auto
      with table_can_leave [OF assms(2)] none Leave show ?thesis by fastforce
    qed
  qed
  define wants where "wants i = (case todo s i of Enter l # _ \<Rightarrow> rk l | _ \<Rightarrow> 0)" for i
  obtain i where i: "todo s i \<noteq> []" "\<forall>j. todo s j \<noteq> [] \<longrightarrow> wants j \<le> wants i"
    using finite_top [OF assms(3), of wants] assms(4) by auto
  then obtain l rest j n where l: "todo s i = Enter l # rest" "crit s l = Some (j, n)" "j \<noteq> i" using blocked by blast
  then have held: "l \<in> set (held j)" using table_owner [OF assms(2)] by blast
  then have "todo s j \<noteq> []" using assms(1) by (metis disciplined.simps(1) empty_iff list.set(1))
  then obtain l' rest' k' n' where l': "todo s j = Enter l' # rest'" "crit s l' = Some (k', n')" "k' \<noteq> j" using blocked by blast
  then have "l' \<notin> set (held j)" using table_owner [OF assms(2)] by simp
  then have "rk l < rk l'" using held assms(1) l'(1) by (metis disciplined.simps(2))
  moreover have "wants i = rk l" "wants j = rk l'" using l l' by (simp_all add: wants_def)
  ultimately show False using i(2) \<open>todo s j \<noteq> []\<close> by fastforce
qed

text \<open>Threads that keep a lock order run to their end, in any interleaving.\<close>

sublocale lock_order \<subseteq> schedule: ending_machine lock_step lock_inv "lock_start progs" "\<lambda>s. \<forall>i. todo s i = []" ops_left
proof unfold_locales
  fix s t
  assume "lock_inv s" "lock_step s t"
  then obtain held i where h: "\<forall>j. disciplined rk (held j) (todo s j)" "table_ok held (crit s)" "\<forall>j. threads \<le> j \<longrightarrow> todo s j = []"
    "thread_step i s = Some t"
    by (auto simp: lock_inv_def lock_step_def)
  obtain held' a where t: "\<forall>j. disciplined rk (held' j) (todo t j)" "table_ok held' (crit t)"
    "todo s i = a # todo t i" "\<forall>j. j \<noteq> i \<longrightarrow> todo t j = todo s j"
    by (rule disciplined_step [OF h(4,1,2)])
  have i: "i < threads" using h(3) t(3) by (metis list.distinct(1) not_le_imp_less)
  have "\<forall>j. threads \<le> j \<longrightarrow> todo t j = []" using h(3) t(4) i by (metis not_le)
  then show "lock_inv t" using t(1,2) by (auto simp: lock_inv_def)
  have "ops_left t < ops_left s"
    unfolding ops_left_def
  proof (rule sum_strict_mono_ex1)
    show "\<forall>j \<in> {..< threads}. length (todo t j) \<le> length (todo s j)" using t(3,4) by (metis le_refl length_Cons lessI less_imp_le)
    show "\<exists>j \<in> {..< threads}. length (todo t j) < length (todo s j)" using t(3) i by (intro bexI [of _ i]) auto
  qed simp
  then show "ops_left t < ops_left s" .
next
  show "lock_inv (lock_start progs)" by (rule start_inv)
next
  fix s
  assume "lock_inv s" "\<not> (\<forall>i. todo s i = [])"
  then obtain held k where h: "\<forall>j. disciplined rk (held j) (todo s j)" "table_ok held (crit s)" "\<forall>j. threads \<le> j \<longrightarrow> todo s j = []" "todo s k \<noteq> []"
    by (auto simp: lock_inv_def)
  have "{i. todo s i \<noteq> []} \<subseteq> {..< threads}" using h(3) by (auto simp: not_le [symmetric])
  then have "finite {i. todo s i \<noteq> []}" by (rule finite_subset) simp
  then show "\<exists>t. lock_step s t" using disciplined_progress [OF h(1,2)] h(4) by blast
qed

context lock_order
begin

lemma all_free_at_end:
  assumes "rtranclp lock_step (lock_start progs) s" and "\<forall>i. todo s i = []"
  shows "crit s l = None"
proof -
  obtain held where h: "\<forall>j. disciplined rk (held j) (todo s j)" "table_ok held (crit s)"
    using schedule.reachable_inv [OF assms(1)] by (auto simp: lock_inv_def)
  then have "held i = []" for i using assms(2) by (metis disciplined.simps(1))
  then have "cell_ok (\<lambda>i. 0) (crit s l)" using h(2) by (simp add: table_ok_def)
  then show ?thesis by (cases "crit s l") auto
qed

end

section \<open>The locks of the handlers\<close>

text \<open>
  The arguments name the branches: \<open>failed\<close>, that a request could not be posted; \<open>to0\<close>, that the pending count
  reaches 0.
\<close>

definition postRecv_locks :: "nat \<Rightarrow> lock_op list" where
  "postRecv_locks c = guarded (Client c) []"

definition postSend_locks :: "nat \<Rightarrow> lock_op list" where
  "postSend_locks c = guarded (Client c) []"

definition CloseClient_locks :: "nat \<Rightarrow> lock_op list" where
  "CloseClient_locks c = guarded (Client c) []"

definition addClient_locks :: "lock_op list" where
  "addClient_locks = guarded ClientList []"

definition removeClient_locks :: "lock_op list" where
  "removeClient_locks = guarded ClientList []"

definition allocateClientContext_locks :: "lock_op list" where
  "allocateClientContext_locks = guarded ClientList []"

definition releaseClientContext_locks :: "bool \<Rightarrow> lock_op list" where
  "releaseClientContext_locks to0 = (if to0 then removeClient_locks else [])"

definition handleClose_locks :: "nat \<Rightarrow> bool \<Rightarrow> lock_op list" where
  "handleClose_locks c to0 = CloseClient_locks c @ releaseClientContext_locks to0"

definition send_locks :: "nat \<Rightarrow> bool \<Rightarrow> bool \<Rightarrow> bool \<Rightarrow> lock_op list" where
  "send_locks c idle failed to0 = guarded (Client c)
     (if idle then postSend_locks c @ (if failed then CloseClient_locks c @ releaseClientContext_locks to0 else []) else [])"

definition handleAccept_locks :: "nat \<Rightarrow> bool \<Rightarrow> bool \<Rightarrow> bool \<Rightarrow> bool \<Rightarrow> lock_op list" where
  "handleAccept_locks c full associated failed to0 =
     (if full then []
      else allocateClientContext_locks @
        (if \<not> associated then []
         else addClient_locks @ postRecv_locks c @
           (if failed then CloseClient_locks c @ releaseClientContext_locks to0 else [])))"

text \<open>
  One round of the loop in \<^verbatim>\<open>HttpServer::notifyPackageReceived\<close>: the reply, if there is one, and the closing after a
  rejected request. The echo handler of the base class is one round with a reply.
\<close>

record package_round =
  reply :: "(bool \<times> bool \<times> bool) option"
  rejected :: "bool option"

definition round_locks :: "nat \<Rightarrow> package_round \<Rightarrow> lock_op list" where
  "round_locks c r =
     (case reply r of None \<Rightarrow> [] | Some (idle, failed, to0) \<Rightarrow> send_locks c idle failed to0) @
     (case rejected r of None \<Rightarrow> [] | Some to0 \<Rightarrow> CloseClient_locks c @ releaseClientContext_locks to0)"

definition handleRecv_locks :: "nat \<Rightarrow> package_round list \<Rightarrow> bool \<Rightarrow> bool \<Rightarrow> lock_op list" where
  "handleRecv_locks c rounds failed to0 = concat (map (round_locks c) rounds) @ postRecv_locks c @
     (if failed then CloseClient_locks c @ releaseClientContext_locks to0 else [])"

definition handleSend_locks :: "nat \<Rightarrow> bool \<Rightarrow> bool \<Rightarrow> bool \<Rightarrow> bool \<Rightarrow> bool \<Rightarrow> bool \<Rightarrow> lock_op list" where
  "handleSend_locks c emptied queued to0 data failed to0' = guarded (Client c)
     ((if emptied \<and> \<not> queued then releaseClientContext_locks to0 else []) @
      (if data then postSend_locks c @ (if failed then CloseClient_locks c @ releaseClientContext_locks to0' else []) else []))"

text \<open>A completion that a worker handles.\<close>

datatype completion =
    On_accept nat bool bool bool bool
  | On_recv nat "package_round list" bool bool
  | On_send nat bool bool bool bool bool bool
  | On_close nat bool

fun completion_locks :: "completion \<Rightarrow> lock_op list" where
  "completion_locks (On_accept c full associated failed to0) = handleAccept_locks c full associated failed to0"
| "completion_locks (On_recv c rounds failed to0) = handleRecv_locks c rounds failed to0"
| "completion_locks (On_send c emptied queued to0 data failed to0') = handleSend_locks c emptied queued to0 data failed to0'"
| "completion_locks (On_close c to0) = handleClose_locks c to0"

definition worker_locks :: "completion list list \<Rightarrow> nat \<Rightarrow> lock_op list" where
  "worker_locks work i = (if i < length work then concat (map completion_locks (work ! i)) else [])"

text \<open>The heartbeat scan over the connected clients it looks at: the list stays locked for the whole scan.\<close>

definition checkHeartbeat_locks :: "nat list \<Rightarrow> lock_op list" where
  "checkHeartbeat_locks cs = guarded ClientList (concat (map (\<lambda>c. guarded (Client c) []) cs))"

section \<open>The order of the server\<close>

text \<open>A client's section comes before the section of the lists.\<close>

definition lock_rank :: "lock_id \<Rightarrow> nat" where
  "lock_rank l = (case l of Client c \<Rightarrow> 0 | ClientList \<Rightarrow> 1)"

text \<open>\<open>keeps_order held p\<close>: run by a thread that holds \<open>held\<close>, \<open>p\<close> keeps the order and leaves \<open>held\<close> as it was.\<close>

definition keeps_order :: "lock_id list \<Rightarrow> lock_op list \<Rightarrow> bool" where
  "keeps_order held p \<longleftrightarrow> (\<forall>rest. disciplined lock_rank held rest \<longrightarrow> disciplined lock_rank held (p @ rest))"

named_theorems order_intros \<open>programs that keep the lock order\<close>

lemma keeps_Nil [order_intros]: "keeps_order held []"
  by (simp add: keeps_order_def)

lemma keeps_append [order_intros]: "keeps_order held p \<Longrightarrow> keeps_order held q \<Longrightarrow> keeps_order held (p @ q)"
  by (simp add: keeps_order_def)

lemma keeps_concat [order_intros]: "(\<And>p. p \<in> set ps \<Longrightarrow> keeps_order held p) \<Longrightarrow> keeps_order held (concat ps)"
  by (induction ps) (auto intro: keeps_Nil keeps_append)

lemma keeps_if [order_intros]: "(b \<Longrightarrow> keeps_order held p) \<Longrightarrow> (\<not> b \<Longrightarrow> keeps_order held q) \<Longrightarrow> keeps_order held (if b then p else q)"
  by simp

lemma keeps_guarded:
  assumes "keeps_order (l # held) body" and "l \<in> set held \<or> (\<forall>h \<in> set held. lock_rank h < lock_rank l)"
  shows "keeps_order held (guarded l body)"
  using assms by (auto simp: keeps_order_def guarded_def)

lemma keeps_client [order_intros]: "held \<in> {[], [Client c]} \<Longrightarrow> keeps_order (Client c # held) body \<Longrightarrow> keeps_order held (guarded (Client c) body)"
  by (rule keeps_guarded) auto

lemma keeps_list [order_intros]: "held \<in> {[], [Client c]} \<Longrightarrow> keeps_order (ClientList # held) body \<Longrightarrow> keeps_order held (guarded ClientList body)"
  by (rule keeps_guarded) (auto simp: lock_rank_def)

lemmas handler_locks = postRecv_locks_def postSend_locks_def CloseClient_locks_def addClient_locks_def removeClient_locks_def
  allocateClientContext_locks_def releaseClientContext_locks_def handleClose_locks_def send_locks_def handleAccept_locks_def
  round_locks_def handleRecv_locks_def handleSend_locks_def

lemma release_keeps [order_intros]: "held \<in> {[], [Client c]} \<Longrightarrow> keeps_order held (releaseClientContext_locks to0)"
  unfolding releaseClientContext_locks_def removeClient_locks_def by (auto intro!: order_intros)

lemma close_keeps [order_intros]: "held \<in> {[], [Client c]} \<Longrightarrow> keeps_order held (CloseClient_locks c @ releaseClientContext_locks to0)"
  unfolding CloseClient_locks_def by (auto intro!: order_intros)

lemma completion_keeps: "keeps_order [] (completion_locks e)"
  by (cases e) (auto simp: handler_locks split: option.splits intro!: order_intros)

lemma worker_disciplined: "disciplined lock_rank [] (worker_locks work i)"
proof -
  have "keeps_order [] (concat (map completion_locks (work ! i)))"
    by (intro keeps_concat) (auto simp: completion_keeps)
  from this [unfolded keeps_order_def, rule_format, of "[]"] show ?thesis by (simp add: worker_locks_def)
qed

interpretation workers: lock_order lock_rank "worker_locks work" "length work" for work
  by unfold_locales (auto simp: worker_disciplined, simp add: worker_locks_def)

text \<open>
  C4. The workers cannot block each other. Whatever completions any number of worker threads handle, on whatever
  paths through the handlers, and however the threads are scheduled: as long as one of them has something left to
  do some thread can go on, a run has no more steps than the handlers have locks to take and give back, and from
  every state all threads come to their end, with every critical section free.
\<close>

theorem workers_never_deadlock:
  assumes "(lock_step ^^ n) (lock_start (worker_locks work)) s"
  shows "n \<le> (\<Sum>i < length work. length (worker_locks work i))
     \<and> ((\<exists>i. todo s i \<noteq> []) \<longrightarrow> (\<exists>t. lock_step s t))
     \<and> (\<exists>t. rtranclp lock_step s t \<and> (\<forall>i. todo t i = []) \<and> (\<forall>l. crit t l = None))"
proof -
  have run: "rtranclp lock_step (lock_start (worker_locks work)) s" using assms by (rule relpowp_imp_rtranclp)
  obtain t where t: "n \<le> workers.ops_left work (lock_start (worker_locks work))" "rtranclp lock_step s t" "\<forall>i. todo t i = []"
    using workers.schedule.every_run_ends [OF assms] by blast
  have "\<exists>i. todo s i \<noteq> [] \<Longrightarrow> \<exists>t. lock_step s t"
    using workers.schedule.progress workers.schedule.reachable_inv [OF run] by blast
  moreover have "crit t l = None" for l
    using workers.all_free_at_end [of work t] run t(2,3) rtranclp_trans [of lock_step] by metis
  ultimately show ?thesis using t by (auto simp: workers.ops_left_def lock_start_def)
qed

text \<open>One worker that handles an end of sending, and one that handles a close of the same client.\<close>

theorem workers_never_deadlock_witness:
  "\<exists>s. (lock_step ^^ 1) (lock_start (worker_locks [[On_send 1 True False True False False False], [On_close 1 True]])) s
     \<and> (\<exists>t. rtranclp lock_step s t \<and> (\<forall>i. todo t i = []) \<and> (\<forall>l. crit t l = None))"
proof -
  let ?start = "lock_start (worker_locks [[On_send 1 True False True False False False], [On_close 1 True]])"
  obtain s where "thread_step 0 ?start = Some s"
    by (simp add: thread_step_def lock_start_def worker_locks_def handleSend_locks_def guarded_def)
  then have step: "(lock_step ^^ 1) ?start s" by (auto simp: lock_step_def eq_OO)
  with workers_never_deadlock [OF step] show ?thesis by blast
qed

section \<open>The heartbeat scan\<close>

lemma lock_stepI: "thread_step i s = Some t \<Longrightarrow> lock_step s t"
  by (auto simp: lock_step_def)

text \<open>The scan passes clients whose sections are free.\<close>

lemma scan_passes:
  assumes "todo s i = concat (map (\<lambda>d. guarded (Client d) []) ds) @ rest" and "\<forall>d \<in> set ds. crit s (Client d) = None"
  shows "rtranclp lock_step s (s\<lparr>todo := (todo s)(i := rest)\<rparr>)"
  using assms
proof (induction ds arbitrary: s)
  case (Cons d ds)
  let ?tail = "concat (map (\<lambda>d. guarded (Client d) []) ds) @ rest"
  let ?s1 = "s\<lparr>todo := (todo s)(i := Leave (Client d) # ?tail), crit := (crit s)(Client d \<mapsto> (i, 1))\<rparr>"
  let ?s2 = "s\<lparr>todo := (todo s)(i := ?tail)\<rparr>"
  have "thread_step i s = Some ?s1" using Cons.prems by (simp add: thread_step_def guarded_def)
  moreover have "thread_step i ?s1 = Some ?s2" using Cons.prems by (simp add: thread_step_def fun_upd_idem)
  ultimately have "rtranclp lock_step s ?s2" by (meson lock_stepI converse_rtranclp_into_rtranclp rtranclp.rtrancl_refl)
  moreover have "rtranclp lock_step ?s2 (?s2\<lparr>todo := (todo ?s2)(i := rest)\<rparr>)" using Cons.prems by (intro Cons.IH) auto
  then have "rtranclp lock_step ?s2 (s\<lparr>todo := (todo s)(i := rest)\<rparr>)" by simp
  ultimately show ?case by (rule rtranclp_trans)
next
  case Nil
  then have "s\<lparr>todo := (todo s)(i := rest)\<rparr> = s" by (simp add: fun_upd_idem)
  then show ?case by (metis rtranclp.rtrancl_refl)
qed

text \<open>
  C13. The heartbeat scan breaks the order. It takes a client's section while it holds the one of the lists, whereas
  the end of a client's last output takes the lists while it holds the client's section: started together, the two
  threads reach a state in which each waits for the other, wherever the client stands in the list.
\<close>

theorem heartbeat_scan_deadlocks:
  assumes "c \<notin> set before"
  shows "\<exists>s. rtranclp lock_step
        (lock_start (\<lambda>i. if i = 0 then handleSend_locks c True False True False False to0
                          else if i = 1 then checkHeartbeat_locks (before @ c # after) else [])) s
      \<and> (\<exists>rest. todo s 0 = Enter ClientList # rest) \<and> crit s ClientList = Some (1, 1)
      \<and> (\<exists>rest. todo s 1 = Enter (Client c) # rest) \<and> crit s (Client c) = Some (0, 1)
      \<and> (\<nexists>t. lock_step s t)"
proof -
  let ?scan = "concat (map (\<lambda>d. guarded (Client d) []) before)"
  let ?rest = "Enter (Client c) # Leave (Client c) # concat (map (\<lambda>d. guarded (Client d) []) after) @ [Leave ClientList]"
  let ?progs = "\<lambda>i. if i = 0 then handleSend_locks c True False True False False to0
                    else if i = (1 :: nat) then checkHeartbeat_locks (before @ c # after) else []"
  let ?w = "[Enter ClientList, Leave ClientList, Leave (Client c)]"
  let ?s1 = "\<lparr>todo = ?progs(0 := ?w), crit = (\<lambda>l. None)(Client c \<mapsto> (0, 1))\<rparr>"
  let ?s2 = "?s1\<lparr>todo := (todo ?s1)(1 := ?scan @ ?rest), crit := (crit ?s1)(ClientList \<mapsto> (1, 1))\<rparr>"
  let ?s3 = "?s2\<lparr>todo := (todo ?s2)(1 := ?rest)\<rparr>"
  have w: "handleSend_locks c True False True False False to0 = Enter (Client c) # ?w"
    by (simp add: handleSend_locks_def releaseClientContext_locks_def removeClient_locks_def guarded_def)
  have "thread_step 0 (lock_start ?progs) = Some ?s1" by (simp add: thread_step_def lock_start_def w)
  moreover have "thread_step 1 ?s1 = Some ?s2"
    by (simp add: thread_step_def checkHeartbeat_locks_def guarded_def)
  moreover have "rtranclp lock_step ?s2 ?s3" using assms by (intro scan_passes) auto
  ultimately have run: "rtranclp lock_step (lock_start ?progs) ?s3"
    by (meson lock_stepI converse_rtranclp_into_rtranclp)
  have "thread_step i ?s3 = None" for i
    by (cases "i = 0"; cases "i = 1") (simp_all add: thread_step_def)
  then have "\<nexists>t. lock_step ?s3 t" by (simp add: lock_step_def)
  with run show ?thesis by (intro exI [of _ ?s3]) simp
qed

theorem heartbeat_scan_deadlocks_witness:
  "\<exists>s. rtranclp lock_step
        (lock_start (\<lambda>i. if i = 0 then handleSend_locks 7 True False True False False False
                          else if i = 1 then checkHeartbeat_locks ([4] @ 7 # []) else [])) s \<and> (\<nexists>t. lock_step s t)"
  using heartbeat_scan_deadlocks [of 7 "[4]" False "[]"] by auto

end
