(* ===== verification/PoolThreads.thy ===== *)
theory PoolThreads
  imports Mempool
begin

text \<open>
  Mempool.h with threads: the statements of \<^verbatim>\<open>push\<close>, \<^verbatim>\<open>pop\<close> and \<^verbatim>\<open>alloc\<close> one by one, in any number of threads, under
  the critical section that \<^verbatim>\<open>LockGuard\<close> enters and leaves. The calls of \<open>Mempool\<close> are what such a call promises;
  the result here is that the threads keep that promise.
\<close>

section \<open>The statements\<close>

text \<open>
  Where a thread is: outside; at the test of \<^verbatim>\<open>pop\<close>; in the loop of \<^verbatim>\<open>alloc\<close> with its counter; before \<^verbatim>\<open>front\<close> and,
  with the object, before \<^verbatim>\<open>m_mempool.pop()\<close>; before the \<^verbatim>\<open>push\<close> of an object; before the destructor of the guard.
\<close>

datatype pool_at = P_idle | P_test | P_alloc int | P_front | P_drop nat | P_push nat | P_leave

text \<open>\<open>owned\<close>: which thread holds which object outside the pool.\<close>

record pool_threads =
  shared :: pool
  section_owner :: "nat option"
  at :: "nat \<Rightarrow> pool_at"
  owned :: "(nat \<times> nat) list"

definition pool_threads_start :: pool_threads where
  "pool_threads_start = \<lparr>shared = pool_new, section_owner = None, at = (\<lambda>i. P_idle), owned = []\<rparr>"

definition goto :: "nat \<Rightarrow> pool_at \<Rightarrow> pool_threads \<Rightarrow> pool_threads" where
  "goto i a c = c\<lparr>at := (at c)(i := a)\<rparr>"

text \<open>The next statement of a thread inside a call; \<open>None\<close> is \<^verbatim>\<open>front\<close> of an empty queue, or a thread outside.\<close>

definition pool_inside :: "nat \<Rightarrow> pool_threads \<Rightarrow> pool_threads option" where
  "pool_inside i c = (let p = shared c in case at c i of
      P_idle \<Rightarrow> None
    | P_test \<Rightarrow> Some (goto i (if m_mempool p = [] then P_alloc 0 else P_front) c)
    | P_alloc k \<Rightarrow> Some (if k < m_nAllocSize p
        then goto i (P_alloc (k + 1)) (c\<lparr>shared := p\<lparr>m_mempool := m_mempool p @ [next_obj p], next_obj := next_obj p + 1\<rparr>\<rparr>)
        else goto i P_front c)
    | P_front \<Rightarrow> (case m_mempool p of [] \<Rightarrow> None | obj # _ \<Rightarrow> Some (goto i (P_drop obj) c))
    | P_drop obj \<Rightarrow> Some (goto i P_leave (c\<lparr>shared := p\<lparr>m_mempool := tl (m_mempool p)\<rparr>, owned := (i, obj) # owned c\<rparr>))
    | P_push obj \<Rightarrow> Some (goto i P_leave (c\<lparr>shared := pool_push obj p, owned := remove1 (i, obj) (owned c)\<rparr>))
    | P_leave \<Rightarrow> Some (goto i P_idle (c\<lparr>section_owner := None\<rparr>)))"

text \<open>A call begins when its guard enters the section. A thread gives back an object that it holds.\<close>

inductive pool_threads_step :: "pool_threads \<Rightarrow> pool_threads \<Rightarrow> bool" where
  call_pop: "at c i = P_idle \<Longrightarrow> section_owner c = None \<Longrightarrow>
    pool_threads_step c (goto i P_test (c\<lparr>section_owner := Some i\<rparr>))"
| call_push: "at c i = P_idle \<Longrightarrow> section_owner c = None \<Longrightarrow> (i, obj) \<in> set (owned c) \<Longrightarrow>
    pool_threads_step c (goto i (P_push obj) (c\<lparr>section_owner := Some i\<rparr>))"
| inside: "pool_inside i c = Some d \<Longrightarrow> pool_threads_step c d"

section \<open>The simulation\<close>

text \<open>
  \<open>pool_sim c p\<close>: the pool \<open>p\<close> of the calls that have been made so far, for a state \<open>c\<close> of the threads. Only the
  owner of the section is inside a call; \<open>filled p\<close> is what its \<^verbatim>\<open>alloc\<close> makes of \<open>p\<close>.
\<close>

definition filled :: "pool \<Rightarrow> pool" where
  "filled p = (if m_mempool p = [] then pool_alloc p else p)"

definition allocated :: "int \<Rightarrow> pool \<Rightarrow> pool" where
  "allocated k p = p\<lparr>m_mempool := [next_obj p ..< next_obj p + nat k], next_obj := next_obj p + nat k\<rparr>"

definition inside_ok :: "nat \<Rightarrow> pool_threads \<Rightarrow> pool \<Rightarrow> bool" where
  "inside_ok i c p = (case at c i of
      P_idle \<Rightarrow> False
    | P_test \<Rightarrow> shared c = p
    | P_alloc k \<Rightarrow> m_mempool p = [] \<and> 0 \<le> k \<and> k \<le> m_nAllocSize p \<and> shared c = allocated k p
    | P_front \<Rightarrow> shared c = filled p
    | P_drop obj \<Rightarrow> shared c = filled p \<and> m_mempool (filled p) \<noteq> [] \<and> hd (m_mempool (filled p)) = obj
    | P_push obj \<Rightarrow> shared c = p \<and> (i, obj) \<in> set (owned c)
    | P_leave \<Rightarrow> shared c = p)"

definition pool_sim :: "pool_threads \<Rightarrow> pool \<Rightarrow> bool" where
  "pool_sim c p \<longleftrightarrow> (case section_owner c of
      None \<Rightarrow> shared c = p \<and> (\<forall>j. at c j = P_idle)
    | Some i \<Rightarrow> inside_ok i c p \<and> (\<forall>j. j \<noteq> i \<longrightarrow> at c j = P_idle))"

lemma sim_inside:
  assumes "pool_sim c p" and "at c i \<noteq> P_idle"
  shows "section_owner c = Some i" "inside_ok i c p" "\<forall>j. j \<noteq> i \<longrightarrow> at c j = P_idle"
proof -
  obtain k where k: "section_owner c = Some k" "inside_ok k c p" "\<forall>j. j \<noteq> k \<longrightarrow> at c j = P_idle"
    using assms by (auto simp: pool_sim_def split: option.splits)
  then have "k = i" using assms(2) by metis
  with k show "section_owner c = Some i" "inside_ok i c p" "\<forall>j. j \<noteq> i \<longrightarrow> at c j = P_idle" by simp_all
qed

lemma goto_fields [simp]:
  "shared (goto i a c) = shared c" "section_owner (goto i a c) = section_owner c" "owned (goto i a c) = owned c"
  "at (goto i a c) = (at c)(i := a)"
  by (simp_all add: goto_def)

lemma filled_ok: "pool_ok (p, out) \<Longrightarrow> pool_ok (filled p, out) \<and> m_mempool (filled p) \<noteq> []"
  using pool_alloc_ok by (auto simp: filled_def pool_alloc_def pool_ok_def)

lemma pop_filled: "m_mempool (filled p) = obj # rest \<Longrightarrow> pool_pop p = Some (obj, (filled p)\<lparr>m_mempool := rest\<rparr>)"
  by (simp add: pool_pop_def filled_def Let_def)

lemma allocated_step:
  "0 \<le> k \<Longrightarrow> (let q = allocated k p in q\<lparr>m_mempool := m_mempool q @ [next_obj q], next_obj := next_obj q + 1\<rparr>) = allocated (k + 1) p"
  by (simp add: allocated_def Let_def nat_add_distrib)

lemma allocated_all: "m_mempool p = [] \<Longrightarrow> allocated (m_nAllocSize p) p = filled p"
  by (simp add: allocated_def filled_def pool_alloc_def)

lemma map_snd_remove1: "distinct (map snd xs) \<Longrightarrow> (i, x) \<in> set xs \<Longrightarrow> map snd (remove1 (i, x) xs) = remove1 x (map snd xs)"
  by (induction xs) (auto simp: image_iff)

text \<open>A statement inside a call either completes the effect of the call or leaves the calls made so far as they are.\<close>

lemma inside_sim:
  assumes "pool_sim c p" and "pool_ok (p, map snd (owned c))" and "pool_inside i c = Some d"
  shows "\<exists>q. (q = p \<and> owned d = owned c \<or> pool_steps (p, map snd (owned c)) (q, map snd (owned d))) \<and> pool_sim d q"
proof -
  have "at c i \<noteq> P_idle" using assms(3) by (auto simp: pool_inside_def Let_def)
  note own = sim_inside [OF assms(1) this]
  note defs = pool_inside_def inside_ok_def pool_sim_def Let_def
  show ?thesis
  proof (cases "at c i")
    case P_idle
    then show ?thesis using \<open>at c i \<noteq> P_idle\<close> by simp
  next
    case P_test
    then have "d = goto i (if m_mempool p = [] then P_alloc 0 else P_front) c" "shared c = p" using assms(3) own(2) by (auto simp: defs)
    then show ?thesis using own assms(2) by (intro exI [of _ p]) (auto simp: defs allocated_def filled_def pool_ok_def)
  next
    case (P_alloc k)
    then have k: "m_mempool p = []" "0 \<le> k" "k \<le> m_nAllocSize p" "shared c = allocated k p" using own(2) by (auto simp: defs)
    have size: "m_nAllocSize (allocated k p) = m_nAllocSize p" by (simp add: allocated_def)
    show ?thesis
    proof (cases "k < m_nAllocSize p")
      case True
      then have "d = goto i (P_alloc (k + 1)) (c\<lparr>shared := allocated (k + 1) p\<rparr>)"
        using assms(3) P_alloc k(4) allocated_step [OF k(2), of p] size by (simp add: pool_inside_def Let_def)
      then show ?thesis using own k True by (intro exI [of _ p]) (auto simp: inside_ok_def pool_sim_def)
    next
      case False
      then have "d = goto i P_front c" "shared c = filled p"
        using assms(3) P_alloc k size allocated_all [OF k(1)] by (auto simp: pool_inside_def Let_def)
      then show ?thesis using own by (intro exI [of _ p]) (auto simp: inside_ok_def pool_sim_def)
    qed
  next
    case P_front
    then have f: "shared c = filled p" using own(2) by (simp add: defs)
    then obtain obj rest where "m_mempool (filled p) = obj # rest" using filled_ok [OF assms(2)] by (cases "m_mempool (filled p)") auto
    moreover from this have "d = goto i (P_drop obj) c" using assms(3) P_front f by (simp add: pool_inside_def Let_def)
    ultimately show ?thesis using own f by (intro exI [of _ p]) (auto simp: inside_ok_def pool_sim_def)
  next
    case (P_drop obj)
    then obtain rest where f: "shared c = filled p" "m_mempool (filled p) = obj # rest"
      using own(2) by (cases "m_mempool (filled p)") (auto simp: defs)
    let ?q = "(filled p)\<lparr>m_mempool := rest\<rparr>"
    have d: "d = goto i P_leave (c\<lparr>shared := ?q, owned := (i, obj) # owned c\<rparr>)"
      using assms(3) P_drop f by (simp add: pool_inside_def Let_def)
    have "pool_step Pop (p, map snd (owned c)) = Some (?q, map snd (owned d))"
      using pop_filled [OF f(2)] d by (simp add: pool_step_def)
    then show ?thesis using own d by (intro exI [of _ ?q]) (auto simp: pool_steps_def inside_ok_def pool_sim_def)
  next
    case (P_push obj)
    then have f: "shared c = p" "(i, obj) \<in> set (owned c)" using own(2) by (auto simp: defs)
    have d: "d = goto i P_leave (c\<lparr>shared := pool_push obj p, owned := remove1 (i, obj) (owned c)\<rparr>)"
      using assms(3) P_push f by (simp add: pool_inside_def Let_def)
    have "distinct (map snd (owned c))" using assms(2) by (simp add: pool_ok_def)
    then have "pool_step (Push obj) (p, map snd (owned c)) = Some (pool_push obj p, map snd (owned d))"
      using f(2) d map_snd_remove1 [of "owned c" i obj] by (force simp: pool_step_def image_iff)
    then show ?thesis using own d by (intro exI [of _ "pool_push obj p"]) (auto simp: pool_steps_def inside_ok_def pool_sim_def)
  next
    case P_leave
    then have "d = goto i P_idle (c\<lparr>section_owner := None\<rparr>)" "shared c = p" using assms(3) own(2) by (auto simp: defs)
    then show ?thesis using own by (intro exI [of _ p]) (auto simp: pool_sim_def)
  qed
qed

lemma threads_step_sim:
  assumes "pool_threads_step c d" and "pool_sim c p" and "pool_ok (p, map snd (owned c))"
  shows "\<exists>q. rtranclp pool_steps (p, map snd (owned c)) (q, map snd (owned d)) \<and> pool_sim d q"
  using assms
proof cases
  case (call_pop i)
  then show ?thesis using assms(2) by (intro exI [of _ p]) (auto simp: pool_sim_def inside_ok_def)
next
  case (call_push i obj)
  then show ?thesis using assms(2) by (intro exI [of _ p]) (auto simp: pool_sim_def inside_ok_def)
next
  case (inside i)
  obtain q where "q = p \<and> owned d = owned c \<or> pool_steps (p, map snd (owned c)) (q, map snd (owned d))" "pool_sim d q"
    using inside_sim [OF assms(2,3) inside] by blast
  then show ?thesis by (intro exI [of _ q]) (auto simp: r_into_rtranclp)
qed

text \<open>What is kept: the calls made so far are a run of the pool.\<close>

definition refines_pool :: "pool_threads \<Rightarrow> bool" where
  "refines_pool c \<longleftrightarrow> (\<exists>p. rtranclp pool_steps (pool_new, []) (p, map snd (owned c)) \<and> pool_sim c p)"

interpretation pool_threads: invariant_machine pool_threads_step refines_pool pool_threads_start
proof unfold_locales
  fix c d
  assume "refines_pool c" "pool_threads_step c d"
  then obtain p where p: "rtranclp pool_steps (pool_new, []) (p, map snd (owned c))" "pool_sim c p" by (auto simp: refines_pool_def)
  then have "pool_ok (p, map snd (owned c))" using mempool.reachable_inv by blast
  then show "refines_pool d"
    using threads_step_sim [OF \<open>pool_threads_step c d\<close> p(2)] p(1) unfolding refines_pool_def by (meson rtranclp_trans)
next
  show "refines_pool pool_threads_start"
    by (auto simp: refines_pool_def pool_threads_start_def pool_sim_def)
qed

text \<open>
  C5. The pool keeps its promise to threads. In every interleaving of the statements of \<^verbatim>\<open>push\<close>, \<^verbatim>\<open>pop\<close> and \<^verbatim>\<open>alloc\<close> in
  any number of threads, the objects the threads hold are those that some sequence of atomic calls hands out;
  whenever the section is free the pool is the one these calls leave. So no object is held twice; no two threads
  are inside the pool; and the one that is inside can go on, in particular the queue is never empty at \<^verbatim>\<open>front\<close>.
\<close>

theorem threads_refine_pool:
  assumes "rtranclp pool_threads_step pool_threads_start c"
  shows "(\<exists>p. rtranclp pool_steps (pool_new, []) (p, map snd (owned c)) \<and> (section_owner c = None \<longrightarrow> shared c = p))
     \<and> distinct (map snd (owned c))
     \<and> (\<forall>i j. at c i \<noteq> P_idle \<and> at c j \<noteq> P_idle \<longrightarrow> i = j)
     \<and> (\<forall>i. at c i \<noteq> P_idle \<longrightarrow> (\<exists>d. pool_inside i c = Some d))"
proof -
  obtain p where p: "rtranclp pool_steps (pool_new, []) (p, map snd (owned c))" "pool_sim c p"
    using pool_threads.reachable_inv [OF assms] by (auto simp: refines_pool_def)
  have ok: "pool_ok (p, map snd (owned c))" using mempool.reachable_inv [OF p(1)] .
  note one = sim_inside [OF p(2)]
  have "\<exists>d. pool_inside i c = Some d" if "at c i \<noteq> P_idle" for i
    using one(2) [OF that] filled_ok [OF ok] that by (auto simp: pool_inside_def inside_ok_def Let_def split: pool_at.splits list.splits)
  moreover have "i = j" if "at c i \<noteq> P_idle" "at c j \<noteq> P_idle" for i j using one(1) [OF that(1)] one(1) [OF that(2)] by simp
  moreover have "section_owner c = None \<longrightarrow> shared c = p" using p(2) by (auto simp: pool_sim_def)
  moreover have "distinct (map snd (owned c))" using ok by (simp add: pool_ok_def)
  ultimately show ?thesis using p(1) by (intro conjI) (metis, metis+)
qed

theorem threads_refine_pool_witness:
  "\<exists>c. rtranclp pool_threads_step pool_threads_start c \<and> at c 3 = P_test \<and> (\<forall>j. at c j \<noteq> P_idle \<longrightarrow> j = 3)
     \<and> (\<exists>d. pool_inside 3 c = Some d)"
proof -
  let ?c = "goto 3 P_test (pool_threads_start\<lparr>section_owner := Some 3\<rparr>)"
  have "pool_threads_step pool_threads_start ?c" by (rule call_pop) (simp_all add: pool_threads_start_def)
  then have run: "rtranclp pool_threads_step pool_threads_start ?c" by blast
  have "at ?c 3 = P_test" by simp
  with threads_refine_pool [OF run] run show ?thesis by (metis pool_at.distinct(1))
qed

end
