(* ===== verification/AcceptRace.thy ===== *)
theory AcceptRace
  imports Runs IocpServer
begin

text \<open>
  The connection limit of IocpServer.cpp with several workers, statement by statement. \<^verbatim>\<open>handleAccept\<close> compares
  \<^verbatim>\<open>m_nConnClientCnt\<close> with the limit and then increments it with \<^verbatim>\<open>InterlockedIncrement\<close>; the two are not one
  operation, and every worker that handles an accept can be between them. A worker handles an accept that has completed;
  only the ten accept contexts of \<^verbatim>\<open>initAcceptIoContext\<close> are ever outstanding, and one is outstanding again when
  its handler posts it again. \<^verbatim>\<open>CloseClient\<close> decrements the count with \<^verbatim>\<open>InterlockedDecrement\<close>.
\<close>

section \<open>The steps\<close>

text \<open>
  Where a worker is: waiting for a completion; with an accept before the comparison, refused by it, past it, or
  past the increment; or past \<^verbatim>\<open>postAccept\<close>, adding the connection to the lists.
\<close>

datatype accept_pos = Waiting | Comparing | Refused | Passed | Counted | Adding

text \<open>\<open>open_conns\<close>: the connections that \<^verbatim>\<open>CloseClient\<close> can close; \<open>outstanding\<close>: the accepts with the kernel.\<close>

record limit_state =
  conn_count :: u32
  open_conns :: nat
  outstanding :: nat
  at :: "accept_pos list"

definition limit_start :: "nat \<Rightarrow> limit_state" where
  "limit_start workers = \<lparr>conn_count = 0, open_conns = 0, outstanding = POST_ACCEPT_CNT, at = replicate workers Waiting\<rparr>"

definition go :: "nat \<Rightarrow> accept_pos \<Rightarrow> limit_state \<Rightarrow> limit_state" where
  "go w p s = s\<lparr>at := (at s)[w := p]\<rparr>"

text \<open>
  An accept whose context is not posted again, because \<^verbatim>\<open>associateWithCompletionPort\<close> or \<^verbatim>\<open>postAccept\<close> fails, is
  lost; in the first case so is the connection, which stays in the count.
\<close>

inductive limit_step :: "u32 \<Rightarrow> limit_state \<Rightarrow> limit_state \<Rightarrow> bool" for max_conn where
  take: "w < length (at s) \<Longrightarrow> at s ! w = Waiting \<Longrightarrow> 0 < outstanding s \<Longrightarrow>
    limit_step max_conn s (go w Comparing (s\<lparr>outstanding := outstanding s - 1\<rparr>))"
| full: "w < length (at s) \<Longrightarrow> at s ! w = Comparing \<Longrightarrow> conn_count s \<ge> max_conn \<Longrightarrow> limit_step max_conn s (go w Refused s)"
| pass: "w < length (at s) \<Longrightarrow> at s ! w = Comparing \<Longrightarrow> \<not> conn_count s \<ge> max_conn \<Longrightarrow> limit_step max_conn s (go w Passed s)"
| refused: "w < length (at s) \<Longrightarrow> at s ! w = Refused \<Longrightarrow>
    limit_step max_conn s (go w Waiting (s\<lparr>outstanding := outstanding s + (if posted then 1 else 0)\<rparr>))"
| increment: "w < length (at s) \<Longrightarrow> at s ! w = Passed \<Longrightarrow>
    limit_step max_conn s (go w Counted (s\<lparr>conn_count := conn_count s + 1\<rparr>))"
| not_associated: "w < length (at s) \<Longrightarrow> at s ! w = Counted \<Longrightarrow> limit_step max_conn s (go w Waiting s)"
| post: "w < length (at s) \<Longrightarrow> at s ! w = Counted \<Longrightarrow>
    limit_step max_conn s (go w Adding (s\<lparr>outstanding := outstanding s + (if posted then 1 else 0), open_conns := open_conns s + 1\<rparr>))"
| added: "w < length (at s) \<Longrightarrow> at s ! w = Adding \<Longrightarrow> limit_step max_conn s (go w Waiting s)"
| close: "0 < open_conns s \<Longrightarrow> limit_step max_conn s (s\<lparr>open_conns := open_conns s - 1, conn_count := conn_count s - 1\<rparr>)"

section \<open>The invariant\<close>

definition number :: "accept_pos set \<Rightarrow> limit_state \<Rightarrow> nat" where
  "number P s = length (filter (\<lambda>p. p \<in> P) (at s))"

text \<open>
  With \<open>m\<close> as the limit and \<open>n\<close> workers: no more than ten accepts are outstanding or in the hands of a worker, the
  count covers the open connections, and it is bounded together with the workers that are about to increment it.
\<close>

abbreviation holding :: "accept_pos set" where
  "holding \<equiv> {Comparing, Refused, Passed, Counted}"

definition limit_inv :: "u32 \<Rightarrow> nat \<Rightarrow> limit_state \<Rightarrow> bool" where
  "limit_inv m n s \<longleftrightarrow> length (at s) = n \<and> outstanding s + number holding s \<le> POST_ACCEPT_CNT
     \<and> open_conns s + number {Counted} s \<le> unat (conn_count s)
     \<and> unat (conn_count s) + number {Passed} s \<le> unat m + (min n POST_ACCEPT_CNT - 1)"

lemma length_filter_update:
  "i < length xs \<Longrightarrow> length (filter P (xs[i := y])) + (if P (xs ! i) then 1 else 0) = length (filter P xs) + (if P y then 1 else 0)"
proof (induction xs arbitrary: i)
  case (Cons x xs)
  then show ?case by (cases i) auto
qed simp

lemma number_go:
  "w < length (at s) \<Longrightarrow> number P (go w p s) + (if at s ! w \<in> P then 1 else 0) = number P s + (if p \<in> P then 1 else 0)"
  using length_filter_update [of w "at s" "\<lambda>p. p \<in> P" p] by (simp add: number_def go_def)

lemma number_fields [simp]:
  "number P (s\<lparr>conn_count := c\<rparr>) = number P s" "number P (s\<lparr>open_conns := k\<rparr>) = number P s" "number P (s\<lparr>outstanding := k\<rparr>) = number P s"
  by (simp_all add: number_def)

lemma go_fields [simp]:
  "conn_count (go w p s) = conn_count s" "open_conns (go w p s) = open_conns s" "outstanding (go w p s) = outstanding s"
  "length (at (go w p s)) = length (at s)"
  by (simp_all add: go_def)

lemma number_le: "number P s \<le> length (at s)"
  by (simp add: number_def)

lemma passed_holding: "number {Passed} s \<le> number holding s"
proof -
  have "length (filter (\<lambda>p. p \<in> {Passed}) ps) \<le> length (filter (\<lambda>p. p \<in> holding) ps)" for ps by (induction ps) auto
  then show ?thesis by (simp add: number_def)
qed

text \<open>The three numbers of the invariant after a step of the worker \<open>w\<close>.\<close>

lemma numbers_go:
  assumes "w < length (at s)"
  shows "number {Passed} (go w p s) + (if at s ! w = Passed then 1 else 0) = number {Passed} s + (if p = Passed then 1 else 0)"
    and "number {Counted} (go w p s) + (if at s ! w = Counted then 1 else 0) = number {Counted} s + (if p = Counted then 1 else 0)"
    and "number holding (go w p s) + (if at s ! w \<in> holding then 1 else 0) = number holding s + (if p \<in> holding then 1 else 0)"
  using number_go [OF assms, of "{Passed}" p] number_go [OF assms, of "{Counted}" p] number_go [OF assms, of holding p] by simp_all

lemma limit_inv_step:
  assumes inv: "limit_inv m n s" and step: "limit_step m s t" and small: "unat m + min n POST_ACCEPT_CNT \<le> 2 ^ 32"
  shows "limit_inv m n t"
proof -
  have i: "length (at s) = n" "outstanding s + number holding s \<le> POST_ACCEPT_CNT" "open_conns s + number {Counted} s \<le> unat (conn_count s)"
    "unat (conn_count s) + number {Passed} s \<le> unat m + (min n POST_ACCEPT_CNT - 1)" using inv by (auto simp: limit_inv_def)
  from step show ?thesis
  proof cases
    case (take w)
    then show ?thesis using i numbers_go [of w "s\<lparr>outstanding := outstanding s - 1\<rparr>" Comparing] by (simp add: limit_inv_def)
  next
    case (full w)
    then show ?thesis using i numbers_go [of w s Refused] by (simp add: limit_inv_def)
  next
    case (pass w)
    have "number {Passed} t \<le> POST_ACCEPT_CNT" "number {Passed} t \<le> n"
      using i numbers_go [of w s Passed] pass passed_holding [of t] number_le [of "{Passed}" t] by simp_all
    moreover have "unat (conn_count s) < unat m" using pass by (simp add: word_le_nat_alt)
    ultimately show ?thesis using i numbers_go [of w s Passed] pass by (simp add: limit_inv_def)
  next
    case (refused w posted)
    then show ?thesis
      using i numbers_go [of w "s\<lparr>outstanding := outstanding s + (if posted then 1 else 0)\<rparr>" Waiting]
      by (cases posted) (simp_all add: limit_inv_def)
  next
    case (increment w)
    let ?s = "s\<lparr>conn_count := conn_count s + 1\<rparr>"
    note g = numbers_go [of w ?s Counted]
    have "0 < number {Passed} s" using g(1) increment by simp
    moreover have "0 < min n POST_ACCEPT_CNT" using increment i(1) by (simp add: POST_ACCEPT_CNT_def)
    ultimately have "unat (conn_count s) + 1 < 2 ^ 32" using i(4) small by linarith
    then have "unat (conn_count s + 1) = unat (conn_count s) + 1" by (simp add: unat_word_ariths)
    then show ?thesis using i g increment by (simp add: limit_inv_def)
  next
    case (not_associated w)
    then show ?thesis using i numbers_go [of w s Waiting] by (simp add: limit_inv_def)
  next
    case (post w posted)
    then show ?thesis
      using i numbers_go [of w "s\<lparr>outstanding := outstanding s + (if posted then 1 else 0), open_conns := open_conns s + 1\<rparr>" Adding]
      by (cases posted) (simp_all add: limit_inv_def)
  next
    case (added w)
    then show ?thesis using i numbers_go [of w s Waiting] by (simp add: limit_inv_def)
  next
    case close
    then have "0 < unat (conn_count s)" using i(3) by linarith
    then have "unat (conn_count s - 1) = unat (conn_count s) - 1" by (intro unat_minus_one) auto
    then show ?thesis using i close by (simp add: limit_inv_def) linarith
  qed
qed

lemma limit_inv_start: "limit_inv m n (limit_start n)"
  by (simp add: limit_inv_def limit_start_def number_def)

text \<open>The invariant with its side condition, which no step changes.\<close>

interpretation limit: invariant_machine "limit_step m" "\<lambda>s. unat m + min n POST_ACCEPT_CNT \<le> 2 ^ 32 \<longrightarrow> limit_inv m n s" "limit_start n" for m n
  by unfold_locales (use limit_inv_step limit_inv_start in blast)+

section \<open>Reaching the bound\<close>

lemma steps_trans: "limit_step m s t \<Longrightarrow> rtranclp (limit_step m) t u \<Longrightarrow> rtranclp (limit_step m) s u"
  by (rule converse_rtranclp_into_rtranclp)

text \<open>A state in which the first \<open>k\<close> workers are at \<open>p\<close> and the others wait.\<close>

definition spread :: "nat \<Rightarrow> nat \<Rightarrow> accept_pos \<Rightarrow> nat \<Rightarrow> nat \<Rightarrow> limit_state" where
  "spread n c p k out = \<lparr>conn_count = word_of_nat c, open_conns = c, outstanding = out, at = replicate k p @ replicate (n - k) Waiting\<rparr>"

lemma spread_0: "limit_start n = spread n 0 Passed 0 POST_ACCEPT_CNT"
  by (simp add: limit_start_def spread_def)

text \<open>One worker after the other takes an accept and passes the comparison.\<close>

lemma all_pass:
  assumes "word_of_nat c < m" and "k \<le> n" and "k \<le> POST_ACCEPT_CNT"
  shows "rtranclp (limit_step m) (spread n c Passed 0 POST_ACCEPT_CNT) (spread n c Passed k (POST_ACCEPT_CNT - k))"
  using assms(2,3)
proof (induction k)
  case (Suc k)
  let ?s = "spread n c Passed k (POST_ACCEPT_CNT - k)" and ?t = "spread n c Passed (Suc k) (POST_ACCEPT_CNT - Suc k)"
  let ?u = "go k Comparing (?s\<lparr>outstanding := outstanding ?s - 1\<rparr>)"
  have w: "k < length (at ?s)" "at ?s ! k = Waiting" "0 < outstanding ?s" using Suc.prems by (simp_all add: spread_def nth_append)
  have 1: "limit_step m ?s ?u" using w by (rule limit_step.take)
  have "k < length (at ?u)" "at ?u ! k = Comparing" "\<not> conn_count ?u \<ge> m"
    using w assms(1) by (simp_all add: go_def) (simp add: spread_def)
  then have 2: "limit_step m ?u (go k Passed ?u)" by (rule limit_step.pass)
  have "replicate (n - k) Waiting = Waiting # replicate (n - Suc k) Waiting" using Suc.prems by (simp add: Suc_diff_Suc flip: replicate_Suc)
  then have "go k Passed ?u = ?t"
    using Suc.prems by (simp add: go_def spread_def list_update_append replicate_append_same)
  with 1 2 have "rtranclp (limit_step m) ?s ?t" by auto
  with Suc show ?case by (meson Suc_leD rtranclp_trans)
qed simp

text \<open>Then all of them increment the count.\<close>

lemma all_increment:
  assumes "at s = replicate i Counted @ replicate k Passed @ ps"
  shows "\<exists>t. rtranclp (limit_step m) s t \<and> conn_count t = conn_count s + word_of_nat k"
  using assms
proof (induction k arbitrary: s i)
  case (Suc k)
  let ?t = "go i Counted (s\<lparr>conn_count := conn_count s + 1\<rparr>)"
  have w: "i < length (at s)" "at s ! i = Passed" using Suc.prems by (simp_all add: nth_append)
  have 1: "limit_step m s ?t" using w by (rule limit_step.increment)
  have "at ?t = replicate (Suc i) Counted @ replicate k Passed @ ps"
    using Suc.prems by (simp add: go_def list_update_append replicate_app_Cons_same)
  from Suc.IH [OF this] obtain u where u: "rtranclp (limit_step m) ?t u" "conn_count u = conn_count ?t + word_of_nat k" by blast
  have "conn_count u = conn_count s + word_of_nat (Suc k)" using u(2) by (simp add: add.assoc)
  then show ?case using steps_trans [OF 1 u(1)] by blast
qed auto

text \<open>A single worker accepts one connection after the other, as long as there is room.\<close>

lemma one_accept:
  assumes "word_of_nat c < m" and "0 < n"
  shows "rtranclp (limit_step m) (spread n c Passed 0 POST_ACCEPT_CNT) (spread n (Suc c) Passed 0 POST_ACCEPT_CNT)"
proof -
  let ?s = "spread n c Passed 0 POST_ACCEPT_CNT"
  have all: "rtranclp (limit_step m) ?s (spread n c Passed 1 (POST_ACCEPT_CNT - 1))"
    using assms by (intro all_pass) (simp_all add: POST_ACCEPT_CNT_def)
  obtain n' where n: "n = Suc n'" using assms(2) by (cases n) auto
  let ?p = "spread n c Passed 1 (POST_ACCEPT_CNT - 1)"
  let ?q = "go 0 Counted (?p\<lparr>conn_count := conn_count ?p + 1\<rparr>)"
  let ?r = "go 0 Adding (?q\<lparr>outstanding := outstanding ?q + (if True then 1 else 0), open_conns := open_conns ?q + 1\<rparr>)"
  have "limit_step m ?p ?q" by (rule limit_step.increment) (simp_all add: spread_def)
  moreover have "limit_step m ?q ?r" by (rule limit_step.post) (simp_all add: spread_def go_def)
  moreover have "limit_step m ?r (go 0 Waiting ?r)" by (rule limit_step.added) (simp_all add: spread_def go_def)
  moreover have "go 0 Waiting ?r = spread n (Suc c) Passed 0 POST_ACCEPT_CNT"
    by (simp add: spread_def go_def n POST_ACCEPT_CNT_def add.commute)
  ultimately show ?thesis
    using rtranclp.rtrancl_into_rtrancl [OF rtranclp.rtrancl_into_rtrancl [OF rtranclp.rtrancl_into_rtrancl [OF all]]] by simp
qed

lemma fill_up: "c \<le> unat m \<Longrightarrow> 0 < n \<Longrightarrow> rtranclp (limit_step m) (limit_start n) (spread n c Passed 0 POST_ACCEPT_CNT)"
proof (induction c)
  case (Suc c)
  have "unat (word_of_nat c :: u32) = c" using Suc.prems(1) unat_less_2_32 [of m] by (intro unat_word_of_nat) simp
  then have "(word_of_nat c :: u32) < m" using Suc.prems(1) by (simp add: word_less_nat_alt)
  from rtranclp_trans [OF Suc.IH one_accept [OF this]] Suc.prems show ?case by simp
qed (simp add: spread_0)

text \<open>
  C14. How far the connection count can pass its limit. With \<open>n\<close> workers it never exceeds the limit by more than
  \<open>min n 10 - 1\<close>, as at most ten accepts are outstanding, whatever connections come and go and whatever calls fail; a
  single worker keeps the limit. With a positive limit the excess is reached: all the workers that can have an accept
  compare before the first of them increments. The limit is below \<open>2 ^ 32\<close> by enough for the count not to wrap around.
\<close>

theorem connection_limit_with_workers:
  assumes "0 < n" and "0 < m" and "unat m + min n 10 \<le> 2 ^ 32"
  shows "(\<forall>s. rtranclp (limit_step m) (limit_start n) s \<longrightarrow> unat (conn_count s) \<le> unat m + (min n 10 - 1))
     \<and> (\<exists>s. rtranclp (limit_step m) (limit_start n) s \<and> unat (conn_count s) = unat m + (min n 10 - 1))"
proof
  show "\<forall>s. rtranclp (limit_step m) (limit_start n) s \<longrightarrow> unat (conn_count s) \<le> unat m + (min n 10 - 1)"
    using limit.reachable_inv [of m n] assms(3) by (force simp: limit_inv_def POST_ACCEPT_CNT_def)
  let ?c = "unat m - 1" and ?k = "min n POST_ACCEPT_CNT"
  have m: "0 < unat m" using assms(2) by (simp add: word_less_nat_alt)
  have "unat (word_of_nat ?c :: u32) = ?c" using m unat_less_2_32 [of m] by (intro unat_word_of_nat) simp
  then have less: "(word_of_nat ?c :: u32) < m" using m by (simp add: word_less_nat_alt)
  have "rtranclp (limit_step m) (limit_start n) (spread n ?c Passed ?k (POST_ACCEPT_CNT - ?k))"
    using rtranclp_trans [OF fill_up all_pass [OF less]] assms(1) by simp
  moreover have "at (spread n ?c Passed ?k (POST_ACCEPT_CNT - ?k)) = replicate 0 Counted @ replicate ?k Passed @ replicate (n - ?k) Waiting"
    by (simp add: spread_def)
  from all_increment [OF this] obtain s where
    "rtranclp (limit_step m) (spread n ?c Passed ?k (POST_ACCEPT_CNT - ?k)) s" "conn_count s = word_of_nat ?c + word_of_nat ?k"
    by (auto simp: spread_def)
  moreover have "unat (word_of_nat (?c + ?k) :: u32) = ?c + ?k"
    using m assms(1,3) by (intro unat_word_of_nat) (simp add: POST_ACCEPT_CNT_def)
  then have "unat (word_of_nat ?c + word_of_nat ?k :: u32) = unat m + (min n 10 - 1)"
    using m assms(1) by (simp only: of_nat_add) (simp add: POST_ACCEPT_CNT_def)
  ultimately show "\<exists>s. rtranclp (limit_step m) (limit_start n) s \<and> unat (conn_count s) = unat m + (min n 10 - 1)"
    by (metis rtranclp_trans)
qed

theorem connection_limit_with_workers_witness:
  "(\<exists>s. rtranclp (limit_step 10000) (limit_start 8) s \<and> unat (conn_count s) = 10007)
   \<and> (\<exists>s. rtranclp (limit_step 10000) (limit_start 16) s \<and> unat (conn_count s) = 10009)"
  using connection_limit_with_workers [of 8 10000] connection_limit_with_workers [of 16 10000] by auto

end
